(* ===== verification/Js_Number.thy ===== *)
theory Js_Number
  imports Complex_Main
begin

text \<open>
  The numbers of the program. Every TypeScript \<^verbatim>\<open>number\<close> is an IEEE 754 binary64 value, and
  the arithmetic of the source (\<^verbatim>\<open>qty - filled\<close>, \<^verbatim>\<open>cash -= dir * qty * price\<close>,
  \<^verbatim>\<open>anchor.vt + (now - anchor.wall) * speed\<close>, the stage boundaries of the animation) rounds.
  A value is \<open>NaN\<close>, an infinity or \<open>Fin x\<close> for a rational \<open>x\<close>; every arithmetic
  operation computes exactly on the rationals and rounds the result with \<open>fl\<close>, the
  round-to-nearest, ties-to-even rounding of the standard (53 bits of significand, least
  exponent -1074, overflow to an infinity from \<open>2 ^ 1024\<close> on). The two zeros are one value:
  the program never divides by a zero and never inspects its sign.

  Shown here: \<open>fl\<close> is the identity on the values binary64 represents (\<open>fl_exact\<close>), so
  arithmetic on safe integers is exact (\<open>js_add_int\<close> and its kin), and \<open>fl\<close> is monotone
  (\<open>fl_mono\<close>). The order of the type class, with \<open>NaN\<close> on top, agrees with the
  comparisons of the language away from \<open>NaN\<close>, so that \<open>sorted\<close> and \<open>sort\<close> apply.
\<close>

section \<open>Values and their order\<close>

datatype jsnum = NaN | NegInf | PosInf | Fin rat

fun js_rank :: "jsnum \<Rightarrow> nat" where
  "js_rank NegInf = 0"
| "js_rank (Fin _) = 1"
| "js_rank PosInf = 2"
| "js_rank NaN = 3"

instantiation jsnum :: linorder
begin

definition less_eq_jsnum :: "jsnum \<Rightarrow> jsnum \<Rightarrow> bool" where
  "less_eq_jsnum a b =
     (case (a, b) of (Fin x, Fin y) \<Rightarrow> x \<le> y | _ \<Rightarrow> js_rank a \<le> js_rank b)"

definition less_jsnum :: "jsnum \<Rightarrow> jsnum \<Rightarrow> bool" where
  "less_jsnum a b =
     (case (a, b) of (Fin x, Fin y) \<Rightarrow> x < y | _ \<Rightarrow> js_rank a < js_rank b)"

instance
proof
  fix x y z :: jsnum
  show "(x < y) = (x \<le> y \<and> \<not> y \<le> x)"
    by (cases x; cases y) (auto simp: less_eq_jsnum_def less_jsnum_def)
  show "x \<le> x"
    by (cases x) (auto simp: less_eq_jsnum_def)
  show "x \<le> y \<Longrightarrow> y \<le> z \<Longrightarrow> x \<le> z"
    by (cases x; cases y; cases z) (auto simp: less_eq_jsnum_def)
  show "x \<le> y \<Longrightarrow> y \<le> x \<Longrightarrow> x = y"
    by (cases x; cases y) (auto simp: less_eq_jsnum_def)
  show "x \<le> y \<or> y \<le> x"
    by (cases x; cases y) (auto simp: less_eq_jsnum_def)
qed

end

lemma less_eq_jsnum_simps [simp]:
  "Fin x \<le> Fin y \<longleftrightarrow> x \<le> y"
  "NegInf \<le> a"
  "a \<le> NaN"
  "Fin x \<le> PosInf"
  "\<not> Fin x \<le> NegInf"
  "\<not> PosInf \<le> Fin x"
  "\<not> PosInf \<le> NegInf"
  "\<not> NaN \<le> Fin x"
  "\<not> NaN \<le> PosInf"
  "\<not> NaN \<le> NegInf"
  by (auto simp: less_eq_jsnum_def split: jsnum.split)

lemma less_jsnum_simps [simp]:
  "Fin x < Fin y \<longleftrightarrow> x < y"
  "Fin x < PosInf"
  "NegInf < Fin x"
  "NegInf < PosInf"
  "\<not> a < NegInf"
  "\<not> PosInf < Fin x"
  by (auto simp: less_jsnum_def split: jsnum.split)

text \<open>The comparisons of the language: false as soon as an operand is \<open>NaN\<close>.\<close>

definition js_lt :: "jsnum \<Rightarrow> jsnum \<Rightarrow> bool" where
  "js_lt a b = (a \<noteq> NaN \<and> b \<noteq> NaN \<and> a < b)"

definition js_le :: "jsnum \<Rightarrow> jsnum \<Rightarrow> bool" where
  "js_le a b = (a \<noteq> NaN \<and> b \<noteq> NaN \<and> a \<le> b)"

definition js_eq :: "jsnum \<Rightarrow> jsnum \<Rightarrow> bool" where
  "js_eq a b = (a \<noteq> NaN \<and> a = b)"

abbreviation js_gt :: "jsnum \<Rightarrow> jsnum \<Rightarrow> bool" where
  "js_gt a b \<equiv> js_lt b a"

abbreviation js_ge :: "jsnum \<Rightarrow> jsnum \<Rightarrow> bool" where
  "js_ge a b \<equiv> js_le b a"

section \<open>Rounding to binary64\<close>

function ilog2 :: "int \<Rightarrow> int" where
  "ilog2 n = (if n < 2 then 0 else 1 + ilog2 (n div 2))"
  by pat_completeness auto
termination
  by (relation "measure nat") auto

declare ilog2.simps [simp del]

text \<open>The binary exponent of a positive rational: \<open>2 ^ expo x \<le> x < 2 ^ (expo x + 1)\<close>.\<close>

definition expo :: "rat \<Rightarrow> int" where
  "expo x =
     (let (p, q) = quotient_of x;
          e = ilog2 p - ilog2 q
      in if 2 powi e \<le> x then e else e - 1)"

definition ulp :: "rat \<Rightarrow> rat" where
  "ulp x = 2 powi (max (expo x - 52) (- 1074))"

definition round_even :: "rat \<Rightarrow> int" where
  "round_even r =
     (let f = \<lfloor>r\<rfloor>; d = r - of_int f
      in if d < 1 / 2 then f else if d > 1 / 2 then f + 1
         else if even f then f else f + 1)"

definition fl_pos :: "rat \<Rightarrow> rat" where
  "fl_pos x = of_int (round_even (x / ulp x)) * ulp x"

definition fl :: "rat \<Rightarrow> jsnum" where
  "fl x =
     (if x = 0 then Fin 0
      else if x > 0 then (if fl_pos x \<ge> 2 ^ 1024 then PosInf else Fin (fl_pos x))
      else (if fl_pos (- x) \<ge> 2 ^ 1024 then NegInf else Fin (- fl_pos (- x))))"

section \<open>Arithmetic\<close>

fun js_neg :: "jsnum \<Rightarrow> jsnum" where
  "js_neg NaN = NaN"
| "js_neg NegInf = PosInf"
| "js_neg PosInf = NegInf"
| "js_neg (Fin x) = Fin (- x)"

fun js_add :: "jsnum \<Rightarrow> jsnum \<Rightarrow> jsnum" where
  "js_add (Fin x) (Fin y) = fl (x + y)"
| "js_add NaN _ = NaN"
| "js_add _ NaN = NaN"
| "js_add PosInf NegInf = NaN"
| "js_add NegInf PosInf = NaN"
| "js_add PosInf _ = PosInf"
| "js_add NegInf _ = NegInf"
| "js_add _ PosInf = PosInf"
| "js_add _ NegInf = NegInf"

definition js_sub :: "jsnum \<Rightarrow> jsnum \<Rightarrow> jsnum" where
  "js_sub a b = js_add a (js_neg b)"

definition js_inf :: "bool \<Rightarrow> jsnum" where
  "js_inf pos = (if pos then PosInf else NegInf)"

fun js_mul :: "jsnum \<Rightarrow> jsnum \<Rightarrow> jsnum" where
  "js_mul (Fin x) (Fin y) = fl (x * y)"
| "js_mul NaN _ = NaN"
| "js_mul _ NaN = NaN"
| "js_mul (Fin x) b = (if x = 0 then NaN else js_inf ((x > 0) = (b = PosInf)))"
| "js_mul a (Fin y) = (if y = 0 then NaN else js_inf ((y > 0) = (a = PosInf)))"
| "js_mul a b = js_inf (a = b)"

text \<open>
  Division. A zero divisor is taken as the positive zero, the only one the program could
  divide by.
\<close>

fun js_div :: "jsnum \<Rightarrow> jsnum \<Rightarrow> jsnum" where
  "js_div (Fin x) (Fin y) =
     (if y = 0 then (if x = 0 then NaN else js_inf (x > 0)) else fl (x / y))"
| "js_div NaN _ = NaN"
| "js_div _ NaN = NaN"
| "js_div (Fin _) _ = Fin 0"
| "js_div a (Fin y) = js_inf ((y \<ge> 0) = (a = PosInf))"
| "js_div _ _ = NaN"

text \<open>\<^verbatim>\<open>Math.max\<close>, \<^verbatim>\<open>Math.min\<close>, \<^verbatim>\<open>Math.floor\<close>, \<^verbatim>\<open>Math.abs\<close>: \<open>NaN\<close> is contagious.\<close>

definition js_max :: "jsnum \<Rightarrow> jsnum \<Rightarrow> jsnum" where
  "js_max a b = (if a = NaN \<or> b = NaN then NaN else max a b)"

definition js_min :: "jsnum \<Rightarrow> jsnum \<Rightarrow> jsnum" where
  "js_min a b = (if a = NaN \<or> b = NaN then NaN else min a b)"

fun js_floor :: "jsnum \<Rightarrow> jsnum" where
  "js_floor (Fin x) = Fin (of_int \<lfloor>x\<rfloor>)"
| "js_floor a = a"

fun js_abs :: "jsnum \<Rightarrow> jsnum" where
  "js_abs (Fin x) = Fin \<bar>x\<bar>"
| "js_abs NaN = NaN"
| "js_abs _ = PosInf"

text \<open>An integer as a number, and the integers that binary64 holds without gaps.\<close>

abbreviation js_int :: "int \<Rightarrow> jsnum" where
  "js_int i \<equiv> Fin (of_int i)"

definition safe_int :: "int \<Rightarrow> bool" where
  "safe_int i = (\<bar>i\<bar> < 2 ^ 53)"


section \<open>Facts about rounding\<close>

lemma ilog2_nonneg: "0 \<le> ilog2 n"
  by (induction n rule: ilog2.induct) (simp add: ilog2.simps)

lemma ilog2_bounds:
  assumes "0 < n"
  shows "2 ^ nat (ilog2 n) \<le> n \<and> n < 2 ^ Suc (nat (ilog2 n))"
  using assms
proof (induction n rule: ilog2.induct)
  case (1 n)
  show ?case
  proof (cases "n < 2")
    case True
    with "1.prems" show ?thesis by (simp add: ilog2.simps [of n])
  next
    case False
    define a where "a = nat (ilog2 (n div 2))"
    have "nat (ilog2 n) = Suc a"
      using False ilog2_nonneg [of "n div 2"] by (simp add: ilog2.simps [of n] a_def)
    moreover have "2 ^ a \<le> n div 2 \<and> n div 2 < 2 ^ Suc a"
      using "1.IH" False by (simp add: a_def)
    ultimately show ?thesis by auto
  qed
qed

lemma two_powi_pos [simp]: "0 < (2 :: rat) powi e"
  by (simp add: zero_less_power_int)

lemma two_powi_less_iff: "(2 :: rat) powi a < 2 powi b \<longleftrightarrow> a < b"
  using power_int_strict_increasing [of a b "2 :: rat"]
    power_int_increasing [of b a "2 :: rat"] by force

lemma two_powi_le_iff: "(2 :: rat) powi a \<le> 2 powi b \<longleftrightarrow> a \<le> b"
  using two_powi_less_iff [of b a] by (simp flip: not_less)

lemma two_powi_int:
  assumes "0 \<le> e"
  shows "(2 :: rat) powi e = of_int (2 ^ nat e)"
  using assms by (simp add: power_int_def)

lemma two_powi_split:
  assumes "k \<le> e"
  shows "(2 :: rat) powi e = of_int (2 ^ nat (e - k)) * 2 powi k"
proof -
  have "(2 :: rat) powi e = 2 powi (e - k) * 2 powi k" by (simp flip: power_int_add)
  then show ?thesis using two_powi_int [of "e - k"] assms by simp
qed

lemma expo_bounds:
  assumes "0 < x"
  shows "2 powi expo x \<le> x" and "x < 2 powi (expo x + 1)"
proof -
  obtain p q where pq: "quotient_of x = (p, q)" by (cases "quotient_of x")
  have q: "0 < q" using quotient_of_denom_pos [OF pq] .
  have x: "x = of_int p / of_int q" using quotient_of_div [OF pq] .
  have p: "0 < p" using assms x q by (simp add: zero_less_divide_iff)
  define a b where "a = nat (ilog2 p)" and "b = nat (ilog2 q)"
  have ab: "ilog2 p = int a" "ilog2 q = int b" by (simp_all add: a_def b_def ilog2_nonneg)
  have P: "2 ^ a \<le> p" "p < 2 ^ Suc a" and Q: "2 ^ b \<le> q" "q < 2 ^ Suc b"
    using ilog2_bounds [OF p] ilog2_bounds [OF q] by (simp_all add: a_def b_def)
  then have P': "(2 :: rat) ^ a \<le> of_int p" "of_int p < (2 :: rat) ^ Suc a"
    and Q': "(2 :: rat) ^ b \<le> of_int q" "of_int q < (2 :: rat) ^ Suc b"
    by (metis of_int_le_iff of_int_less_iff of_int_numeral of_int_power)+
  have "(2 :: rat) ^ a / 2 ^ Suc b \<le> x"
    unfolding x using P' Q' p q by (intro frac_le) auto
  moreover have "x < 2 ^ Suc a / 2 ^ b"
    unfolding x using P' Q' p q by (intro frac_less) auto
  moreover have "(2 :: rat) ^ a / 2 ^ Suc b = 2 powi (int a - int b - 1)"
    by (simp add: power_int_diff)
  moreover have "(2 :: rat) ^ Suc a / 2 ^ b = 2 powi (int a - int b + 1)"
    by (simp add: power_int_diff power_int_add)
  ultimately show "2 powi expo x \<le> x" and "x < 2 powi (expo x + 1)"
    by (auto simp: expo_def pq Let_def ab)
qed

lemma expo_less:
  assumes "0 < x" and "x < 2 powi e"
  shows "expo x < e"
  using expo_bounds(1) [OF assms(1)] assms(2) two_powi_less_iff [of "expo x" e] by linarith

lemma expo_mono:
  assumes "0 < x" and "x \<le> y"
  shows "expo x \<le> expo y"
proof -
  have "x < 2 powi (expo y + 1)" using expo_bounds(2) [of y] assms by simp
  then show ?thesis using expo_less [OF assms(1)] by fastforce
qed

lemma round_even_of_int [simp]: "round_even (of_int n) = n"
  by (simp add: round_even_def)

lemma round_even_floor: "\<lfloor>r\<rfloor> \<le> round_even r" "round_even r \<le> \<lfloor>r\<rfloor> + 1"
  by (auto simp: round_even_def Let_def)

lemma round_even_mono:
  assumes "r \<le> s"
  shows "round_even r \<le> round_even s"
proof (cases "\<lfloor>r\<rfloor> = \<lfloor>s\<rfloor>")
  case True
  with assms show ?thesis by (auto simp: round_even_def Let_def)
next
  case False
  with floor_mono [OF assms] show ?thesis
    using round_even_floor(2) [of r] round_even_floor(1) [of s] by linarith
qed

lemma ulp_pos [simp]: "0 < ulp x"
  by (simp add: ulp_def)

lemma fl_pos_le_int:
  assumes "x \<le> of_int n * ulp x"
  shows "fl_pos x \<le> of_int n * ulp x"
proof -
  have "x / ulp x \<le> of_int n" using assms by (simp add: pos_divide_le_eq)
  then have "round_even (x / ulp x) \<le> n" using round_even_mono by fastforce
  then show ?thesis by (simp add: fl_pos_def)
qed

lemma fl_pos_ge_int:
  assumes "of_int n * ulp x \<le> x"
  shows "of_int n * ulp x \<le> fl_pos x"
proof -
  have "of_int n \<le> x / ulp x" using assms by (simp add: pos_le_divide_eq)
  then have "n \<le> round_even (x / ulp x)" using round_even_mono by fastforce
  then show ?thesis by (simp add: fl_pos_def)
qed

lemma fl_pos_nonneg: "0 < x \<Longrightarrow> 0 \<le> fl_pos x"
  using fl_pos_ge_int [of 0 x] by simp

lemma fl_pos_mono:
  assumes "0 < x" and "x \<le> y"
  shows "fl_pos x \<le> fl_pos y"
proof (cases "ulp x = ulp y")
  case True
  have "x / ulp y \<le> y / ulp y" using assms(2) by (simp add: divide_right_mono less_imp_le)
  then show ?thesis using round_even_mono by (simp add: fl_pos_def True)
next
  case False
  define e where "e = expo y"
  have "expo x \<le> e" using expo_mono [OF assms] e_def by simp
  moreover have ne: "max (expo x - 52) (- 1074) \<noteq> max (e - 52) (- 1074)"
    using False by (auto simp: ulp_def e_def)
  ultimately have ex: "expo x < e" and Ey: "max (e - 52) (- 1074) = e - 52"
    and Ex: "max (expo x - 52) (- 1074) < e - 52"
    by auto
  have "x < 2 powi (expo x + 1)" using expo_bounds(2) assms by simp
  also have "\<dots> \<le> 2 powi e" using ex by (simp add: two_powi_le_iff)
  finally have xe: "x \<le> 2 powi e" by simp
  have up: "2 powi e = of_int (2 ^ nat (e - max (expo x - 52) (- 1074))) * ulp x"
    unfolding ulp_def by (rule two_powi_split) (use Ex in simp)
  have lo: "2 powi e = of_int (2 ^ nat (e - max (e - 52) (- 1074))) * ulp y"
    unfolding ulp_def e_def by (rule two_powi_split) (use Ey e_def in simp)
  have "fl_pos x \<le> 2 powi e" using fl_pos_le_int xe up by metis
  moreover have "2 powi e \<le> fl_pos y"
    using fl_pos_ge_int lo expo_bounds(1) [of y] assms e_def by (metis less_le_trans)
  ultimately show ?thesis by linarith
qed


text \<open>Monotone rounding on all rationals, overflow included.\<close>

lemma fl_mono:
  assumes "x \<le> y"
  shows "fl x \<le> fl y"
proof -
  consider "0 < x" | "y < 0" | "x \<le> 0" "0 \<le> y" by linarith
  then show ?thesis
  proof cases
    case 1
    with fl_pos_mono [OF 1 assms] assms show ?thesis by (simp add: fl_def)
  next
    case 2
    with assms have "fl_pos (- y) \<le> fl_pos (- x)" by (intro fl_pos_mono) auto
    with 2 assms show ?thesis by (simp add: fl_def)
  next
    case 3
    have "fl x \<le> Fin 0" using 3 fl_pos_nonneg [of "- x"] by (auto simp: fl_def)
    moreover have "Fin 0 \<le> fl y" using 3 fl_pos_nonneg [of y] by (auto simp: fl_def)
    ultimately show ?thesis by (rule order_trans)
  qed
qed

lemma fl_not_NaN [simp]: "fl x \<noteq> NaN"
  by (simp add: fl_def)

lemma fl_0 [simp]: "fl 0 = Fin 0"
  by (simp add: fl_def)

lemma fl_minus: "fl (- x) = js_neg (fl x)"
  by (auto simp: fl_def)

text \<open>
  The values binary64 represents: an integer significand of at most 53 bits at a scale of
  at least \<open>2 ^ -1074\<close>, below the overflow threshold.
\<close>

definition representable :: "rat \<Rightarrow> bool" where
  "representable x \<longleftrightarrow>
     (\<exists>m k. x = of_int m * 2 powi k \<and> \<bar>m\<bar> < 2 ^ 53 \<and> - 1074 \<le> k \<and> \<bar>x\<bar> < 2 ^ 1024)"

lemma fl_pos_exact:
  assumes x: "x = of_int m * 2 powi k" and m: "0 < m" "m < 2 ^ 53" and k: "- 1074 \<le> k"
  shows "fl_pos x = x"
proof -
  have "(of_int m :: rat) < of_int (2 ^ 53)" using m(2) by (simp only: of_int_less_iff)
  then have "x < 2 ^ 53 * 2 powi k" unfolding x by simp
  also have "\<dots> = 2 powi (53 + k)" by (simp add: power_int_add)
  finally have "expo x < 53 + k" using expo_less x m by simp
  with k have le: "max (expo x - 52) (- 1074) \<le> k" by auto
  define n where "n = m * 2 ^ nat (k - max (expo x - 52) (- 1074))"
  have "x = of_int n * ulp x"
    using two_powi_split [OF le] by (simp add: n_def x ulp_def)
  then have "x / ulp x = of_int n" using ulp_pos [of x] by (metis less_irrefl nonzero_eq_divide_eq)
  then show ?thesis using \<open>x = of_int n * ulp x\<close> by (simp add: fl_pos_def)
qed

theorem fl_exact:
  assumes "representable x"
  shows "fl x = Fin x"
proof -
  obtain m k where x: "x = of_int m * 2 powi k" and m: "\<bar>m\<bar> < 2 ^ 53" and k: "- 1074 \<le> k"
    and b: "\<bar>x\<bar> < 2 ^ 1024"
    using assms by (auto simp: representable_def)
  consider "m = 0" | "0 < m" | "m < 0" by linarith
  then show ?thesis
  proof cases
    case 1
    then show ?thesis by (simp add: x)
  next
    case 2
    then have "0 < x" by (simp add: x)
    moreover have "fl_pos x = x" using fl_pos_exact [OF x 2 _ k] m by simp
    ultimately show ?thesis using b by (simp add: fl_def)
  next
    case 3
    then have "x < 0" by (simp add: x mult_neg_pos)
    moreover have "fl_pos (- x) = - x"
      using fl_pos_exact [of "- x" "- m" k] 3 m k by (simp add: x)
    ultimately show ?thesis using b by (simp add: fl_def)
  qed
qed

lemma representable_int:
  assumes "safe_int i"
  shows "representable (of_int i)"
proof -
  have "\<bar>of_int i :: rat\<bar> < 2 ^ 53"
    using assms unfolding safe_int_def by (metis of_int_abs of_int_less_iff of_int_numeral of_int_power)
  also have "\<dots> \<le> 2 ^ 1024" by (rule power_increasing) simp_all
  finally show ?thesis
    using assms unfolding representable_def safe_int_def
    by (intro exI [of _ i] exI [of _ 0]) simp
qed

lemma fl_int: "safe_int i \<Longrightarrow> fl (of_int i) = js_int i"
  by (simp add: fl_exact representable_int)

lemma js_add_int: "safe_int (i + j) \<Longrightarrow> js_add (js_int i) (js_int j) = js_int (i + j)"
  using fl_int [of "i + j"] by simp

lemma js_sub_int: "safe_int (i - j) \<Longrightarrow> js_sub (js_int i) (js_int j) = js_int (i - j)"
  using fl_int [of "i - j"] by (simp add: js_sub_def)

lemma js_mul_int: "safe_int (i * j) \<Longrightarrow> js_mul (js_int i) (js_int j) = js_int (i * j)"
  using fl_int [of "i * j"] by simp


text \<open>Evaluation on numerals and on binary fractions.\<close>

lemma fl_dyadic:
  assumes "x * 2 ^ k = of_int m" and "\<bar>m\<bar> < 2 ^ 53" and "k \<le> 1074"
  shows "fl x = Fin x"
proof (rule fl_exact)
  have x: "x = of_int m * 2 powi (- int k)"
    using assms(1) by (simp add: power_int_minus field_simps)
  have "\<bar>x\<bar> \<le> \<bar>x * 2 ^ k\<bar>" by (simp add: abs_mult mult_le_cancel_left1)
  also have "\<dots> = of_int \<bar>m\<bar>" by (simp add: assms(1))
  also have "\<dots> < of_int (2 ^ 53)" using assms(2) by (simp only: of_int_less_iff)
  also have "\<dots> \<le> 2 ^ 1024" by simp
  finally show "representable x" using x assms unfolding representable_def by fastforce
qed

lemma fl_numeral [simp]:
  "(numeral n :: int) < 2 ^ 53 \<Longrightarrow> fl (numeral n) = Fin (numeral n)"
  "(numeral n :: int) < 2 ^ 53 \<Longrightarrow> fl (- numeral n) = Fin (- numeral n)"
  "fl 1 = Fin 1"
  "fl (- 1) = Fin (- 1)"
  using fl_int [of "numeral n"] fl_int [of "- numeral n"] fl_int [of 1] fl_int [of "- 1"]
  by (simp_all add: safe_int_def)


section \<open>Exact arithmetic at a binary scale\<close>

text \<open>\<open>sc k m\<close> is \<open>m\<close> units of \<open>2 ^ -k\<close>; integers are the scale 0.\<close>

definition sc :: "nat \<Rightarrow> int \<Rightarrow> jsnum" where
  "sc k m = Fin (of_int m / 2 ^ k)"

lemma sc_zero_scale: "sc 0 m = js_int m"
  by (simp add: sc_def)

lemma fl_sc:
  assumes "\<bar>m\<bar> < 2 ^ 53" and "k \<le> 1074"
  shows "fl (of_int m / 2 ^ k) = sc k m"
  unfolding sc_def using assms by (intro fl_dyadic [of _ k m]) simp_all

lemma js_add_sc: "\<bar>m + n\<bar> < 2 ^ 53 \<Longrightarrow> k \<le> 1074 \<Longrightarrow> js_add (sc k m) (sc k n) = sc k (m + n)"
  using fl_sc [of "m + n" k] by (simp add: sc_def add_divide_distrib)

lemma js_sub_sc: "\<bar>m - n\<bar> < 2 ^ 53 \<Longrightarrow> k \<le> 1074 \<Longrightarrow> js_sub (sc k m) (sc k n) = sc k (m - n)"
  using fl_sc [of "m - n" k] by (simp add: sc_def js_sub_def diff_divide_distrib)

lemma js_mul_sc:
  "\<bar>m * n\<bar> < 2 ^ 53 \<Longrightarrow> k \<le> 1074 \<Longrightarrow> js_mul (sc 0 m) (sc k n) = sc k (m * n)"
  using fl_sc [of "m * n" k] by (simp add: sc_def)

fun num_floor :: "jsnum \<Rightarrow> int" where
  "num_floor (Fin x) = \<lfloor>x\<rfloor>"
| "num_floor _ = 0"

lemma num_floor_sc [simp]: "num_floor (sc 0 m) = m"
  by (simp add: sc_def)

end
