(* ===== verification/Prelude.thy ===== *)
theory Prelude
  imports Js_Number "HOL-Library.AList"
begin

text \<open>
  Shared material of the component theories: the fields of a decoded message, the insertion
  ordered map of the language (as an interface and as an association list that implements it),
  runs of a state machine with their invariant rule, and the collections of rewrite rules the
  component proofs use.
\<close>

named_theorems wire_simps \<open>rewriting of the wire format and of its defaults\<close>
named_theorems norm_simps \<open>unfolding of the normalizer\<close>
named_theorems feed_simps \<open>unfolding of the playback clock and of the frame buffer\<close>

section \<open>Optional fields\<close>

text \<open>
  A property of a decoded message is absent (\<^verbatim>\<open>undefined\<close>), explicitly \<^verbatim>\<open>null\<close>, or holds a
  value. \<open>nullish f d\<close> is the operator \<^verbatim>\<open>f ?? d\<close>.
\<close>

datatype 'a field = Undefined | Null | Val 'a

fun nullish :: "'a field \<Rightarrow> 'a \<Rightarrow> 'a" where
  "nullish (Val a) d = a"
| "nullish _ d = d"

fun field_option :: "'a field \<Rightarrow> 'a option" where
  "field_option (Val a) = Some a"
| "field_option _ = None"

section \<open>Memos\<close>

text \<open>
  \<^verbatim>\<open>useMemo\<close>: the value kept from an earlier render while the dependencies are the same ones, else a
  new one. A cell is what the component keeps; \<open>calc\<close> is the computation, which may throw. The
  dependencies are compared by value. React may also drop a kept value, which is an empty cell; the
  theorems that depend on memos hold for empty cells as well.
\<close>

type_synonym ('k, 'v) memo_cell = "('k \<times> 'v) option"

definition useMemo :: "'k \<Rightarrow> 'v option \<Rightarrow> ('k, 'v) memo_cell \<Rightarrow> ('v \<times> ('k, 'v) memo_cell) option" where
  "useMemo deps calc cell =
     (case cell of
        Some (k, v) \<Rightarrow> if k = deps then Some (v, cell) else map_option (\<lambda>w. (w, Some (deps, w))) calc
      | None \<Rightarrow> map_option (\<lambda>w. (w, Some (deps, w))) calc)"

text \<open>A cell with the present dependencies holds the present value.\<close>

definition cell_current :: "'k \<Rightarrow> 'v option \<Rightarrow> ('k, 'v) memo_cell \<Rightarrow> bool" where
  "cell_current deps calc cell \<longleftrightarrow> (\<forall>v. cell = Some (deps, v) \<longrightarrow> calc = Some v)"

lemma useMemo_current: "cell_current deps calc cell \<Longrightarrow> useMemo deps calc cell = map_option (\<lambda>w. (w, Some (deps, w))) calc"
  by (auto simp: useMemo_def cell_current_def split: option.split)

lemma useMemo_empty: "useMemo deps calc None = map_option (\<lambda>w. (w, Some (deps, w))) calc"
  by (simp add: useMemo_def)

lemma useMemo_again: "useMemo deps calc cell = Some (v, cell') \<Longrightarrow> useMemo deps calc' cell' = Some (v, cell')"
  by (auto simp: useMemo_def split: option.splits if_splits)

lemma useMemo_key: "useMemo deps calc cell = Some (v, cell') \<Longrightarrow> \<exists>w. cell' = Some (deps, w) \<and> v = w"
  by (auto simp: useMemo_def split: option.splits if_splits)

section \<open>The last element, if any\<close>

definition last_opt :: "'a list \<Rightarrow> 'a option" where
  "last_opt xs = (if xs = [] then None else Some (last xs))"

lemma last_opt_append [simp]: "last_opt (xs @ y # ys) = last_opt (y # ys)"
  by (simp add: last_opt_def)

lemma last_opt_Cons_cong: "last_opt xs = last_opt ys \<Longrightarrow> last_opt (x # xs) = last_opt (x # ys)"
  by (auto simp: last_opt_def split: if_splits)

section \<open>Lists\<close>

lemma distinct_count_list: "distinct xs \<Longrightarrow> count_list xs x = (if x \<in> set xs then 1 else 0)"
  by (induction xs) auto

lemma map_filter_append: "List.map_filter p (xs @ ys) = List.map_filter p xs @ List.map_filter p ys"
  by (simp add: List.map_filter_def)

section \<open>Insertion ordered maps\<close>

text \<open>
  The contract of \<^verbatim>\<open>Map\<close> that the program relies on: \<open>keys\<close> lists the keys in insertion
  order, writing an existing key keeps its place, and a new key goes to the end.
\<close>

locale js_map =
  fixes get :: "'m \<Rightarrow> 'k \<Rightarrow> 'v option"
    and put :: "'k \<Rightarrow> 'v \<Rightarrow> 'm \<Rightarrow> 'm"
    and del :: "'k \<Rightarrow> 'm \<Rightarrow> 'm"
    and keys :: "'m \<Rightarrow> 'k list"
    and wf :: "'m \<Rightarrow> bool"
  assumes get_put: "get (put k v m) = (get m)(k \<mapsto> v)"
    and get_del: "get (del k m) = (get m)(k := None)"
    and get_keys: "(get m k \<noteq> None) = (k \<in> set (keys m))"
    and keys_put: "keys (put k v m) = (if k \<in> set (keys m) then keys m else keys m @ [k])"
    and keys_del: "keys (del k m) = filter (\<lambda>k'. k' \<noteq> k) (keys m)"
    and wf_keys: "wf m = distinct (keys m)"
begin

lemma wf_put: "wf m \<Longrightarrow> wf (put k v m)"
  by (simp add: wf_keys keys_put)

lemma wf_del: "wf m \<Longrightarrow> wf (del k m)"
  by (simp add: wf_keys keys_del)

lemma size_put: "length (keys (put k v m)) \<le> Suc (length (keys m))"
  by (simp add: keys_put)

lemma size_del: "length (keys (del k m)) \<le> length (keys m)"
  by (simp add: keys_del)

lemma size_del_member:
  assumes "k \<in> set (keys m)"
  shows "length (keys (del k m)) < length (keys m)"
  using assms by (simp add: keys_del length_filter_less)

text \<open>Writing a key and dropping the oldest one when the map grew past a limit keeps the limit.\<close>

lemma size_put_evict:
  assumes "length (keys m) \<le> n"
  shows "length (keys (if n < length (keys (put k v m))
    then del (hd (keys (put k v m))) (put k v m) else put k v m)) \<le> n"
proof (cases "n < length (keys (put k v m))")
  case True
  then have "hd (keys (put k v m)) \<in> set (keys (put k v m))" by (intro list.set_sel) auto
  then show ?thesis
    using True size_del_member [of "hd (keys (put k v m))" "put k v m"] size_put [of k v m] assms
    by simp
qed simp

end

text \<open>The model's map: an association list in insertion order.\<close>

type_synonym ('k, 'v) omap = "('k \<times> 'v) list"

abbreviation omap_get :: "('k, 'v) omap \<Rightarrow> 'k \<Rightarrow> 'v option" where
  "omap_get \<equiv> map_of"

abbreviation omap_set :: "'k \<Rightarrow> 'v \<Rightarrow> ('k, 'v) omap \<Rightarrow> ('k, 'v) omap" where
  "omap_set \<equiv> AList.update"

abbreviation omap_del :: "'k \<Rightarrow> ('k, 'v) omap \<Rightarrow> ('k, 'v) omap" where
  "omap_del \<equiv> AList.delete"

abbreviation omap_keys :: "('k, 'v) omap \<Rightarrow> 'k list" where
  "omap_keys \<equiv> map fst"

abbreviation omap_values :: "('k, 'v) omap \<Rightarrow> 'v list" where
  "omap_values \<equiv> map snd"

definition omap_wf :: "('k, 'v) omap \<Rightarrow> bool" where
  "omap_wf m = distinct (omap_keys m)"

lemma keys_update: "map fst (AList.update k v m) = (if k \<in> set (map fst m) then map fst m else map fst m @ [k])"
  by (induction m) auto

interpretation omap: js_map omap_get omap_set omap_del omap_keys omap_wf
proof unfold_locales
  fix k :: 'a and v :: 'b and m :: "('a, 'b) omap"
  show "omap_get (omap_set k v m) = (omap_get m)(k \<mapsto> v)" by (rule update_conv')
  show "omap_get (omap_del k m) = (omap_get m)(k := None)" by (rule delete_conv')
  show "(omap_get m k \<noteq> None) = (k \<in> set (omap_keys m))" by (simp add: map_of_eq_None_iff)
  show "omap_keys (omap_set k v m) = (if k \<in> set (omap_keys m) then omap_keys m else omap_keys m @ [k])"
    by (rule keys_update)
  show "omap_keys (omap_del k m) = filter (\<lambda>k'. k' \<noteq> k) (omap_keys m)" by (auto simp: delete_keys removeAll_filter_not_eq intro!: filter_cong)
  show "omap_wf m = distinct (omap_keys m)" by (simp add: omap_wf_def)
qed

section \<open>Runs of a state machine\<close>

definition run :: "('s \<Rightarrow> 'e \<Rightarrow> 's) \<Rightarrow> 's \<Rightarrow> 'e list \<Rightarrow> 's" where
  "run step s es = foldl step s es"

lemma run_Nil [simp]: "run step s [] = s"
  and run_Cons [simp]: "run step s (e # es) = run step (step s e) es"
  and run_append [simp]: "run step s (es @ es') = run step (run step s es) es'"
  by (simp_all add: run_def)

locale machine =
  fixes step :: "'s \<Rightarrow> 'e \<Rightarrow> 's"
    and inv :: "'s \<Rightarrow> bool"
  assumes step_inv: "inv s \<Longrightarrow> inv (step s e)"
begin

lemma run_inv: "inv s \<Longrightarrow> inv (run step s es)"
  by (induction es arbitrary: s) (auto intro: step_inv)

end

text \<open>
  A service handles events and may fail on one; a run stops at the first failure. An invariant
  that holds initially and is kept by every event that is handled holds after every run.
\<close>

fun prun :: "('e \<Rightarrow> 's \<Rightarrow> 's option) \<Rightarrow> 'e list \<Rightarrow> 's \<Rightarrow> 's option" where
  "prun exec [] s = Some s"
| "prun exec (e # es) s = (case exec e s of None \<Rightarrow> None | Some s' \<Rightarrow> prun exec es s')"

lemma prun_append: "prun exec (es @ es') s = Option.bind (prun exec es s) (prun exec es')"
  by (induction es arbitrary: s) (auto split: option.split)

locale service =
  fixes exec :: "'e \<Rightarrow> 's \<Rightarrow> 's option"
    and initial :: "'s \<Rightarrow> bool"
    and inv :: "'s \<Rightarrow> bool"
  assumes initial_inv: "initial s \<Longrightarrow> inv s"
    and exec_inv: "exec e s = Some s' \<Longrightarrow> inv s \<Longrightarrow> inv s'"
begin

lemma prun_inv: "prun exec es s = Some s' \<Longrightarrow> inv s \<Longrightarrow> inv s'"
  by (induction es arbitrary: s) (auto split: option.splits dest: exec_inv)

lemma session_inv: "initial s \<Longrightarrow> prun exec es s = Some s' \<Longrightarrow> inv s'"
  using prun_inv initial_inv by blast

end

text \<open>
  A service that handles every admissible event as long as its invariant holds: no run of
  admissible events fails.
\<close>

locale total_service =
  fixes exec :: "'e \<Rightarrow> 's \<Rightarrow> 's option"
    and ok :: "'e \<Rightarrow> bool"
    and inv :: "'s \<Rightarrow> bool"
  assumes exec_total: "ok e \<Longrightarrow> inv s \<Longrightarrow> \<exists>s'. exec e s = Some s' \<and> inv s'"
begin

lemma prun_total: "list_all ok es \<Longrightarrow> inv s \<Longrightarrow> \<exists>s'. prun exec es s = Some s' \<and> inv s'"
  by (induction es arbitrary: s) (fastforce dest: exec_total)+

lemma prun_total_inv: "list_all ok es \<Longrightarrow> inv s \<Longrightarrow> prun exec es s = Some s' \<Longrightarrow> inv s'"
  using prun_total by fastforce

end

end
