(* ===== verification/Wire.thy ===== *)
theory Wire
  imports Prelude
begin

text \<open>
  The wire format between the gateway and the browser (\<^verbatim>\<open>web/gateway/normalize.ts\<close>, the exported
  interfaces) and the decoded telemetry message it is made from (\<^verbatim>\<open>proto/telemetry.proto\<close> as the
  gRPC loader hands it over with \<^verbatim>\<open>keepCase, longs: Number, enums: String, defaults: false\<close>:
  64-bit integers are numbers, enumerations are their names, an unset field is absent).
  String-literal unions become datatypes; the empty-string member of a union is \<open>None\<close>.
\<close>

datatype side = Bid | Ask
datatype otype = Market | Limit
datatype ostatus = Filled | Partial | Queued | Rejected
datatype wop = Submit | Cancel

record wire_trade =
  t_id :: string
  t_price :: jsnum
  t_qty :: jsnum
  t_aggressorSide :: side
  t_aggressor :: string
  t_aggressorNode :: string
  t_resting :: string
  t_restingNode :: string

type_synonym level = "jsnum \<times> jsnum \<times> jsnum"

record wire_book =
  bk_bids :: "level list"
  bk_asks :: "level list"

record wire_order =
  o_id :: string
  o_node :: string
  o_side :: "side option"
  o_type :: "otype option"
  o_price :: jsnum
  o_qty :: jsnum
  o_status :: "ostatus option"
  o_filled :: jsnum
  o_avg :: jsnum
  o_reason :: string
  o_cancelOk :: bool

record wire_trace =
  tr_enqueue :: jsnum
  tr_dequeue :: jsnum
  tr_matchDone :: jsnum
  tr_promiseSet :: jsnum
  tr_publish :: jsnum

record wire_tob =
  tob_bid :: "jsnum option"
  tob_bidQty :: jsnum
  tob_ask :: "jsnum option"
  tob_askQty :: jsnum

record wire_batch =
  b_at :: jsnum
  b_seq :: jsnum
  b_op :: wop
  b_order :: wire_order
  b_trace :: wire_trace
  b_trades :: "wire_trade list"
  b_tob :: "wire_tob option"
  b_book :: "wire_book option"

section \<open>The decoded telemetry message\<close>

record raw_order =
  ro_op :: "string field"
  ro_order_id :: "string field"
  ro_node_id :: "string field"
  ro_side :: "string field"
  ro_type :: "string field"
  ro_price :: "jsnum field"
  ro_quantity :: "jsnum field"
  ro_status :: "string field"
  ro_filled_quantity :: "jsnum field"
  ro_avg_price :: "jsnum field"
  ro_rejection_reason :: "string field"
  ro_cancel_successful :: "bool field"

record raw_trace =
  rt_seq :: "jsnum field"
  rt_rpc_in :: "jsnum field"
  rt_enqueue :: "jsnum field"
  rt_dequeue :: "jsnum field"
  rt_match_done :: "jsnum field"
  rt_promise_set :: "jsnum field"
  rt_publish :: "jsnum field"

record raw_trade =
  rd_trade_id :: "string field"
  rd_price :: "jsnum field"
  rd_quantity :: "jsnum field"
  rd_aggressor_side :: "string field"
  rd_aggressor_order_id :: "string field"
  rd_resting_order_id :: "string field"

record raw_tob =
  rb_bid_price :: "jsnum field"
  rb_bid_quantity :: "jsnum field"
  rb_ask_price :: "jsnum field"
  rb_ask_quantity :: "jsnum field"

record raw_level =
  rl_price :: "jsnum field"
  rl_quantity :: "jsnum field"
  rl_orders :: "jsnum field"

record raw_book =
  rk_bids :: "raw_level list field"
  rk_asks :: "raw_level list field"

record raw_batch =
  r_timestamp :: "jsnum field"
  r_order :: "raw_order field"
  r_trace :: "raw_trace field"
  r_trades :: "raw_trade list field"
  r_top_of_book :: "raw_tob field"
  r_book :: "raw_book field"

text \<open>The empty object \<^verbatim>\<open>{}\<close> that stands in for a missing sub-message.\<close>

definition no_order :: raw_order where
  "no_order = \<lparr>ro_op = Undefined, ro_order_id = Undefined, ro_node_id = Undefined,
     ro_side = Undefined, ro_type = Undefined, ro_price = Undefined, ro_quantity = Undefined,
     ro_status = Undefined, ro_filled_quantity = Undefined, ro_avg_price = Undefined,
     ro_rejection_reason = Undefined, ro_cancel_successful = Undefined\<rparr>"

definition no_trace :: raw_trace where
  "no_trace = \<lparr>rt_seq = Undefined, rt_rpc_in = Undefined, rt_enqueue = Undefined,
     rt_dequeue = Undefined, rt_match_done = Undefined, rt_promise_set = Undefined,
     rt_publish = Undefined\<rparr>"

section \<open>Reading a field\<close>

text \<open>
  \<^verbatim>\<open>num\<close>: a missing number is 0; a present one is already a number, on which \<^verbatim>\<open>Number\<close> is
  the identity.
\<close>

definition num :: "jsnum field \<Rightarrow> jsnum" where
  "num v = (case v of Undefined \<Rightarrow> Fin 0 | Null \<Rightarrow> Fin 0 | Val x \<Rightarrow> x)"

text \<open>The lookup tables \<^verbatim>\<open>SIDE\<close>, \<^verbatim>\<open>TYPE\<close> and \<^verbatim>\<open>STATUS\<close>: a name they do not list gives \<open>None\<close>.\<close>

definition SIDE :: "string field \<Rightarrow> side option" where
  "SIDE f = (if f = Val ''BID'' then Some Bid else if f = Val ''ASK'' then Some Ask else None)"

definition TYPE_tbl :: "string field \<Rightarrow> otype option" where
  "TYPE_tbl f =
     (if f = Val ''MARKET'' then Some Market else if f = Val ''LIMIT'' then Some Limit else None)"

definition STATUS :: "string field \<Rightarrow> ostatus option" where
  "STATUS f =
     (if f = Val ''FILLED'' then Some Filled else if f = Val ''PARTIAL'' then Some Partial
      else if f = Val ''QUEUED'' then Some Queued else if f = Val ''REJECTED'' then Some Rejected
      else None)"

lemma num_simps [wire_simps]:
  "num Undefined = Fin 0" "num Null = Fin 0" "num (Val x) = x"
  by (simp_all add: num_def)

end
