(* ===== verification/Normalizer.thy ===== *)
theory Normalizer
  imports Wire "HOL-Library.Sublist"
begin

text \<open>
  The class \<^verbatim>\<open>Normalizer\<close> of \<^verbatim>\<open>web/gateway/normalize.ts\<close>: it turns the engine's telemetry
  into wire batches, remembers which bot owns each resting order so that fills can be
  attributed, and thins the book snapshots to about thirty a second.
\<close>

section \<open>State and operations\<close>

record resting =
  rs_node :: string
  rs_remaining :: jsnum

type_synonym resting_map = "(string, resting) omap"

record normalizer =
  n_resting :: resting_map
  n_lastBookAt :: jsnum
  n_pendingBook :: "wire_book option"

definition new_normalizer :: normalizer where
  "new_normalizer = \<lparr>n_resting = [], n_lastBookAt = Fin 0, n_pendingBook = None\<rparr>"

definition flushBook :: "normalizer \<Rightarrow> wire_book option \<times> normalizer" where
  "flushBook n = (n_pendingBook n, n\<lparr>n_pendingBook := None\<rparr>)"

text \<open>
  The callback of \<^verbatim>\<open>raw.trades.map\<close>: it reads the owner of the resting order, lowers what the
  entry has left, drops the entry when nothing is left, and builds the wire trade.
\<close>

definition fill_resting :: "string \<Rightarrow> jsnum \<Rightarrow> resting_map \<Rightarrow> resting_map" where
  "fill_resting rid q m =
     (case omap_get m rid of
        None \<Rightarrow> m
      | Some e \<Rightarrow>
          let rem = js_sub (rs_remaining e) q
          in if js_le rem (Fin 0) then omap_del rid m
             else omap_set rid (e\<lparr>rs_remaining := rem\<rparr>) m)"

definition normalize_trade :: "string \<Rightarrow> resting_map \<Rightarrow> raw_trade \<Rightarrow> wire_trade \<times> resting_map" where
  "normalize_trade node m t =
     (let restingId = nullish (rd_resting_order_id t) [];
          restingNode = (case omap_get m restingId of None \<Rightarrow> ''?'' | Some e \<Rightarrow> rs_node e)
      in (\<lparr>t_id = nullish (rd_trade_id t) [],
           t_price = num (rd_price t),
           t_qty = num (rd_quantity t),
           t_aggressorSide = (case SIDE (rd_aggressor_side t) of None \<Rightarrow> Bid | Some s \<Rightarrow> s),
           t_aggressor = nullish (rd_aggressor_order_id t) [],
           t_aggressorNode = node,
           t_resting = restingId,
           t_restingNode = restingNode\<rparr>,
          fill_resting restingId (num (rd_quantity t)) m))"

fun normalize_trades ::
  "string \<Rightarrow> resting_map \<Rightarrow> raw_trade list \<Rightarrow> wire_trade list \<times> resting_map" where
  "normalize_trades node m [] = ([], m)"
| "normalize_trades node m (t # ts) =
     (let (w, m') = normalize_trade node m t;
          (ws, m'') = normalize_trades node m' ts
      in (w # ws, m''))"

text \<open>Registering the order itself: it rests when it was queued or partly filled; at most
  50000 orders are remembered, the oldest is dropped.\<close>

definition RESTING_MAX :: nat where
  "RESTING_MAX = 50000"

definition remember :: "string \<Rightarrow> resting \<Rightarrow> resting_map \<Rightarrow> resting_map" where
  "remember k e m =
     (if RESTING_MAX < length (omap_keys (omap_set k e m))
      then omap_del (hd (omap_keys (omap_set k e m))) (omap_set k e m)
      else omap_set k e m)"

definition track_order ::
  "bool \<Rightarrow> ostatus option \<Rightarrow> string \<Rightarrow> string \<Rightarrow> jsnum \<Rightarrow> jsnum \<Rightarrow> bool \<Rightarrow> resting_map \<Rightarrow> resting_map"
where
  "track_order isCancel status orderId node qty filled cancelOk m =
     (let m1 = (if \<not> isCancel \<and> (status = Some Queued \<or> status = Some Partial)
                then remember orderId \<lparr>rs_node = node, rs_remaining = js_sub qty filled\<rparr> m
                else m)
      in if isCancel \<and> cancelOk then omap_del orderId m1 else m1)"

definition rel :: "jsnum \<Rightarrow> jsnum field \<Rightarrow> jsnum" where
  "rel rpcIn v = js_max (Fin 0) (js_sub (num v) rpcIn)"

definition normalize_tob :: "raw_tob field \<Rightarrow> wire_tob option" where
  "normalize_tob f =
     (case f of
        Val t \<Rightarrow> Some
          \<lparr>tob_bid = (if rb_bid_price t = Undefined then None else Some (num (rb_bid_price t))),
           tob_bidQty = num (rb_bid_quantity t),
           tob_ask = (if rb_ask_price t = Undefined then None else Some (num (rb_ask_price t))),
           tob_askQty = num (rb_ask_quantity t)\<rparr>
      | _ \<Rightarrow> None)"

definition lv :: "raw_level \<Rightarrow> level" where
  "lv l = (num (rl_price l), num (rl_quantity l), num (rl_orders l))"

definition normalize_book :: "raw_book \<Rightarrow> wire_book" where
  "normalize_book b =
     \<lparr>bk_bids = map lv (nullish (rk_bids b) []), bk_asks = map lv (nullish (rk_asks b) [])\<rparr>"

text \<open>The last block of \<^verbatim>\<open>normalize\<close>: attach the book to the batch, or withhold it.\<close>

definition emit_book ::
  "raw_book field \<Rightarrow> bool \<Rightarrow> jsnum \<Rightarrow> normalizer \<Rightarrow> wire_book option \<times> normalizer" where
  "emit_book rawBook hasTrades now n =
     (case rawBook of
        Val b \<Rightarrow>
          let book = normalize_book b
          in if hasTrades \<or> js_ge (js_sub now (n_lastBookAt n)) (Fin 33)
             then (Some book, n\<lparr>n_lastBookAt := now, n_pendingBook := None\<rparr>)
             else (None, n\<lparr>n_pendingBook := Some book\<rparr>)
      | _ \<Rightarrow> (None, n))"

definition normalize :: "normalizer \<Rightarrow> raw_batch \<Rightarrow> jsnum \<Rightarrow> wire_batch \<times> normalizer" where
  "normalize n raw now =
     (let ord = nullish (r_order raw) no_order;
          tr = nullish (r_trace raw) no_trace;
          isCancel = (ro_op ord = Val ''OP_CANCEL'');
          orderId = nullish (ro_order_id ord) [];
          node = nullish (ro_node_id ord) [];
          status = STATUS (ro_status ord);
          qty = num (ro_quantity ord);
          filled = num (ro_filled_quantity ord);
          cancelOk = (ro_cancel_successful ord = Val True);
          (trades, m1) = normalize_trades node (n_resting n) (nullish (r_trades raw) []);
          m2 = track_order isCancel status orderId node qty filled cancelOk m1;
          rpcIn = num (rt_rpc_in tr);
          (book, n') = emit_book (r_book raw) (trades \<noteq> []) now (n\<lparr>n_resting := m2\<rparr>)
      in (\<lparr>b_at = num (r_timestamp raw),
           b_seq = num (rt_seq tr),
           b_op = (if isCancel then Cancel else Submit),
           b_order =
             \<lparr>o_id = orderId, o_node = node, o_side = SIDE (ro_side ord),
              o_type = TYPE_tbl (ro_type ord), o_price = num (ro_price ord), o_qty = qty,
              o_status = status, o_filled = filled, o_avg = num (ro_avg_price ord),
              o_reason = nullish (ro_rejection_reason ord) [], o_cancelOk = cancelOk\<rparr>,
           b_trace =
             \<lparr>tr_enqueue = rel rpcIn (rt_enqueue tr), tr_dequeue = rel rpcIn (rt_dequeue tr),
              tr_matchDone = rel rpcIn (rt_match_done tr),
              tr_promiseSet = rel rpcIn (rt_promise_set tr),
              tr_publish = rel rpcIn (rt_publish tr)\<rparr>,
           b_trades = trades,
           b_tob = normalize_tob (r_top_of_book raw),
           b_book = book\<rparr>, n'))"


section \<open>Observing a run\<close>

definition order_id_of :: "raw_batch \<Rightarrow> string" where
  "order_id_of raw = nullish (ro_order_id (nullish (r_order raw) no_order)) []"

definition trades_of :: "raw_batch \<Rightarrow> raw_trade list" where
  "trades_of raw = nullish (r_trades raw) []"

datatype norm_event = Message raw_batch jsnum | Flush

fun norm_step :: "normalizer \<Rightarrow> norm_event \<Rightarrow> normalizer" where
  "norm_step n (Message raw now) = snd (normalize n raw now)"
| "norm_step n Flush = snd (flushBook n)"

fun norm_batches :: "normalizer \<Rightarrow> norm_event list \<Rightarrow> wire_batch list" where
  "norm_batches n [] = []"
| "norm_batches n (Message raw now # es) =
     fst (normalize n raw now) # norm_batches (snd (normalize n raw now)) es"
| "norm_batches n (Flush # es) = norm_batches (snd (flushBook n)) es"

fun books_in :: "norm_event list \<Rightarrow> wire_book list" where
  "books_in [] = []"
| "books_in (Message raw now # es) =
     (case r_book raw of Val b \<Rightarrow> normalize_book b # books_in es | _ \<Rightarrow> books_in es)"
| "books_in (Flush # es) = books_in es"

fun books_out :: "normalizer \<Rightarrow> norm_event list \<Rightarrow> wire_book list" where
  "books_out n [] = []"
| "books_out n (Message raw now # es) =
     (case b_book (fst (normalize n raw now)) of None \<Rightarrow> [] | Some b \<Rightarrow> [b]) @
     books_out (snd (normalize n raw now)) es"
| "books_out n (Flush # es) =
     (case fst (flushBook n) of None \<Rightarrow> [] | Some b \<Rightarrow> [b]) @ books_out (snd (flushBook n)) es"

definition pending_list :: "normalizer \<Rightarrow> wire_book list" where
  "pending_list n = (case n_pendingBook n of None \<Rightarrow> [] | Some b \<Rightarrow> [b])"

section \<open>The parts of \<open>normalize\<close>\<close>

definition next_resting :: "raw_batch \<Rightarrow> resting_map \<Rightarrow> resting_map" where
  "next_resting raw m =
     (let ord = nullish (r_order raw) no_order
      in track_order (ro_op ord = Val ''OP_CANCEL'') (STATUS (ro_status ord)) (order_id_of raw)
           (nullish (ro_node_id ord) []) (num (ro_quantity ord)) (num (ro_filled_quantity ord))
           (ro_cancel_successful ord = Val True)
           (snd (normalize_trades (nullish (ro_node_id ord) []) m (trades_of raw))))"

lemma emit_book_resting [norm_simps]: "n_resting (snd (emit_book b h now n)) = n_resting n"
  by (simp add: emit_book_def Let_def split: field.split)

lemma normalize_trades_Cons [norm_simps]:
  "fst (normalize_trades agg m (t # ts)) =
     fst (normalize_trade agg m t) # fst (normalize_trades agg (snd (normalize_trade agg m t)) ts)"
  "snd (normalize_trades agg m (t # ts)) =
     snd (normalize_trades agg (snd (normalize_trade agg m t)) ts)"
  by (simp_all add: split_beta Let_def)

declare normalize_trades.simps(2) [simp del]

lemma normalize_trades_empty_iff: "fst (normalize_trades node m ts) = [] \<longleftrightarrow> ts = []"
  by (cases ts) (simp_all add: norm_simps)

lemma normalize_resting [norm_simps]:
  "n_resting (snd (normalize n raw now)) = next_resting raw (n_resting n)"
  by (simp add: normalize_def next_resting_def order_id_of_def trades_of_def Let_def split_beta
      emit_book_resting)

lemma normalize_trades_out [norm_simps]:
  "b_trades (fst (normalize n raw now)) =
     fst (normalize_trades (nullish (ro_node_id (nullish (r_order raw) no_order)) [])
       (n_resting n) (trades_of raw))"
  by (simp add: normalize_def trades_of_def Let_def split_beta)

lemma normalize_book_out [norm_simps]:
  "b_book (fst (normalize n raw now)) =
     fst (emit_book (r_book raw) (trades_of raw \<noteq> []) now n)"
  "n_pendingBook (snd (normalize n raw now)) =
     n_pendingBook (snd (emit_book (r_book raw) (trades_of raw \<noteq> []) now n))"
  by (simp_all add: normalize_def trades_of_def Let_def split_beta normalize_trades_empty_iff
      emit_book_def split: field.split)

section \<open>The table of resting orders stays well formed and bounded\<close>

definition resting_ok :: "resting_map \<Rightarrow> bool" where
  "resting_ok m = (omap_wf m \<and> length (omap_keys m) \<le> RESTING_MAX)"

abbreviation normalizer_inv :: "normalizer \<Rightarrow> bool" where
  "normalizer_inv n \<equiv> resting_ok (n_resting n)"

lemma omap_size_set_member:
  "k \<in> set (omap_keys m) \<Longrightarrow> length (omap_keys (omap_set k v m)) = length (omap_keys m)"
  by (simp add: omap.keys_put)

lemma fill_resting_ok: "resting_ok m \<Longrightarrow> resting_ok (fill_resting rid q m)"
proof -
  assume m: "resting_ok m"
  have "length (omap_keys (omap_del rid m)) \<le> length (omap_keys m)" by (rule omap.size_del)
  then have del: "resting_ok (omap_del rid m)"
    using m omap.wf_del [of m rid] by (simp add: resting_ok_def)
  have set: "resting_ok (omap_set rid e m)" if "omap_get m rid \<noteq> None" for e
    using that m omap.wf_put [of m rid e] omap.get_keys [of m rid] omap_size_set_member [of rid m e]
    by (simp add: resting_ok_def del: length_map)
  show ?thesis
    using m del set by (auto simp: fill_resting_def Let_def split: option.split)
qed

lemma normalize_trades_resting_ok: "resting_ok m \<Longrightarrow> resting_ok (snd (normalize_trades node m ts))"
  by (induction ts arbitrary: m)
     (auto simp: norm_simps normalize_trade_def Let_def intro: fill_resting_ok)

lemma remember_ok: "resting_ok m \<Longrightarrow> resting_ok (remember k e m)"
  using omap.size_put_evict [of m RESTING_MAX k e]
  by (auto simp: resting_ok_def remember_def intro: omap.wf_put omap.wf_del)

lemma next_resting_ok: "resting_ok m \<Longrightarrow> resting_ok (next_resting raw m)"
proof -
  assume m: "resting_ok m"
  have del: "resting_ok (omap_del k m)" if "resting_ok m" for k :: string and m
    using that omap.size_del [of k m] omap.wf_del [of m k] by (simp add: resting_ok_def)
  show ?thesis
    using m by (auto simp: next_resting_def track_order_def Let_def
        intro!: remember_ok del normalize_trades_resting_ok)
qed


interpretation norm: machine norm_step normalizer_inv
proof unfold_locales
  fix n e
  assume "normalizer_inv n"
  then show "normalizer_inv (norm_step n e)"
    by (cases e) (simp_all add: norm_simps next_resting_ok flushBook_def)
qed

lemma new_normalizer_inv: "normalizer_inv new_normalizer"
  by (simp add: new_normalizer_def resting_ok_def omap_wf_def)

text \<open>
  Whatever messages arrive, the table of resting orders holds every order once and never
  more than 50000 orders.
\<close>

lemma resting_table_bounded:
  "let m = n_resting (run norm_step new_normalizer es)
   in distinct (omap_keys m) \<and> length (omap_keys m) \<le> 50000"
  using norm.run_inv [OF new_normalizer_inv, of es]
  by (simp add: resting_ok_def omap_wf_def RESTING_MAX_def Let_def)

section \<open>No book snapshot is lost\<close>

lemma flushBook_pending [norm_simps]:
  "pending_list (snd (flushBook n)) = []"
  "(case fst (flushBook n) of None \<Rightarrow> [] | Some b \<Rightarrow> [b]) = pending_list n"
  by (simp_all add: flushBook_def pending_list_def)

lemma emit_book_cases:
  obtains (absent) "field_option bk = None" "emit_book bk h now n = (None, n)"
  | (sent) b where "bk = Val b" "fst (emit_book bk h now n) = Some (normalize_book b)"
      "n_pendingBook (snd (emit_book bk h now n)) = None"
  | (held) b where "bk = Val b" "fst (emit_book bk h now n) = None"
      "n_pendingBook (snd (emit_book bk h now n)) = Some (normalize_book b)"
  by (cases bk; cases "h \<or> js_ge (js_sub now (n_lastBookAt n)) (Fin 33)")
     (auto simp: emit_book_def Let_def)

lemma books_delivered:
  "subseq (books_out n es @ pending_list (run norm_step n es)) (pending_list n @ books_in es) \<and>
   last_opt (books_out n es @ pending_list (run norm_step n es)) = last_opt (pending_list n @ books_in es)"
proof (induction es arbitrary: n)
  case Nil
  then show ?case by simp
next
  case (Cons e es)
  let ?n = "norm_step n e"
  let ?rest = "books_out ?n es @ pending_list (run norm_step ?n es)"
  have IH: "subseq ?rest (pending_list ?n @ books_in es)"
    "last_opt ?rest = last_opt (pending_list ?n @ books_in es)"
    using Cons.IH [of ?n] by simp_all
  show ?case
  proof (cases e)
    case Flush
    with IH show ?thesis
      by (auto simp: norm_simps last_opt_def intro: list_emb_append_mono split: if_splits)
  next
    case (Message raw now)
    show ?thesis
    proof (cases rule: emit_book_cases [of "r_book raw" "trades_of raw \<noteq> []" now n])
      case absent
      then have "pending_list ?n = pending_list n" by (simp add: Message norm_simps pending_list_def)
      then show ?thesis using IH absent by (cases "r_book raw") (simp_all add: Message norm_simps)
    next
      case (sent b)
      then have "pending_list ?n = []" by (simp add: Message norm_simps pending_list_def)
      then have "subseq (normalize_book b # ?rest) (pending_list n @ normalize_book b # books_in es)"
        and "last_opt (normalize_book b # ?rest) = last_opt (normalize_book b # books_in es)"
        using IH by (auto intro: list_emb_append2 last_opt_Cons_cong)
      then show ?thesis using sent by (simp add: Message norm_simps)
    next
      case (held b)
      then have "pending_list ?n = [normalize_book b]"
        by (simp add: Message norm_simps pending_list_def)
      then have "subseq ?rest (pending_list n @ normalize_book b # books_in es)"
        and "last_opt ?rest = last_opt (normalize_book b # books_in es)"
        using IH by (auto intro: list_emb_append2)
      then show ?thesis using held by (simp add: Message norm_simps)
    qed
  qed
qed

text \<open>
  C18. Thinning loses no final state: whatever the messages and flushes, the books handed to
  the clients followed by the withheld one are a subsequence of the snapshots received, in
  order, and end with the latest snapshot received.
\<close>

theorem book_coalescing_keeps_latest:
  "let out = books_out new_normalizer es @ pending_list (run norm_step new_normalizer es)
   in subseq out (books_in es) \<and> last_opt out = last_opt (books_in es)"
  using books_delivered [of new_normalizer es]
  by (simp add: Let_def new_normalizer_def pending_list_def)


section \<open>Attribution of fills\<close>

text \<open>
  The quantities that fill the resting order \<open>X\<close> in a list of raw trades, and in a run; and
  the owners the wire trades name for \<open>X\<close>.
\<close>

definition resting_id :: "raw_trade \<Rightarrow> string" where
  "resting_id t = nullish (rd_resting_order_id t) []"

definition fills :: "string \<Rightarrow> raw_trade list \<Rightarrow> jsnum list" where
  "fills X ts = map (\<lambda>t. num (rd_quantity t)) (filter (\<lambda>t. resting_id t = X) ts)"

definition owners :: "string \<Rightarrow> wire_trade list \<Rightarrow> string list" where
  "owners X ws = map t_restingNode (filter (\<lambda>w. t_resting w = X) ws)"

fun messages :: "norm_event list \<Rightarrow> raw_batch list" where
  "messages [] = []"
| "messages (Message raw now # es) = raw # messages es"
| "messages (Flush # es) = messages es"

text \<open>What is left of a resting quantity after some fills: nothing once it is used up.\<close>

fun drain :: "int \<Rightarrow> int list \<Rightarrow> int option" where
  "drain r [] = Some r"
| "drain r (q # qs) = (if r \<le> q then None else drain (r - q) qs)"

fun attribute :: "string \<Rightarrow> int option \<Rightarrow> int list \<Rightarrow> string list" where
  "attribute node None qs = map (\<lambda>_. ''?'') qs"
| "attribute node (Some r) [] = []"
| "attribute node (Some r) (q # qs) =
     node # attribute node (if r \<le> q then None else Some (r - q)) qs"

definition drain_opt :: "int option \<Rightarrow> int list \<Rightarrow> int option" where
  "drain_opt r qs = (case r of None \<Rightarrow> None | Some r \<Rightarrow> drain r qs)"

definition entry :: "string \<Rightarrow> int option \<Rightarrow> resting option" where
  "entry node r = map_option (\<lambda>r. \<lparr>rs_node = node, rs_remaining = js_int r\<rparr>) r"

abbreviation small_pos :: "int \<Rightarrow> bool" where
  "small_pos q \<equiv> 0 < q \<and> q < 2 ^ 53"

lemma drain_append: "drain_opt r (qs @ qs') = drain_opt (drain_opt r qs) qs'"
proof (cases r)
  case (Some a)
  then show ?thesis by (induction qs arbitrary: a r) (auto simp: drain_opt_def)
qed (simp add: drain_opt_def)

lemma attribute_append:
  "attribute node r (qs @ qs') = attribute node r qs @ attribute node (drain_opt r qs) qs'"
proof (cases r)
  case (Some a)
  then show ?thesis by (induction qs arbitrary: a r) (auto simp: drain_opt_def)
qed (simp add: drain_opt_def)

lemma drain_sum:
  "\<forall>q \<in> set qs. 0 < q \<Longrightarrow> 0 < r \<Longrightarrow>
   drain r qs = (if sum_list qs < r then Some (r - sum_list qs) else None)"
proof (induction qs arbitrary: r)
  case (Cons q qs)
  have "0 \<le> sum_list qs" using Cons.prems(1) by (intro sum_list_nonneg) auto
  with Cons show ?case by auto
qed simp

lemma attribute_nth:
  assumes "\<forall>q \<in> set qs. 0 < q" and "0 < r" and "i < length qs"
  shows "attribute node (Some r) qs ! i = (if sum_list (take i qs) < r then node else ''?'')"
proof -
  have len: "length (attribute node s ps) = length ps" for s ps
    by (induction node s ps rule: attribute.induct) auto
  have "\<forall>q \<in> set (take i qs). 0 < q" using assms(1) by (auto dest: in_set_takeD)
  then have d: "drain_opt (Some r) (take i qs) =
      (if sum_list (take i qs) < r then Some (r - sum_list (take i qs)) else None)"
    using assms(2) by (simp add: drain_opt_def drain_sum)
  have "attribute node (Some r) qs = attribute node (Some r) (take i qs) @
      attribute node (drain_opt (Some r) (take i qs)) (qs ! i # drop (Suc i) qs)"
    using attribute_append [of node "Some r" "take i qs" "drop i qs"] assms(3)
    by (simp add: Cons_nth_drop_Suc)
  then show ?thesis using assms(3) len by (simp add: d nth_append)
qed

text \<open>One fill: only the entry of its own order changes, and on integers it is subtraction.\<close>

lemma fill_resting_get:
  "omap_get (fill_resting rid q m) X =
     (if rid = X then (case omap_get m X of None \<Rightarrow> None | Some e \<Rightarrow>
        if js_le (js_sub (rs_remaining e) q) (Fin 0) then None
        else Some (e\<lparr>rs_remaining := js_sub (rs_remaining e) q\<rparr>))
      else omap_get m X)"
  by (auto simp: fill_resting_def Let_def omap.get_put omap.get_del split: option.split)

lemma fill_entry:
  assumes "omap_get m X = entry node r" and "\<forall>a. r = Some a \<longrightarrow> small_pos a" and "small_pos q"
  shows "omap_get (fill_resting X (js_int q) m) X = entry node (drain_opt r [q])"
proof (cases r)
  case (Some a)
  then have "safe_int (a - q)" using assms by (auto simp: safe_int_def)
  then have "js_sub (js_int a) (js_int q) = js_int (a - q)" by (rule js_sub_int)
  with Some assms(1) show ?thesis
    by (auto simp: fill_resting_get entry_def drain_opt_def js_le_def simp flip: of_int_diff)
qed (use assms in \<open>simp add: fill_resting_get entry_def drain_opt_def\<close>)

lemma drain_small:
  assumes "\<forall>a. r = Some a \<longrightarrow> small_pos a" and "\<forall>q \<in> set qs. small_pos q"
  shows "\<forall>a. drain_opt r qs = Some a \<longrightarrow> small_pos a"
proof (cases r)
  case (Some a)
  have "0 \<le> sum_list qs" using assms(2) by (intro sum_list_nonneg) auto
  with Some assms show ?thesis by (auto simp: drain_opt_def drain_sum split: if_splits)
qed (simp add: drain_opt_def)

lemma trades_attribution:
  assumes "omap_get m X = entry node r" and "\<forall>a. r = Some a \<longrightarrow> small_pos a"
    and "fills X ts = map js_int qs" and "\<forall>q \<in> set qs. small_pos q"
  shows "omap_get (snd (normalize_trades agg m ts)) X = entry node (drain_opt r qs) \<and>
    owners X (fst (normalize_trades agg m ts)) = attribute node r qs"
  using assms
proof (induction ts arbitrary: m r qs)
  case Nil
  then show ?case by (cases r) (auto simp: fills_def owners_def drain_opt_def)
next
  case (Cons t ts)
  let ?m = "fill_resting (resting_id t) (num (rd_quantity t)) m"
  have split: "snd (normalize_trade agg m t) = ?m"
    "t_resting (fst (normalize_trade agg m t)) = resting_id t"
    by (simp_all add: normalize_trade_def resting_id_def Let_def)
  show ?case
  proof (cases "resting_id t = X")
    case False
    then have "omap_get ?m X = entry node r" using Cons.prems(1) by (simp add: fill_resting_get)
    moreover have "fills X ts = map js_int qs" using Cons.prems(3) False by (simp add: fills_def)
    ultimately show ?thesis
      using Cons.IH [of ?m r qs] Cons.prems False by (simp add: split owners_def normalize_trades_Cons)
  next
    case True
    then obtain q qs' where qs: "qs = q # qs'" and q: "num (rd_quantity t) = js_int q"
      and rest: "fills X ts = map js_int qs'"
      using Cons.prems(3) by (cases qs) (auto simp: fills_def)
    have m: "omap_get ?m X = entry node (drain_opt r [q])"
      using fill_entry [OF Cons.prems(1,2)] Cons.prems(4) True qs q by simp
    have small: "\<forall>a. drain_opt r [q] = Some a \<longrightarrow> small_pos a"
      using drain_small [OF Cons.prems(2), of "[q]"] Cons.prems(4) qs by simp
    have "t_restingNode (fst (normalize_trade agg m t)) # owners X (fst (normalize_trades agg ?m ts))
        = attribute node r [q] @ attribute node (drain_opt r [q]) qs'"
      using Cons.IH [OF m small rest] Cons.prems(1,4) True qs
      by (cases r) (auto simp: normalize_trade_def resting_id_def entry_def Let_def)
    then show ?thesis
      using Cons.IH [OF m small rest] Cons.prems(4) True qs attribute_append [of node r "[q]" qs']
        drain_append [of r "[q]" qs']
      by (simp add: split owners_def normalize_trades_Cons)
  qed
qed


text \<open>The same across messages: as long as nothing is evicted and no message is about \<open>X\<close>
  itself, only its fills change its entry.\<close>

lemma remember_get:
  assumes "length m < RESTING_MAX" and "k \<noteq> X"
  shows "omap_get (remember k e m) X = omap_get m X"
proof -
  have "length (omap_keys (omap_set k e m)) \<le> RESTING_MAX"
    using omap.size_put [of k e m] assms(1) by simp
  then show ?thesis using assms(2) by (simp add: remember_def omap.get_put)
qed

lemma fill_resting_size: "length (fill_resting rid q m) \<le> length m"
proof -
  have "length (omap_set rid e m) = length m" if "omap_get m rid \<noteq> None" for e
    using that omap.get_keys [of m rid] omap_size_set_member [of rid m e] by simp
  then show ?thesis
    by (auto simp: fill_resting_def Let_def length_delete_le split: option.split)
qed

lemma normalize_trades_size: "length (snd (normalize_trades agg m ts)) \<le> length m"
  by (induction ts arbitrary: m)
     (auto simp: norm_simps normalize_trade_def Let_def intro: order_trans fill_resting_size)

lemma remember_size: "length (remember k e m) \<le> Suc (length m)"
  using omap.size_put [of k e m] length_delete_le [of "hd (omap_keys (omap_set k e m))" "omap_set k e m"]
  by (simp add: remember_def)

lemma next_resting_size: "length (next_resting raw m) \<le> Suc (length m)"
proof -
  have "length (omap_del k m') \<le> Suc (length m)" if "length m' \<le> Suc (length m)" for k :: string and m' :: resting_map
    using that length_delete_le [of k m'] by simp
  moreover have "length (remember k e m') \<le> Suc (length m)" if "length m' \<le> length m" for k e m'
    using that remember_size [of k e m'] by simp
  moreover have "length (snd (normalize_trades agg m ts)) \<le> Suc (length m)" for agg ts
    using normalize_trades_size [of agg m ts] by simp
  ultimately show ?thesis
    by (auto simp: next_resting_def track_order_def Let_def normalize_trades_size)
qed

lemma next_resting_get:
  assumes "order_id_of raw \<noteq> X" and "length m < RESTING_MAX"
  shows "omap_get (next_resting raw m) X =
    omap_get (snd (normalize_trades (nullish (ro_node_id (nullish (r_order raw) no_order)) []) m
      (trades_of raw))) X"
proof -
  have "length (snd (normalize_trades agg m (trades_of raw))) < RESTING_MAX" for agg
    using normalize_trades_size assms(2) by (rule le_less_trans)
  then show ?thesis
    using assms(1) by (simp add: next_resting_def track_order_def Let_def remember_get omap.get_del)
qed

lemma run_attribution:
  assumes "omap_get (n_resting n) X = entry node r" and "\<forall>a. r = Some a \<longrightarrow> small_pos a"
    and "\<forall>raw \<in> set (messages es). order_id_of raw \<noteq> X"
    and "length (n_resting n) + length (messages es) \<le> RESTING_MAX"
    and "fills X (concat (map trades_of (messages es))) = map js_int qs"
    and "\<forall>q \<in> set qs. small_pos q"
  shows "omap_get (n_resting (run norm_step n es)) X = entry node (drain_opt r qs) \<and>
    owners X (concat (map b_trades (norm_batches n es))) = attribute node r qs"
  using assms
proof (induction es arbitrary: n r qs)
  case Nil
  then show ?case by (cases r) (auto simp: fills_def owners_def drain_opt_def)
next
  case (Cons e es)
  show ?case
  proof (cases e)
    case Flush
    with Cons show ?thesis by (simp add: flushBook_def)
  next
    case (Message raw now)
    let ?n = "snd (normalize n raw now)"
    let ?agg = "nullish (ro_node_id (nullish (r_order raw) no_order)) []"
    from Cons.prems(5) Message obtain ps qs'
      where qs: "qs = ps @ qs'" "fills X (trades_of raw) = map js_int ps"
        "fills X (concat (map trades_of (messages es))) = map js_int qs'"
      by (auto simp: fills_def append_eq_map_conv)
    have here: "omap_get (snd (normalize_trades ?agg (n_resting n) (trades_of raw))) X =
        entry node (drain_opt r ps)"
      "owners X (fst (normalize_trades ?agg (n_resting n) (trades_of raw))) = attribute node r ps"
      using trades_attribution [OF Cons.prems(1,2) qs(2)] Cons.prems(6) qs(1) by simp_all
    have "length (n_resting n) < RESTING_MAX" using Cons.prems(4) Message by simp
    then have m: "omap_get (n_resting ?n) X = entry node (drain_opt r ps)"
      using here(1) Cons.prems(3) Message by (simp add: normalize_resting next_resting_get)
    have small: "\<forall>a. drain_opt r ps = Some a \<longrightarrow> small_pos a"
      by (rule drain_small [OF Cons.prems(2)]) (use Cons.prems(6) qs(1) in auto)
    have size: "length (n_resting ?n) + length (messages es) \<le> RESTING_MAX"
      using next_resting_size [of raw "n_resting n"] Cons.prems(4) Message by (simp add: norm_simps)
    have "omap_get (n_resting (run norm_step ?n es)) X = entry node (drain_opt (drain_opt r ps) qs') \<and>
        owners X (concat (map b_trades (norm_batches ?n es))) = attribute node (drain_opt r ps) qs'"
      using Cons.IH [OF m small _ size qs(3)] Cons.prems(3,6) Message qs(1) by simp
    then show ?thesis
      using here(2) Message qs(1)
      by (simp add: norm_simps owners_def drain_append attribute_append)
  qed
qed

text \<open>
  C13. Fills are attributed to the order's owner exactly while something is left. Take an order
  \<open>X\<close> remembered for \<open>node\<close> with \<open>r\<close> units left, any later run that is not about \<open>X\<close> itself
  and is too short to evict it, and let \<open>qs\<close> be the quantities that fill \<open>X\<close>, in order. Then
  the \<open>i\<close>-th of those trades names \<open>node\<close> if the fills before it leave something and \<open>?\<close>
  otherwise, and afterwards the table holds the rest, or nothing when it is used up.
\<close>

theorem fills_attributed_to_owner:
  assumes "omap_get (n_resting n) X = Some \<lparr>rs_node = node, rs_remaining = js_int r\<rparr>"
    and "0 < r" and "r < 2 ^ 53"
    and "\<forall>raw \<in> set (messages es). order_id_of raw \<noteq> X"
    and "length (n_resting n) + length (messages es) \<le> 50000"
    and "fills X (concat (map trades_of (messages es))) = map js_int qs"
    and "\<forall>q \<in> set qs. 0 < q \<and> q < 2 ^ 53"
  shows "owners X (concat (map b_trades (norm_batches n es))) =
      map (\<lambda>i. if sum_list (take i qs) < r then node else ''?'') [0..<length qs] \<and>
    omap_get (n_resting (run norm_step n es)) X =
      (if sum_list qs < r
       then Some \<lparr>rs_node = node, rs_remaining = js_int (r - sum_list qs)\<rparr> else None)"
proof -
  have e: "omap_get (n_resting n) X = entry node (Some r)" using assms(1) by (simp add: entry_def)
  have run: "omap_get (n_resting (run norm_step n es)) X = entry node (drain_opt (Some r) qs)"
    and own: "owners X (concat (map b_trades (norm_batches n es))) = attribute node (Some r) qs"
    using run_attribution [OF e _ assms(4) _ assms(6,7)] assms(2,3,5) by (simp_all add: RESTING_MAX_def)
  have pos: "\<forall>q \<in> set qs. 0 < q" using assms(7) by simp
  have len: "length (attribute node s ps) = length ps" for s ps
    by (induction node s ps rule: attribute.induct) auto
  have "attribute node (Some r) qs =
      map (\<lambda>i. if sum_list (take i qs) < r then node else ''?'') [0..<length qs]"
    using attribute_nth [OF pos assms(2)] by (intro nth_equalityI) (simp_all add: len)
  then show ?thesis
    using run own drain_sum [OF pos assms(2)] by (simp add: drain_opt_def entry_def)
qed


text \<open>An example: order \<open>ORD-1\<close> of \<open>mm-1\<close> with 10 units, filled by 4, 6 and 1.\<close>

definition ex_fill :: "jsnum \<Rightarrow> string \<Rightarrow> raw_batch" where
  "ex_fill q X = \<lparr>r_timestamp = Val (Fin 1000), r_order = Val (no_order
       \<lparr>ro_op := Val ''OP_SUBMIT'', ro_order_id := Val ''ORD-9'', ro_node_id := Val ''mom-1''\<rparr>),
     r_trace = Undefined,
     r_trades = Val [\<lparr>rd_trade_id = Val ''TRD-1'', rd_price = Val (Fin 101), rd_quantity = Val q,
       rd_aggressor_side = Val ''BID'', rd_aggressor_order_id = Val ''ORD-9'',
       rd_resting_order_id = Val X\<rparr>],
     r_top_of_book = Undefined, r_book = Undefined\<rparr>"

theorem fills_attributed_to_owner_witness:
  "owners ''ORD-1'' (concat (map b_trades (norm_batches
      (new_normalizer\<lparr>n_resting := [(''ORD-1'', \<lparr>rs_node = ''mm-1'', rs_remaining = js_int 10\<rparr>)]\<rparr>)
      [Message (ex_fill (js_int 4) ''ORD-1'') (Fin 0), Flush,
       Message (ex_fill (js_int 6) ''ORD-1'') (Fin 1), Message (ex_fill (js_int 1) ''ORD-1'') (Fin 2)])))
   = [''mm-1'', ''mm-1'', ''?'']"
proof -
  let ?es = "[Message (ex_fill (js_int 4) ''ORD-1'') (Fin 0), Flush,
       Message (ex_fill (js_int 6) ''ORD-1'') (Fin 1), Message (ex_fill (js_int 1) ''ORD-1'') (Fin 2)]"
  have fills: "fills ''ORD-1'' (concat (map trades_of (messages ?es))) = map js_int [4, 6, 1]"
    by (simp add: fills_def trades_of_def ex_fill_def resting_id_def num_def)
  have idx: "[0..<length [4, 6, 1 :: int]] = [0, 1, 2]" by (simp add: upt_rec)
  show ?thesis
    using fills_attributed_to_owner [where r = "10" and node = "''mm-1''"
        and n = "new_normalizer\<lparr>n_resting := [(''ORD-1'', \<lparr>rs_node = ''mm-1'', rs_remaining = js_int 10\<rparr>)]\<rparr>",
        OF _ _ _ _ _ fills]
    by (simp add: order_id_of_def ex_fill_def no_order_def idx)
qed

end
