(* ===== verification/Frames.thy ===== *)
theory Frames
  imports Wire
begin

text \<open>
  The frames the browser keeps (\<^verbatim>\<open>web/src/feed.ts\<close>, the exported types): a wire batch or a book
  flushed on its own, both stamped with the engine's time; and the roster of bots.
\<close>

datatype frame = FBatch wire_batch | FBook jsnum wire_book

fun fr_at :: "frame \<Rightarrow> jsnum" where
  "fr_at (FBatch b) = b_at b"
| "fr_at (FBook a bk) = a"

fun isBatch :: "frame \<Rightarrow> bool" where
  "isBatch (FBatch b) = True"
| "isBatch (FBook a bk) = False"

record roster_entry =
  re_id :: string
  re_strategy :: string

text \<open>The batches among some frames, in order.\<close>

fun batches :: "frame list \<Rightarrow> wire_batch list" where
  "batches [] = []"
| "batches (FBatch b # fs) = b # batches fs"
| "batches (FBook a bk # fs) = batches fs"

lemma batches_append [simp]: "batches (fs @ gs) = batches fs @ batches gs"
  by (induction fs rule: batches.induct) auto

text \<open>The first \<open>idx + 1\<close> frames, the ones at or before the playback position.\<close>

definition upto_idx :: "int \<Rightarrow> 'a list \<Rightarrow> 'a list" where
  "upto_idx idx fs = take (nat (idx + 1)) fs"

lemma upto_idx_min: "upto_idx (min idx (int (length fs) - 1)) fs = upto_idx idx fs"
  by (auto simp: upto_idx_def min_def)

end
