(* ===== verification/Feed.thy ===== *)
theory Feed
  imports Frames "HOL-Library.Word"
begin

text \<open>
  The class \<^verbatim>\<open>Feed\<close> of \<^verbatim>\<open>web/src/feed.ts\<close>: the browser's frame buffer, its playback clock,
  the connection to the gateway with its fallback to a recorded session, and the requests that
  wait for an answer.

  The record \<open>feed\<close> has the fields of the class and, below them, what the browser keeps for it:
  the armed timers, the sockets in state \<^verbatim>\<open>OPEN\<close>, and the log of outputs (store notifications,
  sockets opened, messages sent, fetches started, promises settled). Every method and every
  callback is one function; a callback that an \<^verbatim>\<open>await\<close> cuts in two is two functions. The
  argument \<open>pn\<close> gives the successive readings of \<^verbatim>\<open>performance.now()\<close> during one call.
  \<open>None\<close> stands for an exception that leaves the method.
\<close>

section \<open>Data\<close>

datatype feed_source = Connecting | Live | Replay
datatype clock_mode = Follow | Play | Pause

record order_result =
  or_ok :: bool
  or_orderId :: "string option"
  or_status :: "string option"
  or_filled :: "jsnum option"
  or_avg :: "jsnum option"
  or_reason :: "string option"

text \<open>What the client sends, and what it receives after \<^verbatim>\<open>JSON.parse\<close>; a recording's lines
  are messages too. The gateway sends JSON objects only, so a text that is not JSON and the
  value \<^verbatim>\<open>null\<close>, on both of which the callback throws before it changes anything, are not among
  the messages; \<open>SOther\<close> is an object of another kind.\<close>

datatype client_msg =
  MOrder side otype jsnum jsnum nat
| MCancel string nat
| MRecord bool

datatype server_msg =
  SHello "roster_entry list"
| SStatus "string option" string
| SHistory "wire_batch list"
| SBatch wire_batch
| SBook jsnum wire_book
| SResult nat order_result
| SOther

datatype timer = TFallback | TReconnect | TRequest nat

datatype effect =
  Notify nat
| OpenSocket nat
| CloseSocket nat
| SendMsg client_msg
| FetchRecording
| Settle nat order_result
| SettleNow order_result

record feed =
  f_frames :: "frame list"
  f_roster :: "roster_entry list"
  f_source :: feed_source
  f_exchangeUp :: bool
  f_recording :: "string option"
  f_clockMode :: clock_mode
  f_speed :: jsnum
  f_vt :: jsnum
  f_version :: nat
  f_cursor :: nat
  f_forced :: "frame list"
  f_anchorWall :: jsnum
  f_anchorVt :: jsnum
  f_listeners :: "nat list"
  f_dirty :: bool
  f_lastNotify :: jsnum
  f_ws :: "nat option"
  f_reqId :: nat
  f_pending :: "(nat, nat) omap"
  f_retry :: "nat option"
  f_timers :: "(nat, timer) omap"
  f_nextTimer :: nat
  f_openSocks :: "nat list"
  f_nextSock :: nat
  f_out :: "effect list"

definition new_feed :: feed where
  "new_feed = \<lparr>f_frames = [], f_roster = [], f_source = Connecting, f_exchangeUp = False,
     f_recording = None, f_clockMode = Follow, f_speed = Fin 1, f_vt = Fin 0, f_version = 0,
     f_cursor = 0, f_forced = [], f_anchorWall = Fin 0, f_anchorVt = Fin 0, f_listeners = [],
     f_dirty = False, f_lastNotify = Fin 0, f_ws = None, f_reqId = 0, f_pending = [],
     f_retry = None, f_timers = [], f_nextTimer = 1, f_openSocks = [], f_nextSock = 0, f_out = []\<rparr>"

definition MAX_FRAMES :: nat where
  "MAX_FRAMES = 20000"

definition TRIM :: nat where
  "TRIM = 2000"

section \<open>Store subscription\<close>

definition feed_subscribe :: "nat \<Rightarrow> feed \<Rightarrow> feed" where
  "feed_subscribe l f = f\<lparr>f_listeners := (if l \<in> set (f_listeners f) then f_listeners f else f_listeners f @ [l])\<rparr>"

definition feed_unsubscribe :: "nat \<Rightarrow> feed \<Rightarrow> feed" where
  "feed_unsubscribe l f = f\<lparr>f_listeners := removeAll l (f_listeners f)\<rparr>"

definition bump :: "jsnum \<Rightarrow> feed \<Rightarrow> feed" where
  "bump p f = f\<lparr>f_version := Suc (f_version f), f_lastNotify := p, f_dirty := False,
     f_out := f_out f @ map Notify (f_listeners f)\<rparr>"

section \<open>The frame buffer\<close>

definition firstAt :: "feed \<Rightarrow> jsnum" where
  "firstAt f = (if f_frames f = [] then Fin 0 else fr_at (hd (f_frames f)))"

definition lastAt :: "feed \<Rightarrow> jsnum" where
  "lastAt f = (if f_frames f = [] then Fin 0 else fr_at (last (f_frames f)))"

text \<open>The operator \<^verbatim>\<open>>> 1\<close> works on 32-bit integers: the sum wraps before it is halved.\<close>

definition shr1 :: "int \<Rightarrow> int" where
  "shr1 n = sint (word_of_int n :: 32 word) div 2"

partial_function (option) bisect :: "frame list \<Rightarrow> jsnum \<Rightarrow> int \<Rightarrow> int \<Rightarrow> int \<Rightarrow> int option" where
  "bisect fs vt lo hi ans =
     (if lo \<le> hi then
        (let mid = shr1 (lo + hi)
         in if mid < 0 \<or> int (length fs) \<le> mid then None
            else if js_le (fr_at (fs ! nat mid)) vt then bisect fs vt (mid + 1) hi mid
            else bisect fs vt lo (mid - 1) ans)
      else Some ans)"

definition indexAt :: "frame list \<Rightarrow> jsnum \<Rightarrow> int option" where
  "indexAt fs vt = bisect fs vt 0 (int (length fs) - 1) (- 1)"

definition atLive :: "feed \<Rightarrow> bool" where
  "atLive f \<longleftrightarrow> f_source f = Live \<and> f_clockMode f = Follow"

definition push :: "frame list \<Rightarrow> feed \<Rightarrow> feed" where
  "push gs f =
     (let fs = f_frames f @ gs
      in if MAX_FRAMES + TRIM < length fs
         then f\<lparr>f_frames := drop TRIM fs, f_cursor := f_cursor f - TRIM, f_dirty := True\<rparr>
         else f\<lparr>f_frames := fs, f_dirty := True\<rparr>)"

definition feed_reset :: "feed_source \<Rightarrow> feed \<Rightarrow> feed" where
  "feed_reset src f = f\<lparr>f_frames := [], f_cursor := 0, f_source := src, f_dirty := True\<rparr>"

section \<open>The playback clock\<close>

definition setFollow :: "feed \<Rightarrow> feed" where
  "setFollow f = f\<lparr>f_clockMode := Follow, f_speed := Fin 1, f_vt := lastAt f,
     f_cursor := length (f_frames f), f_dirty := True\<rparr>"

definition play_vt :: "feed \<Rightarrow> jsnum \<Rightarrow> jsnum" where
  "play_vt f now = js_add (f_anchorVt f) (js_mul (js_sub now (f_anchorWall f)) (f_speed f))"

definition advance :: "jsnum \<Rightarrow> feed \<Rightarrow> feed" where
  "advance now f =
     (case f_clockMode f of
        Follow \<Rightarrow>
          if \<not> js_eq (lastAt f) (f_vt f) then f\<lparr>f_vt := lastAt f, f_dirty := True\<rparr> else f
      | Play \<Rightarrow>
          let f1 = f\<lparr>f_vt := play_vt f now\<rparr>;
              f2 = (if f_source f1 = Replay \<and> f_frames f1 \<noteq> [] \<and>
                       js_gt (f_vt f1) (js_add (lastAt f1) (Fin 1500))
                    then f1\<lparr>f_vt := firstAt f1, f_cursor := 0, f_anchorWall := now,
                           f_anchorVt := firstAt f1\<rparr>
                    else if f_source f1 = Live \<and> js_ge (f_vt f1) (lastAt f1) then setFollow f1
                    else f1)
          in f2\<lparr>f_dirty := True\<rparr>
      | Pause \<Rightarrow> f)"

definition tick :: "(nat \<Rightarrow> jsnum) \<Rightarrow> jsnum \<Rightarrow> feed \<Rightarrow> feed" where
  "tick pn now f =
     (let f1 = advance now f
      in if f_dirty f1 \<and> js_gt (js_sub now (f_lastNotify f1)) (Fin 90) then bump (pn 0) f1 else f1)"

text \<open>The loop of \<^verbatim>\<open>takeNew\<close> recurses on the frames from the cursor on.\<close>

definition reached :: "feed \<Rightarrow> frame \<Rightarrow> bool" where
  "reached f x \<longleftrightarrow> js_le (fr_at x) (if f_clockMode f = Follow then PosInf else f_vt f)"

definition takeNew :: "feed \<Rightarrow> frame list \<times> feed" where
  "takeNew f =
     (if f_clockMode f = Pause then (f_forced f, f\<lparr>f_forced := []\<rparr>)
      else let new = takeWhile (reached f) (drop (f_cursor f) (f_frames f))
           in (f_forced f @ new, f\<lparr>f_forced := [], f_cursor := f_cursor f + length new\<rparr>))"

definition set_anchor :: "jsnum \<Rightarrow> feed \<Rightarrow> feed" where
  "set_anchor p f = f\<lparr>f_anchorWall := p, f_anchorVt := f_vt f\<rparr>"

definition seek :: "(nat \<Rightarrow> jsnum) \<Rightarrow> jsnum \<Rightarrow> feed \<Rightarrow> feed option" where
  "seek pn v f =
     (let f1 = f\<lparr>f_vt := js_min (js_max v (firstAt f)) (lastAt f)\<rparr>
      in case indexAt (f_frames f1) (f_vt f1) of
           None \<Rightarrow> None
         | Some i \<Rightarrow>
             let f2 = f1\<lparr>f_cursor := nat (i + 1)\<rparr>;
                 f3 = (if f_clockMode f2 = Follow then f2\<lparr>f_clockMode := Pause\<rparr> else f2);
                 f4 = (if f_clockMode f3 = Play then set_anchor (pn 0) f3 else f3)
             in Some (bump (pn 1) f4))"

definition goLive :: "(nat \<Rightarrow> jsnum) \<Rightarrow> feed \<Rightarrow> feed option" where
  "goLive pn f =
     (if f_source f = Live then Some (bump (pn 0) (setFollow f))
      else let f1 = f\<lparr>f_clockMode := Play, f_speed := Fin 1\<rparr>
           in case seek pn (firstAt f1) f1 of
                None \<Rightarrow> None
              | Some f2 \<Rightarrow> Some (bump (pn 3) (set_anchor (pn 2) f2)))"

definition togglePlay :: "(nat \<Rightarrow> jsnum) \<Rightarrow> feed \<Rightarrow> feed" where
  "togglePlay pn f =
     bump (pn 1)
       (if f_clockMode f = Pause then
          (if f_source f = Live \<and> js_ge (f_vt f) (lastAt f) then setFollow f
           else set_anchor (pn 0) (f\<lparr>f_clockMode := Play\<rparr>))
        else f\<lparr>f_clockMode := Pause\<rparr>)"

definition setSpeed :: "(nat \<Rightarrow> jsnum) \<Rightarrow> jsnum \<Rightarrow> feed \<Rightarrow> feed" where
  "setSpeed pn s f =
     (let f1 = f\<lparr>f_speed := s\<rparr>
      in if f_clockMode f1 = Follow \<and> js_eq s (Fin 1) then f1
         else let f2 = (if f_clockMode f1 = Follow then f1\<lparr>f_clockMode := Play\<rparr> else f1);
                  f3 = (if f_clockMode f2 = Play then set_anchor (pn 0) f2 else f2)
              in bump (pn 1) f3)"

text \<open>\<^verbatim>\<open>step\<close>: books are passed over until the next batch, which is forced out.\<close>

fun step_loop :: "frame list \<Rightarrow> feed \<Rightarrow> wire_batch option \<times> feed" where
  "step_loop [] f = (None, f)"
| "step_loop (FBatch b # gs) f =
     (Some b, f\<lparr>f_cursor := Suc (f_cursor f), f_vt := b_at b, f_forced := f_forced f @ [FBatch b]\<rparr>)"
| "step_loop (FBook a bk # gs) f = step_loop gs (f\<lparr>f_cursor := Suc (f_cursor f), f_vt := a\<rparr>)"

definition feed_step :: "(nat \<Rightarrow> jsnum) \<Rightarrow> feed \<Rightarrow> wire_batch option \<times> feed" where
  "feed_step pn f =
     (let (r, f1) = step_loop (drop (f_cursor f) (f_frames f)) (f\<lparr>f_clockMode := Pause\<rparr>)
      in (r, bump (pn 0) f1))"

section \<open>Connection and fallback\<close>

text \<open>\<^verbatim>\<open>window.setTimeout\<close> and \<^verbatim>\<open>window.clearTimeout\<close>.\<close>

definition set_timer :: "timer \<Rightarrow> feed \<Rightarrow> nat \<times> feed" where
  "set_timer t f =
     (f_nextTimer f, f\<lparr>f_timers := omap_set (f_nextTimer f) t (f_timers f), f_nextTimer := Suc (f_nextTimer f)\<rparr>)"

definition clear_timer :: "nat option \<Rightarrow> feed \<Rightarrow> feed" where
  "clear_timer i f = (case i of None \<Rightarrow> f | Some i \<Rightarrow> f\<lparr>f_timers := omap_del i (f_timers f)\<rparr>)"

definition emit :: "effect \<Rightarrow> feed \<Rightarrow> feed" where
  "emit e f = f\<lparr>f_out := f_out f @ [e]\<rparr>"

definition scheduleRetry :: "feed \<Rightarrow> feed" where
  "scheduleRetry f = (let (i, f1) = set_timer TReconnect (clear_timer (f_retry f) f) in f1\<lparr>f_retry := Some i\<rparr>)"

text \<open>\<open>ok\<close>: whether the constructor \<^verbatim>\<open>new WebSocket\<close> returns or throws.\<close>

definition connect :: "bool \<Rightarrow> feed \<Rightarrow> feed" where
  "connect ok f =
     (if ok then emit (OpenSocket (f_nextSock f)) (f\<lparr>f_ws := Some (f_nextSock f), f_nextSock := Suc (f_nextSock f)\<rparr>)
      else scheduleRetry f)"

definition useReplay :: "feed \<Rightarrow> feed" where
  "useReplay f = (if f_source f = Live then f else emit FetchRecording f)"

fun recording_frames :: "server_msg list \<Rightarrow> frame list" where
  "recording_frames [] = []"
| "recording_frames (SBatch b # ms) = FBatch b # recording_frames ms"
| "recording_frames (SBook a bk # ms) = FBook a bk # recording_frames ms"
| "recording_frames (_ # ms) = recording_frames ms"

fun recording_roster :: "roster_entry list \<Rightarrow> server_msg list \<Rightarrow> roster_entry list" where
  "recording_roster r [] = r"
| "recording_roster r (SHello r' # ms) = recording_roster r' ms"
| "recording_roster r (_ # ms) = recording_roster r ms"

text \<open>
  The rest of \<^verbatim>\<open>useReplay\<close> once the fetch is over. \<open>None\<close>: the fetch was rejected, the
  response was not ok, or a line did not parse, and the \<^verbatim>\<open>catch\<close> clause runs.
\<close>

definition useReplay_done :: "(nat \<Rightarrow> jsnum) \<Rightarrow> server_msg list option \<Rightarrow> feed \<Rightarrow> feed" where
  "useReplay_done pn res f =
     (case res of
        None \<Rightarrow> bump (pn 1) (f\<lparr>f_source := Replay\<rparr>)
      | Some ms \<Rightarrow>
          let f1 = f\<lparr>f_roster := recording_roster (f_roster f) ms\<rparr>
          in if f_source f1 = Live then f1
             else let f2 = push (recording_frames ms) (feed_reset Replay f1);
                      f3 = f2\<lparr>f_clockMode := Play, f_speed := Fin 1, f_vt := firstAt f2\<rparr>
                  in bump (pn 1) (set_anchor (pn 0) f3))"

definition feed_start :: "bool \<Rightarrow> bool \<Rightarrow> feed \<Rightarrow> feed" where
  "feed_start reachable ok f =
     (if \<not> reachable then useReplay f else snd (set_timer TFallback (connect ok f)))"

definition ws_close :: "(nat \<Rightarrow> jsnum) \<Rightarrow> feed \<Rightarrow> feed" where
  "ws_close pn f =
     (let f1 = f\<lparr>f_ws := None, f_exchangeUp := False\<rparr>;
          f2 = (if f_source f1 = Live then
                  let g = f1\<lparr>f_source := Replay\<rparr>
                  in if f_frames g = [] then useReplay g
                     else if f_clockMode g = Follow then g\<lparr>f_clockMode := Pause\<rparr> else g
                else f1)
      in scheduleRetry (bump (pn 0) f2))"

definition ws_error :: "nat \<Rightarrow> feed \<Rightarrow> feed" where
  "ws_error i f = emit (CloseSocket i) (f\<lparr>f_openSocks := removeAll i (f_openSocks f)\<rparr>)"

definition switchToLive :: "(nat \<Rightarrow> jsnum) \<Rightarrow> feed \<Rightarrow> feed" where
  "switchToLive pn f =
     bump (pn 0) ((feed_reset Live f)\<lparr>f_clockMode := Follow, f_speed := Fin 1, f_vt := Fin 0\<rparr>)"

definition settle :: "nat \<Rightarrow> order_result \<Rightarrow> feed \<Rightarrow> feed" where
  "settle r res f =
     (case omap_get (f_pending f) r of
        None \<Rightarrow> f
      | Some t \<Rightarrow> emit (Settle r res) (clear_timer (Some t) (f\<lparr>f_pending := omap_del r (f_pending f)\<rparr>)))"

definition onMessage :: "(nat \<Rightarrow> jsnum) \<Rightarrow> server_msg \<Rightarrow> feed \<Rightarrow> feed" where
  "onMessage pn m f =
     (case m of
        SHello r \<Rightarrow> f\<lparr>f_roster := r\<rparr>
      | SStatus rec ex \<Rightarrow>
          let f1 = f\<lparr>f_recording := rec, f_exchangeUp := (ex = ''connected'')\<rparr>
          in if f_exchangeUp f1 \<and> f_source f1 \<noteq> Live then switchToLive pn f1
             else if \<not> f_exchangeUp f1 \<and> f_source f1 = Live \<and> f_frames f1 = [] then useReplay f1
             else f1
      | SHistory bs \<Rightarrow>
          if f_source f = Live \<and> f_frames f = [] then setFollow (push (map FBatch bs) f) else f
      | SBatch b \<Rightarrow> if f_source f = Live then push [FBatch b] f else f
      | SBook a bk \<Rightarrow> if f_source f = Live then push [FBook a bk] f else f
      | SResult r res \<Rightarrow> settle r res f
      | SOther \<Rightarrow> f)\<lparr>f_dirty := True\<rparr>"

section \<open>Requests\<close>

definition canTrade :: "feed \<Rightarrow> bool" where
  "canTrade f \<longleftrightarrow> f_source f = Live \<and> f_exchangeUp f \<and>
     (case f_ws f of None \<Rightarrow> False | Some i \<Rightarrow> i \<in> set (f_openSocks f))"

definition failed :: "string \<Rightarrow> order_result" where
  "failed why = \<lparr>or_ok = False, or_orderId = None, or_status = None, or_filled = None,
     or_avg = None, or_reason = Some why\<rparr>"

definition MSG_NOT_RUNNING :: string where
  "MSG_NOT_RUNNING = ''The exchange isn't running, so there's nothing to trade against.''"

definition MSG_NO_ANSWER :: string where
  "MSG_NO_ANSWER = ''No answer from the exchange.''"

definition request :: "(nat \<Rightarrow> client_msg) \<Rightarrow> feed \<Rightarrow> feed" where
  "request msg f =
     (if \<not> canTrade f then emit (SettleNow (failed MSG_NOT_RUNNING)) f
      else let r = Suc (f_reqId f);
               (t, f1) = set_timer (TRequest r) (f\<lparr>f_reqId := r\<rparr>)
           in emit (SendMsg (msg r)) (f1\<lparr>f_pending := omap_set r t (f_pending f1)\<rparr>))"

definition placeOrder :: "side \<Rightarrow> otype \<Rightarrow> jsnum \<Rightarrow> jsnum \<Rightarrow> feed \<Rightarrow> feed" where
  "placeOrder sd ty price qty = request (MOrder sd ty price qty)"

definition cancelOrder :: "string \<Rightarrow> feed \<Rightarrow> feed" where
  "cancelOrder oid = request (MCancel oid)"

definition setRecording :: "bool \<Rightarrow> feed \<Rightarrow> feed" where
  "setRecording on f = (if canTrade f then emit (SendMsg (MRecord on)) f else f)"

text \<open>A timer fires: it is no longer armed, and its callback runs.\<close>

definition fire_timer :: "bool \<Rightarrow> nat \<Rightarrow> feed \<Rightarrow> feed" where
  "fire_timer ok i f =
     (case omap_get (f_timers f) i of
        None \<Rightarrow> f
      | Some t \<Rightarrow>
          let f1 = f\<lparr>f_timers := omap_del i (f_timers f)\<rparr>
          in case t of
               TFallback \<Rightarrow> if f_source f1 = Connecting then useReplay f1 else f1
             | TReconnect \<Rightarrow> connect ok f1
             | TRequest r \<Rightarrow>
                 emit (Settle r (failed MSG_NO_ANSWER)) (f1\<lparr>f_pending := omap_del r (f_pending f1)\<rparr>))"


section \<open>Everything that can happen to the feed\<close>

datatype feed_event =
  ETick jsnum
| ETakeNew
| EGoLive
| ETogglePlay
| ESetSpeed jsnum
| ESeek jsnum
| EStep
| EStart bool bool
| ESockOpen nat
| ESockError nat
| ESockClose nat
| EMessage server_msg
| EFetchDone "server_msg list option"
| ETimer bool nat
| EPlaceOrder side otype jsnum jsnum
| ECancelOrder string
| ESetRecording bool
| ESubscribe nat
| EUnsubscribe nat

fun feed_exec :: "(nat \<Rightarrow> jsnum) \<Rightarrow> feed_event \<Rightarrow> feed \<Rightarrow> feed option" where
  "feed_exec pn (ETick now) f = Some (tick pn now f)"
| "feed_exec pn ETakeNew f = Some (snd (takeNew f))"
| "feed_exec pn EGoLive f = goLive pn f"
| "feed_exec pn ETogglePlay f = Some (togglePlay pn f)"
| "feed_exec pn (ESetSpeed s) f = Some (setSpeed pn s f)"
| "feed_exec pn (ESeek v) f = seek pn v f"
| "feed_exec pn EStep f = Some (snd (feed_step pn f))"
| "feed_exec pn (EStart reachable ok) f = Some (feed_start reachable ok f)"
| "feed_exec pn (ESockOpen i) f = Some (f\<lparr>f_openSocks := i # f_openSocks f\<rparr>)"
| "feed_exec pn (ESockError i) f = Some (ws_error i f)"
| "feed_exec pn (ESockClose i) f = Some (ws_close pn (f\<lparr>f_openSocks := removeAll i (f_openSocks f)\<rparr>))"
| "feed_exec pn (EMessage m) f = Some (onMessage pn m f)"
| "feed_exec pn (EFetchDone r) f = Some (useReplay_done pn r f)"
| "feed_exec pn (ETimer ok i) f = Some (fire_timer ok i f)"
| "feed_exec pn (EPlaceOrder sd ty p q) f = Some (placeOrder sd ty p q f)"
| "feed_exec pn (ECancelOrder oid) f = Some (cancelOrder oid f)"
| "feed_exec pn (ESetRecording on) f = Some (setRecording on f)"
| "feed_exec pn (ESubscribe l) f = Some (feed_subscribe l f)"
| "feed_exec pn (EUnsubscribe l) f = Some (feed_unsubscribe l f)"

inductive feed_reach :: "feed \<Rightarrow> bool" where
  start: "feed_reach new_feed"
| step: "feed_reach f \<Longrightarrow> feed_exec pn e f = Some f' \<Longrightarrow> feed_reach f'"


section \<open>Bisection\<close>

lemma shr1_half: "0 \<le> n \<Longrightarrow> n < 2 ^ 31 \<Longrightarrow> shr1 n = n div 2"
  by (simp add: shr1_def signed_of_int signed_take_bit_int_eq_self)

lemma bisect_crossing:
  assumes "0 \<le> lo" and "hi < int (length fs)" and "lo \<le> hi + 1" and "length fs \<le> 2 ^ 30"
    and "0 < lo \<longrightarrow> js_le (fr_at (fs ! nat (lo - 1))) vt"
    and "hi + 1 < int (length fs) \<longrightarrow> \<not> js_le (fr_at (fs ! nat (hi + 1))) vt"
  shows "\<exists>r. bisect fs vt lo hi (lo - 1) = Some r \<and> - 1 \<le> r \<and> r < int (length fs) \<and>
    (0 \<le> r \<longrightarrow> js_le (fr_at (fs ! nat r)) vt) \<and>
    (r + 1 < int (length fs) \<longrightarrow> \<not> js_le (fr_at (fs ! nat (r + 1))) vt)"
  using assms
proof (induction "nat (hi - lo + 1)" arbitrary: lo hi rule: less_induct)
  case less
  show ?case
  proof (cases "lo \<le> hi")
    case False
    then have "bisect fs vt lo hi (lo - 1) = Some (lo - 1)" by (simp add: bisect.simps [of fs vt lo hi])
    moreover have "hi + 1 = lo" using False less.prems(3) by linarith
    ultimately show ?thesis using less.prems by (intro exI [of _ "lo - 1"]) auto
  next
    case True
    define mid where "mid = (lo + hi) div 2"
    have "int (length fs) \<le> 1073741824" using less.prems(4) by simp
    then have "lo + hi < 2 ^ 31" using less.prems(2) True by simp
    moreover have "0 \<le> lo + hi" using less.prems(1) True by linarith
    ultimately have shr: "shr1 (lo + hi) = mid" by (simp only: shr1_half mid_def)
    have mid: "lo \<le> mid" "mid \<le> hi" using True by (auto simp: mid_def)
    have unf: "bisect fs vt lo hi (lo - 1) =
        (if js_le (fr_at (fs ! nat mid)) vt then bisect fs vt (mid + 1) hi (mid + 1 - 1)
         else bisect fs vt lo (mid - 1) (lo - 1))"
      using True mid less.prems(1,2) by (simp add: bisect.simps [of fs vt lo hi] shr Let_def)
    show ?thesis
    proof (cases "js_le (fr_at (fs ! nat mid)) vt")
      case True
      with less.hyps [of hi "mid + 1"] less.prems mid show ?thesis by (simp add: unf)
    next
      case False
      with less.hyps [of "mid - 1" lo] less.prems mid show ?thesis by (simp add: unf)
    qed
  qed
qed

lemma indexAt_crossing:
  assumes "length fs \<le> 2 ^ 30"
  obtains r where "indexAt fs vt = Some r" "- 1 \<le> r" "r < int (length fs)"
    "0 \<le> r \<longrightarrow> js_le (fr_at (fs ! nat r)) vt"
    "r + 1 < int (length fs) \<longrightarrow> \<not> js_le (fr_at (fs ! nat (r + 1))) vt"
  using bisect_crossing [of 0 "int (length fs) - 1" fs vt] assms by (auto simp: indexAt_def)

text \<open>
  C30. The bisection always returns, and its answer is a crossing: the frame it points to is at or
  before the position and the next one is not. This needs no order of the frames, only fewer
  than \<open>2 ^ 30\<close> of them, so that the 32-bit midpoint does not wrap.
\<close>

theorem indexAt_returns_crossing:
  assumes "length fs \<le> 2 ^ 30"
  shows "\<exists>r. indexAt fs vt = Some r \<and> - 1 \<le> r \<and> r < int (length fs) \<and>
    (0 \<le> r \<longrightarrow> js_le (fr_at (fs ! nat r)) vt) \<and>
    (r + 1 < int (length fs) \<longrightarrow> \<not> js_le (fr_at (fs ! nat (r + 1))) vt)"
  using indexAt_crossing [OF assms, of vt] by metis

definition ex_book :: wire_book where
  "ex_book = \<lparr>bk_bids = [(Fin 99, Fin 10, Fin 1)], bk_asks = []\<rparr>"

theorem indexAt_returns_crossing_witness:
  "\<exists>r. indexAt [FBook (Fin 1000) ex_book, FBook (Fin 1050) ex_book, FBook (Fin 1049) ex_book] (Fin 1049) = Some r \<and>
    - 1 \<le> r \<and> r < 3"
  using indexAt_returns_crossing [of "[FBook (Fin 1000) ex_book, FBook (Fin 1050) ex_book, FBook (Fin 1049) ex_book]" "Fin 1049"]
  by auto

lemma sorted_prefix_count:
  assumes "sorted (map g xs)" and "NaN \<notin> g ` set xs" and "n \<le> length xs"
    and "0 < n \<longrightarrow> js_le (g (xs ! (n - 1))) c" and "n < length xs \<longrightarrow> \<not> js_le (g (xs ! n)) c"
  shows "filter (\<lambda>x. js_le (g x) c) xs = take n xs"
proof -
  have le: "g (xs ! i) \<le> g (xs ! j)" if "i \<le> j" "j < length xs" for i j
    using sorted_nth_mono [OF assms(1), of i j] that by simp
  have in1: "js_le (g x) c" if x: "x \<in> set (take n xs)" for x
  proof -
    obtain i where i: "i < n" "x = xs ! i" using x assms(3) by (auto simp: in_set_conv_nth)
    then have "g x \<le> g (xs ! (n - 1))" "js_le (g (xs ! (n - 1))) c" using le assms(3,4) by auto
    moreover have "g x \<noteq> NaN" using assms(2) i assms(3) by (metis image_eqI nth_mem order_less_le_trans)
    ultimately show ?thesis by (auto simp: js_le_def)
  qed
  have out: "\<not> js_le (g x) c" if x: "x \<in> set (drop n xs)" for x
  proof -
    obtain i where i: "n \<le> i" "i < length xs" "x = xs ! i"
      using x by (auto simp: in_set_conv_nth) (metis add.commute le_add2 less_diff_conv)
    then have "g (xs ! n) \<le> g x" "\<not> js_le (g (xs ! n)) c" using le assms(5) by auto
    moreover have "g (xs ! n) \<noteq> NaN" using assms(2) i by (metis image_eqI nth_mem order_le_less_trans)
    ultimately show ?thesis by (auto simp: js_le_def)
  qed
  have "filter (\<lambda>x. js_le (g x) c) (take n xs @ drop n xs) = take n xs"
    using in1 out by (simp only: filter_append) (simp add: filter_empty_conv)
  then show ?thesis by simp
qed

lemma indexAt_linear:
  assumes "length fs \<le> 2 ^ 30" and "sorted (map fr_at fs)" and "NaN \<notin> fr_at ` set fs"
  shows "\<exists>r. indexAt fs vt = Some r \<and> upto_idx r fs = filter (\<lambda>f. js_le (fr_at f) vt) fs"
proof -
  obtain r where r: "indexAt fs vt = Some r" "- 1 \<le> r" "r < int (length fs)"
    "0 \<le> r \<longrightarrow> js_le (fr_at (fs ! nat r)) vt"
    "r + 1 < int (length fs) \<longrightarrow> \<not> js_le (fr_at (fs ! nat (r + 1))) vt"
    by (rule indexAt_crossing [OF assms(1)])
  have "nat r = nat (r + 1) - 1" by simp
  then have "filter (\<lambda>f. js_le (fr_at f) vt) fs = take (nat (r + 1)) fs"
    using r by (intro sorted_prefix_count [OF assms(2,3)]) auto
  with r(1) show ?thesis by (auto simp: upto_idx_def)
qed


text \<open>
  C27. On frames in time order the bisection computes what a linear scan would: the index of the
  last frame at or before the position, so that the frames up to it are exactly those that
  have happened.
\<close>

theorem indexAt_sorted:
  assumes "length fs \<le> 2 ^ 30" and "sorted (map fr_at fs)" and "NaN \<notin> fr_at ` set fs"
  shows "\<exists>r. indexAt fs vt = Some r \<and> upto_idx r fs = filter (\<lambda>f. js_le (fr_at f) vt) fs"
  using assms by (rule indexAt_linear)

theorem indexAt_sorted_witness:
  "\<exists>r. indexAt [FBook (Fin 1000) ex_book, FBook (Fin 1049) ex_book, FBook (Fin 1050) ex_book] (Fin 1049) = Some r \<and>
    upto_idx r [FBook (Fin 1000) ex_book, FBook (Fin 1049) ex_book, FBook (Fin 1050) ex_book] =
      [FBook (Fin 1000) ex_book, FBook (Fin 1049) ex_book]"
  using indexAt_sorted [of "[FBook (Fin 1000) ex_book, FBook (Fin 1049) ex_book, FBook (Fin 1050) ex_book]" "Fin 1049"]
  by (simp add: js_le_def)

section \<open>Seeking\<close>

lemma bump_simps [feed_simps]:
  "f_frames (bump p f) = f_frames f" "f_cursor (bump p f) = f_cursor f" "f_vt (bump p f) = f_vt f"
  "f_clockMode (bump p f) = f_clockMode f" "f_source (bump p f) = f_source f"
  "f_speed (bump p f) = f_speed f" "f_anchorWall (bump p f) = f_anchorWall f"
  "f_anchorVt (bump p f) = f_anchorVt f" "f_forced (bump p f) = f_forced f"
  "f_pending (bump p f) = f_pending f" "f_timers (bump p f) = f_timers f"
  "f_nextTimer (bump p f) = f_nextTimer f" "f_reqId (bump p f) = f_reqId f"
  "f_retry (bump p f) = f_retry f" "f_dirty (bump p f) = False"
  by (simp_all add: bump_def)

lemma js_clamp:
  assumes "v \<noteq> NaN" and "a \<noteq> NaN" and "b \<noteq> NaN" and "a \<le> b"
  shows "a \<le> js_min (js_max v a) b \<and> js_min (js_max v a) b \<le> b \<and>
    js_min (js_max v a) b \<noteq> NaN \<and> (a \<le> v \<and> v \<le> b \<longrightarrow> js_min (js_max v a) b = v)"
  using assms by (auto simp: js_min_def js_max_def min_def max_def)

lemma seek_result:
  assumes "length (f_frames f) \<le> 2 ^ 30"
  obtains f' i where "seek pn v f = Some f'" "indexAt (f_frames f) (f_vt f') = Some i"
    "f_vt f' = js_min (js_max v (firstAt f)) (lastAt f)" "f_cursor f' = nat (i + 1)"
    "f_frames f' = f_frames f" "- 1 \<le> i" "i < int (length (f_frames f))"
    "f_clockMode f' = (if f_clockMode f = Follow then Pause else f_clockMode f)"
proof -
  obtain i where i: "indexAt (f_frames f) (js_min (js_max v (firstAt f)) (lastAt f)) = Some i"
    "- 1 \<le> i" "i < int (length (f_frames f))"
    using indexAt_crossing [OF assms] by metis
  obtain f' where f': "seek pn v f = Some f'" using i(1) by (simp add: seek_def Let_def)
  with i(1) have "f_vt f' = js_min (js_max v (firstAt f)) (lastAt f)" "f_cursor f' = nat (i + 1)"
    "f_frames f' = f_frames f"
    "f_clockMode f' = (if f_clockMode f = Follow then Pause else f_clockMode f)"
    by (auto simp: seek_def Let_def bump_simps set_anchor_def)
  with i f' show thesis by (intro that [of f' i]) simp_all
qed

lemma frames_at_ends:
  assumes "f_frames f \<noteq> []" and "NaN \<notin> fr_at ` set (f_frames f)" and "sorted (map fr_at (f_frames f))"
  shows "firstAt f \<noteq> NaN" "lastAt f \<noteq> NaN" "firstAt f \<le> lastAt f"
proof -
  have hd: "firstAt f = map fr_at (f_frames f) ! 0"
    using assms(1) by (simp add: firstAt_def hd_conv_nth)
  have la: "lastAt f = map fr_at (f_frames f) ! (length (f_frames f) - 1)"
    using assms(1) by (simp add: lastAt_def last_conv_nth)
  show "firstAt f \<noteq> NaN" "lastAt f \<noteq> NaN"
    using assms(1,2) by (auto simp: firstAt_def lastAt_def) (metis imageI hd_in_set, metis imageI last_in_set)
  show "firstAt f \<le> lastAt f"
    unfolding hd la using assms(1) by (intro sorted_nth_mono [OF assms(3)]) auto
qed

text \<open>
  Seeking: on frames in time order it returns, clamps the position into the buffered range
  (leaving a position inside it alone), and puts the cursor just behind the frames that have
  happened at that position; following the live stream turns into a pause.
\<close>

lemma seek_positions_cursor:
  assumes "length (f_frames f) \<le> 2 ^ 30" and "sorted (map fr_at (f_frames f))"
    and "NaN \<notin> fr_at ` set (f_frames f)" and "f_frames f \<noteq> []" and "v \<noteq> NaN"
  shows "\<exists>f'. seek pn v f = Some f' \<and> firstAt f \<le> f_vt f' \<and> f_vt f' \<le> lastAt f \<and>
    (firstAt f \<le> v \<and> v \<le> lastAt f \<longrightarrow> f_vt f' = v) \<and>
    take (f_cursor f') (f_frames f') = filter (\<lambda>x. js_le (fr_at x) (f_vt f')) (f_frames f) \<and>
    f_frames f' = f_frames f \<and> f_clockMode f' \<noteq> Follow"
proof -
  obtain f' i where s: "seek pn v f = Some f'" "indexAt (f_frames f) (f_vt f') = Some i"
    "f_vt f' = js_min (js_max v (firstAt f)) (lastAt f)" "f_cursor f' = nat (i + 1)"
    "f_frames f' = f_frames f" "f_clockMode f' = (if f_clockMode f = Follow then Pause else f_clockMode f)"
    by (rule seek_result [OF assms(1)])
  have "upto_idx i (f_frames f) = filter (\<lambda>x. js_le (fr_at x) (f_vt f')) (f_frames f)"
    using indexAt_linear [OF assms(1-3), of "f_vt f'"] s(2) by auto
  moreover note js_clamp [OF assms(5) frames_at_ends [OF assms(4,3,2)]]
  ultimately show ?thesis using s by (auto simp: upto_idx_def split: if_splits)
qed

theorem seek_positions_cursor_witness:
  "\<exists>f'. seek (\<lambda>_. Fin 5) (Fin 1049) (new_feed\<lparr>f_frames := [FBook (Fin 1000) ex_book, FBook (Fin 1049) ex_book,
        FBook (Fin 1050) ex_book]\<rparr>) = Some f' \<and> f_vt f' = Fin 1049 \<and>
    take (f_cursor f') (f_frames f') = [FBook (Fin 1000) ex_book, FBook (Fin 1049) ex_book]"
  using seek_positions_cursor [of "new_feed\<lparr>f_frames := [FBook (Fin 1000) ex_book, FBook (Fin 1049) ex_book,
        FBook (Fin 1050) ex_book]\<rparr>" "Fin 1049" "\<lambda>_. Fin 5"]
  by (auto simp: firstAt_def lastAt_def js_le_def)

section \<open>The clock\<close>

lemma le_PosInf: "a \<noteq> NaN \<Longrightarrow> a \<le> PosInf"
  by (cases a) simp_all

lemma js_mul_mono_pos:
  assumes "a \<le> b" and "a \<noteq> NaN" and "b \<noteq> NaN" and "0 < s"
  shows "js_mul a (Fin s) \<le> js_mul b (Fin s) \<and> js_mul a (Fin s) \<noteq> NaN \<and> js_mul b (Fin s) \<noteq> NaN"
  using assms by (cases a; cases b) (auto simp: js_inf_def le_PosInf intro!: fl_mono mult_right_mono)

lemma js_add_mono:
  assumes "a \<le> b" and "a \<noteq> NaN" and "b \<noteq> NaN"
  shows "js_add (Fin c) a \<le> js_add (Fin c) b \<and> js_add (Fin c) a \<noteq> NaN \<and> js_add (Fin c) b \<noteq> NaN"
  using assms by (cases a; cases b) (auto simp: le_PosInf intro: fl_mono)

lemma play_vt_mono:
  assumes "f_anchorVt f = Fin a" and "f_anchorWall f = Fin w" and "f_speed f = Fin s" and "0 < s"
    and "n \<le> n'"
  shows "js_le (play_vt f (Fin n)) (play_vt f (Fin n'))"
proof -
  have "fl (n - w) \<le> fl (n' - w)" using assms(5) by (intro fl_mono) simp
  note m = js_mul_mono_pos [OF this fl_not_NaN fl_not_NaN assms(4)]
  have "js_add (Fin a) (js_mul (fl (n - w)) (Fin s)) \<le> js_add (Fin a) (js_mul (fl (n' - w)) (Fin s)) \<and>
      js_add (Fin a) (js_mul (fl (n - w)) (Fin s)) \<noteq> NaN \<and>
      js_add (Fin a) (js_mul (fl (n' - w)) (Fin s)) \<noteq> NaN"
    using m by (intro js_add_mono) auto
  then show ?thesis using assms(1-3) by (simp add: play_vt_def js_sub_def js_le_def)
qed

text \<open>
  What happens between two frames of the animation while nobody touches the controls: the clock
  ticks, the animation takes what is new, and frames arrive. The ticks carry the times the
  browser hands to \<^verbatim>\<open>requestAnimationFrame\<close>.
\<close>

fun undisturbed :: "feed_event \<Rightarrow> bool" where
  "undisturbed (ETick (Fin t)) = True"
| "undisturbed ETakeNew = True"
| "undisturbed (EMessage (SBatch b)) = True"
| "undisturbed (EMessage (SBook a bk)) = True"
| "undisturbed _ = False"

fun tick_times :: "feed_event list \<Rightarrow> rat list" where
  "tick_times [] = []"
| "tick_times (ETick (Fin t) # es) = t # tick_times es"
| "tick_times (_ # es) = tick_times es"

fun frame_times :: "feed_event list \<Rightarrow> jsnum list" where
  "frame_times [] = []"
| "frame_times (EMessage (SBatch b) # es) = b_at b # frame_times es"
| "frame_times (EMessage (SBook a bk) # es) = a # frame_times es"
| "frame_times (_ # es) = frame_times es"

text \<open>A time as the wire carries it: a number that a double holds exactly.\<close>

definition exact_time :: "jsnum \<Rightarrow> bool" where
  "exact_time t \<longleftrightarrow> (\<exists>r. t = Fin r \<and> representable r)"

text \<open>
  The clock between two events: \<open>n\<close> is the time of the latest tick (or of the speed change) and
  \<open>l\<close> the time of the latest frame on the wire. While it plays, the position is the one the
  anchor gave at some time up to \<open>n\<close>; on the live stream it does not overtake the buffer.
\<close>

definition clock_inv :: "rat \<Rightarrow> jsnum \<Rightarrow> feed \<Rightarrow> bool" where
  "clock_inv n l f \<longleftrightarrow>
     f_vt f \<noteq> NaN \<and> lastAt f \<le> l \<and> (\<forall>x \<in> set (f_frames f). exact_time (fr_at x)) \<and>
     (f_clockMode f = Follow \<or> f_clockMode f = Play \<and> f_source f = Live \<longrightarrow> f_vt f \<le> lastAt f) \<and>
     (f_clockMode f = Play \<longrightarrow>
       (\<exists>c w s m. f_anchorVt f = Fin c \<and> representable c \<and> f_anchorWall f = Fin w \<and> f_speed f = Fin s \<and>
          0 < s \<and> m \<le> n \<and> f_vt f = play_vt f (Fin m)))"

text \<open>At the end of a recording, a second and a half past its last frame, \<open>tick\<close> starts it again.\<close>

definition rewinds :: "feed_event \<Rightarrow> feed \<Rightarrow> feed \<Rightarrow> bool" where
  "rewinds e f f' \<longleftrightarrow> (\<exists>t. e = ETick t \<and> js_gt (play_vt f t) (js_add (lastAt f) (Fin 1500))) \<and>
     f_source f = Replay \<and> f_clockMode f = Play \<and> f_frames f \<noteq> [] \<and> f_vt f' = firstAt f \<and> f_cursor f' = 0"

lemma play_vt_cong:
  "f_anchorVt f = f_anchorVt g \<Longrightarrow> f_anchorWall f = f_anchorWall g \<Longrightarrow> f_speed f = f_speed g \<Longrightarrow>
    play_vt f t = play_vt g t"
  by (simp add: play_vt_def)

lemma play_vt_anchor:
  assumes "f_anchorVt f = Fin c" and "representable c" and "f_anchorWall f = Fin w" and "f_speed f = Fin s"
  shows "play_vt f (Fin w) = Fin c"
  using assms fl_exact [OF assms(2)] by (simp add: play_vt_def js_sub_def)

lemma lastAt_exact: "\<forall>x \<in> set (f_frames f). exact_time (fr_at x) \<Longrightarrow> exact_time (lastAt f)"
  and firstAt_exact: "\<forall>x \<in> set (f_frames f). exact_time (fr_at x) \<Longrightarrow> exact_time (firstAt f)"
proof -
  have "exact_time (Fin 0)" using representable_int [of 0] by (simp add: exact_time_def safe_int_def)
  then show "\<forall>x \<in> set (f_frames f). exact_time (fr_at x) \<Longrightarrow> exact_time (lastAt f)"
    "\<forall>x \<in> set (f_frames f). exact_time (fr_at x) \<Longrightarrow> exact_time (firstAt f)"
    by (simp_all add: lastAt_def firstAt_def)
qed

lemma exact_time_not_NaN: "exact_time t \<Longrightarrow> t \<noteq> NaN"
  by (auto simp: exact_time_def)

lemma bump_if_simps:
  "f_vt (if c then bump p f else f) = f_vt f" "f_frames (if c then bump p f else f) = f_frames f"
  "f_clockMode (if c then bump p f else f) = f_clockMode f" "f_cursor (if c then bump p f else f) = f_cursor f"
  "f_source (if c then bump p f else f) = f_source f" "f_speed (if c then bump p f else f) = f_speed f"
  "f_anchorVt (if c then bump p f else f) = f_anchorVt f" "f_anchorWall (if c then bump p f else f) = f_anchorWall f"
  by (simp_all add: bump_simps)

lemma clock_inv_bump: "clock_inv n l (if c then bump p f else f) \<longleftrightarrow> clock_inv n l f"
  by (simp add: clock_inv_def bump_if_simps lastAt_def play_vt_def)

lemma advance_play:
  assumes "f_clockMode f = Play"
  shows "advance t f =
    (if f_source f = Replay \<and> f_frames f \<noteq> [] \<and> js_gt (play_vt f t) (js_add (lastAt f) (Fin 1500))
     then f\<lparr>f_vt := firstAt f, f_cursor := 0, f_anchorWall := t, f_anchorVt := firstAt f, f_dirty := True\<rparr>
     else if f_source f = Live \<and> js_ge (play_vt f t) (lastAt f) then setFollow f
     else f\<lparr>f_vt := play_vt f t, f_dirty := True\<rparr>)"
  using assms by (simp add: advance_def Let_def lastAt_def firstAt_def setFollow_def)

lemma advance_smooth:
  assumes inv: "clock_inv n l f" and "n \<le> t"
  shows "clock_inv t l (advance (Fin t) f) \<and> f_frames (advance (Fin t) f) = f_frames f \<and>
    f_source (advance (Fin t) f) = f_source f \<and>
    (f_clockMode f = Pause \<longrightarrow> f_clockMode (advance (Fin t) f) = Pause \<and> f_vt (advance (Fin t) f) = f_vt f) \<and>
    (js_le (f_vt f) (f_vt (advance (Fin t) f)) \<or> rewinds (ETick (Fin t)) f (advance (Fin t) f))"
proof (cases "f_clockMode f")
  case Follow
  have "lastAt f \<noteq> NaN" using inv lastAt_exact exact_time_not_NaN by (simp add: clock_inv_def)
  with inv Follow show ?thesis
    by (auto simp: clock_inv_def advance_def js_le_def lastAt_def)
next
  case Pause
  with inv show ?thesis by (auto simp: clock_inv_def advance_def js_le_def)
next
  case Play
  obtain c w s m where a: "f_anchorVt f = Fin c" "representable c" "f_anchorWall f = Fin w"
    "f_speed f = Fin s" "0 < s" "m \<le> n" "f_vt f = play_vt f (Fin m)"
    using inv Play unfolding clock_inv_def by blast
  have mono: "js_le (f_vt f) (play_vt f (Fin t))"
    using play_vt_mono [OF a(1,3,4,5), of m t] a(6,7) assms(2) by simp
  have la: "lastAt f \<noteq> NaN" "exact_time (lastAt f)" "exact_time (firstAt f)"
    using inv lastAt_exact firstAt_exact exact_time_not_NaN unfolding clock_inv_def by blast+
  obtain r where r: "firstAt f = Fin r" "representable r" using la(3) by (auto simp: exact_time_def)
  consider (rewind) "f_source f = Replay" "f_frames f \<noteq> []" "js_gt (play_vt f (Fin t)) (js_add (lastAt f) (Fin 1500))"
    | (follow) "f_source f = Live" "js_ge (play_vt f (Fin t)) (lastAt f)"
    | (play) "\<not> (f_source f = Replay \<and> f_frames f \<noteq> [] \<and> js_gt (play_vt f (Fin t)) (js_add (lastAt f) (Fin 1500)))"
        "\<not> (f_source f = Live \<and> js_ge (play_vt f (Fin t)) (lastAt f))"
    by blast
  then show ?thesis
  proof cases
    case rewind
    then have "advance (Fin t) f = f\<lparr>f_vt := Fin r, f_cursor := 0, f_anchorWall := Fin t, f_anchorVt := Fin r, f_dirty := True\<rparr>"
      using r(1) by (simp add: advance_play [OF Play])
    moreover have "play_vt (f\<lparr>f_vt := Fin r, f_cursor := 0, f_anchorWall := Fin t, f_anchorVt := Fin r, f_dirty := True\<rparr>) (Fin t) = Fin r"
      using r a by (intro play_vt_anchor) auto
    ultimately show ?thesis using inv Play r a rewind
      by (auto simp: clock_inv_def rewinds_def lastAt_def firstAt_def)
  next
    case follow
    then have "advance (Fin t) f = setFollow f" by (simp add: advance_play [OF Play])
    moreover have "js_le (f_vt f) (lastAt f)"
      using inv Play follow la by (auto simp: clock_inv_def js_le_def)
    ultimately show ?thesis using inv la Play follow
      by (auto simp: clock_inv_def setFollow_def lastAt_def)
  next
    case play
    then have "advance (Fin t) f = f\<lparr>f_vt := play_vt f (Fin t), f_dirty := True\<rparr>"
      using advance_play [OF Play] by auto
    moreover have "play_vt f (Fin t) \<noteq> NaN" using mono by (simp add: js_le_def)
    moreover have "f_source f = Live \<longrightarrow> play_vt f (Fin t) \<le> lastAt f"
      using play(2) la(1) mono by (auto simp: js_le_def)
    ultimately show ?thesis using inv Play a mono
      by (auto simp: clock_inv_def lastAt_def play_vt_def)
  qed
qed

lemma push_lastAt:
  assumes "f_frames f @ gs \<noteq> []"
  shows "lastAt (push gs f) = fr_at (last (f_frames f @ gs))"
proof (cases "MAX_FRAMES + TRIM < length (f_frames f @ gs)")
  case True
  then have "TRIM < length (f_frames f @ gs)" by (simp add: MAX_FRAMES_def TRIM_def)
  then have "last (drop TRIM (f_frames f @ gs)) = last (f_frames f @ gs)" "drop TRIM (f_frames f @ gs) \<noteq> []"
    using last_drop [of TRIM "f_frames f @ gs"] by (simp_all only: drop_eq_Nil not_le)
  with True show ?thesis by (simp del: drop_append drop_eq_Nil add: push_def Let_def lastAt_def)
next
  case False
  with assms show ?thesis by (auto simp: push_def Let_def lastAt_def)
qed

lemma push_smooth:
  assumes inv: "clock_inv n l f" and "l \<le> fr_at x" and "exact_time (fr_at x)"
  shows "clock_inv n (fr_at x) (push [x] f)"
proof -
  have "lastAt f \<le> fr_at x" using inv assms(2) by (auto simp: clock_inv_def)
  moreover have "set (f_frames (push [x] f)) \<subseteq> set (f_frames f @ [x])"
    by (auto simp: push_def Let_def dest: in_set_dropD)
  moreover have "lastAt (push [x] f) = fr_at x" by (simp add: push_lastAt)
  moreover have "f_vt (push [x] f) = f_vt f" "f_clockMode (push [x] f) = f_clockMode f"
    "f_source (push [x] f) = f_source f" "f_anchorVt (push [x] f) = f_anchorVt f"
    "f_anchorWall (push [x] f) = f_anchorWall f" "f_speed (push [x] f) = f_speed f"
    by (simp_all add: push_def Let_def)
  ultimately show ?thesis using inv assms(3)
    by (fastforce simp: clock_inv_def play_vt_def)
qed

lemma clock_inv_later: "clock_inv n l f \<Longrightarrow> l \<le> l' \<Longrightarrow> clock_inv n l' f"
  by (auto simp: clock_inv_def)

lemma clock_inv_dirty: "clock_inv n l (f\<lparr>f_dirty := d\<rparr>) \<longleftrightarrow> clock_inv n l f"
  by (simp add: clock_inv_def lastAt_def play_vt_def)

lemma clock_inv_taken: "clock_inv n l (f\<lparr>f_forced := a, f_cursor := c\<rparr>) \<longleftrightarrow> clock_inv n l f"
  by (simp add: clock_inv_def lastAt_def play_vt_def)

text \<open>What one undisturbed event does to the clock.\<close>

lemma frame_smooth:
  assumes inv: "clock_inv n l f" and "l \<le> fr_at x" and "exact_time (fr_at x)"
  shows "clock_inv n (fr_at x) ((if f_source f = Live then push [x] f else f)\<lparr>f_dirty := True\<rparr>)"
    and "f_vt ((if f_source f = Live then push [x] f else f)\<lparr>f_dirty := True\<rparr>) = f_vt f"
    and "f_clockMode ((if f_source f = Live then push [x] f else f)\<lparr>f_dirty := True\<rparr>) = f_clockMode f"
  using push_smooth [OF assms] clock_inv_later [OF assms(1,2)]
  by (auto simp: clock_inv_dirty push_def Let_def)

lemma undisturbed_smooth:
  assumes inv: "clock_inv n l f" and e: "undisturbed e"
    and t: "sorted (n # tick_times [e])" and a: "sorted (l # frame_times [e])" "list_all exact_time (frame_times [e])"
  obtains f' where "feed_exec pn e f = Some f'"
    and "clock_inv (last (n # tick_times [e])) (last (l # frame_times [e])) f'"
    and "f_clockMode f = Pause \<Longrightarrow> f_clockMode f' = Pause \<and> f_vt f' = f_vt f"
    and "js_le (f_vt f) (f_vt f') \<or> rewinds e f f'"
proof -
  have vt: "js_le (f_vt f) (f_vt f)" using inv by (simp add: clock_inv_def js_le_def)
  show thesis
  proof (cases e rule: undisturbed.cases)
    case (1 r)
    have n: "n \<le> r" using t 1 by simp
    note s = advance_smooth [OF inv n]
    define c where "c = (f_dirty (advance (Fin r) f) \<and> js_gt (js_sub (Fin r) (f_lastNotify (advance (Fin r) f))) (Fin 90))"
    let ?g = "if c then bump (pn 0) (advance (Fin r) f) else advance (Fin r) f"
    have "feed_exec pn e f = Some ?g" by (simp add: 1 tick_def c_def Let_def)
    moreover have "rewinds e f ?g" if "rewinds e f (advance (Fin r) f)"
      using that by (simp add: rewinds_def bump_if_simps)
    moreover have "clock_inv (last (n # tick_times [e])) (last (l # frame_times [e])) ?g"
      using s by (simp add: 1 clock_inv_bump del: if_split)
    moreover have "f_clockMode f = Pause \<Longrightarrow> f_clockMode ?g = Pause \<and> f_vt ?g = f_vt f"
      using s by (simp only: bump_if_simps)
    moreover have "js_le (f_vt f) (f_vt ?g) \<or> rewinds e f (advance (Fin r) f)"
      using s by (simp only: bump_if_simps 1)
    ultimately show thesis by (intro that [of ?g]) blast+
  next
    case 2
    obtain c where c: "snd (takeNew f) = f\<lparr>f_forced := [], f_cursor := c\<rparr>"
      by (cases "f_clockMode f = Pause")
         (force simp: takeNew_def Let_def intro: that [of "f_cursor f"] that)+
    have "clock_inv n l (snd (takeNew f))" "f_vt (snd (takeNew f)) = f_vt f"
      "f_clockMode (snd (takeNew f)) = f_clockMode f"
      unfolding c using inv by (simp_all add: clock_inv_taken)
    with 2 vt show thesis by (intro that [of "snd (takeNew f)"]) simp_all
  next
    case (3 b)
    with frame_smooth [OF inv, of "FBatch b"] a vt show thesis
      by (intro that [of "(if f_source f = Live then push [FBatch b] f else f)\<lparr>f_dirty := True\<rparr>"])
         (simp_all add: onMessage_def split del: if_split)
  next
    case (4 t bk)
    with frame_smooth [OF inv, of "FBook t bk"] a vt show thesis
      by (intro that [of "(if f_source f = Live then push [FBook t bk] f else f)\<lparr>f_dirty := True\<rparr>"])
         (simp_all add: onMessage_def split del: if_split)
  qed (use e in simp_all)
qed

lemma tick_times_append: "tick_times (es @ es') = tick_times es @ tick_times es'"
  by (induction es rule: tick_times.induct) simp_all

lemma frame_times_append: "frame_times (es @ es') = frame_times es @ frame_times es'"
  by (induction es rule: frame_times.induct) simp_all

lemma undisturbed_run:
  assumes "clock_inv n l f" and "list_all undisturbed es" and "sorted (n # tick_times es)"
    and "sorted (l # frame_times es)" and "list_all exact_time (frame_times es)"
  obtains f' where "prun (feed_exec pn) es f = Some f'"
    and "clock_inv (last (n # tick_times es)) (last (l # frame_times es)) f'"
    and "f_clockMode f = Pause \<Longrightarrow> f_clockMode f' = Pause \<and> f_vt f' = f_vt f"
  using assms
proof (induction es arbitrary: thesis rule: rev_induct)
  case (snoc e es)
  let ?n = "last (n # tick_times es)" and ?l = "last (l # frame_times es)"
  have s: "sorted (n # tick_times es)" "sorted (l # frame_times es)" "list_all exact_time (frame_times es)"
    "list_all undisturbed es" "undisturbed e"
    using snoc.prems by (auto simp: tick_times_append frame_times_append sorted_append)
  obtain g where g: "prun (feed_exec pn) es f = Some g" "clock_inv ?n ?l g"
    "f_clockMode f = Pause \<Longrightarrow> f_clockMode g = Pause \<and> f_vt g = f_vt f"
    using snoc.IH [OF _ snoc.prems(2) s(4,1,2,3)] by metis
  have "sorted (?n # tick_times [e])" "sorted (?l # frame_times [e])" "list_all exact_time (frame_times [e])"
    using snoc.prems(4,5,6) by (auto simp: tick_times_append frame_times_append sorted_append)
  from undisturbed_smooth [OF g(2) s(5) this] obtain f' where "feed_exec pn e g = Some f'"
    "clock_inv (last (?n # tick_times [e])) (last (?l # frame_times [e])) f'"
    "f_clockMode g = Pause \<Longrightarrow> f_clockMode f' = Pause \<and> f_vt f' = f_vt g"
    by metis
  with g show ?case
    by (intro snoc.prems(1) [of f']) (auto simp: prun_append tick_times_append frame_times_append last_append)
qed simp

lemma setSpeed_clock:
  assumes "exact_time (f_vt f)" and "pn 0 = Fin w" and "0 < s"
    and "\<forall>x \<in> set (f_frames f). exact_time (fr_at x)"
    and "f_clockMode f = Follow \<or> f_source f = Live \<longrightarrow> f_vt f \<le> lastAt f"
  shows "clock_inv w (lastAt f) (setSpeed pn (Fin s) f)"
    and "f_vt (setSpeed pn (Fin s) f) = f_vt f" and "f_speed (setSpeed pn (Fin s) f) = Fin s"
    and "lastAt (setSpeed pn (Fin s) f) = lastAt f"
    and "f_clockMode (setSpeed pn (Fin s) f) =
      (if f_clockMode f = Follow \<and> s \<noteq> 1 then Play else f_clockMode f)"
    and "f_clockMode (setSpeed pn (Fin s) f) = Play \<Longrightarrow> play_vt (setSpeed pn (Fin s) f) (pn 0) = f_vt f"
proof -
  obtain a where a: "f_vt f = Fin a" "representable a" using assms(1) by (auto simp: exact_time_def)
  let ?f = "setSpeed pn (Fin s) f"
  show basic: "f_vt ?f = f_vt f" "f_speed ?f = Fin s" "lastAt ?f = lastAt f"
    "f_clockMode ?f = (if f_clockMode f = Follow \<and> s \<noteq> 1 then Play else f_clockMode f)"
    by (auto simp: setSpeed_def set_anchor_def Let_def bump_simps lastAt_def js_eq_def)
  have more: "f_frames ?f = f_frames f" "f_source ?f = f_source f"
    "f_clockMode ?f = Play \<Longrightarrow> f_anchorVt ?f = Fin a \<and> f_anchorWall ?f = Fin w"
    using a assms(2) by (auto simp: setSpeed_def set_anchor_def Let_def bump_simps split: if_splits)
  show play: "play_vt ?f (pn 0) = f_vt f" if "f_clockMode ?f = Play"
    using play_vt_anchor [of ?f a w s] more(3) [OF that] basic(2) a assms(2) by simp
  have "f_clockMode ?f = Play \<Longrightarrow> \<exists>c v z m. f_anchorVt ?f = Fin c \<and> representable c \<and> f_anchorWall ?f = Fin v \<and>
      f_speed ?f = Fin z \<and> 0 < z \<and> m \<le> w \<and> f_vt ?f = play_vt ?f (Fin m)"
    using more(3) basic(1,2) a assms(2,3) play by (intro exI [of _ a] exI [of _ w] exI [of _ s]) auto
  then show "clock_inv w (lastAt f) ?f"
    using assms(4,5) a basic(1,3,4) more(1,2) unfolding clock_inv_def by auto
qed

text \<open>
  C31. Changing the speed does not move the playback position, and playback then runs on from
  it without going backwards. The change keeps the position; a paused feed stays paused there,
  following at speed one goes on following, and otherwise the clock plays, re-anchored so that
  at the time of the change it shows exactly the position it had. From then on, as long as the
  user touches nothing, whatever ticks come (at times not before the change) and whatever
  frames arrive (in the order of their times), each event moves the position forward or leaves
  it, with one exception that the code makes on purpose: a recording that is a second and a
  half past its end starts again from its first frame. The position of a live feed must not be
  ahead of its buffer at the start; times are finite doubles.
\<close>

theorem speed_change_is_smooth:
  assumes "exact_time (f_vt f)" and "pn 0 = Fin w" and "0 < s"
    and "\<forall>x \<in> set (f_frames f). exact_time (fr_at x)"
    and "f_clockMode f = Follow \<or> f_source f = Live \<longrightarrow> f_vt f \<le> lastAt f"
    and "list_all undisturbed (es @ [e])" and "sorted (w # tick_times (es @ [e]))"
    and "sorted (lastAt f # frame_times (es @ [e]))" and "list_all exact_time (frame_times (es @ [e]))"
  shows "\<exists>f0 f1 f2. feed_exec pn (ESetSpeed (Fin s)) f = Some f0 \<and> f_vt f0 = f_vt f \<and> f_speed f0 = Fin s \<and>
    f_clockMode f0 = (if f_clockMode f = Follow \<and> s \<noteq> 1 then Play else f_clockMode f) \<and>
    (f_clockMode f0 = Play \<longrightarrow> play_vt f0 (pn 0) = f_vt f) \<and>
    prun (feed_exec pn) es f0 = Some f1 \<and> feed_exec pn e f1 = Some f2 \<and>
    (f_clockMode f = Pause \<longrightarrow> f_clockMode f2 = Pause \<and> f_vt f2 = f_vt f) \<and>
    (js_le (f_vt f1) (f_vt f2) \<or> rewinds e f1 f2)"
proof -
  let ?f = "setSpeed pn (Fin s) f"
  note s = setSpeed_clock [where pn = pn and s = s, OF assms(1-5)]
  have es: "list_all undisturbed es" "undisturbed e" "sorted (w # tick_times es)"
    "sorted (lastAt f # frame_times es)" "list_all exact_time (frame_times es)"
    using assms(6-9) by (auto simp: tick_times_append frame_times_append sorted_append)
  obtain f1 where f1: "prun (feed_exec pn) es ?f = Some f1"
    "clock_inv (last (w # tick_times es)) (last (lastAt f # frame_times es)) f1"
    "f_clockMode ?f = Pause \<Longrightarrow> f_clockMode f1 = Pause \<and> f_vt f1 = f_vt ?f"
    using undisturbed_run [OF s(1) es(1,3-5), where pn = pn] by metis
  have "sorted (last (w # tick_times es) # tick_times [e])"
    "sorted (last (lastAt f # frame_times es) # frame_times [e])" "list_all exact_time (frame_times [e])"
    using assms(7-9) by (auto simp: tick_times_append frame_times_append sorted_append)
  from undisturbed_smooth [OF f1(2) es(2) this, where pn = pn] obtain f2 where "feed_exec pn e f1 = Some f2"
    "f_clockMode f1 = Pause \<Longrightarrow> f_clockMode f2 = Pause \<and> f_vt f2 = f_vt f1"
    "js_le (f_vt f1) (f_vt f2) \<or> rewinds e f1 f2"
    by metis
  with f1 s show ?thesis by (intro exI [of _ ?f] exI [of _ f1] exI [of _ f2]) auto
qed

theorem speed_change_is_smooth_witness:
  "\<exists>f0 f1 f2. feed_exec (\<lambda>_. Fin 700) (ESetSpeed (Fin 2))
      (new_feed\<lparr>f_source := Live, f_clockMode := Play, f_vt := Fin 1000,
        f_frames := [FBook (Fin 1000) ex_book, FBook (Fin 1049) ex_book]\<rparr>) = Some f0 \<and>
    f_vt f0 = Fin 1000 \<and> f_clockMode f0 = Play \<and> play_vt f0 (Fin 700) = Fin 1000 \<and>
    prun (feed_exec (\<lambda>_. Fin 700)) [ETick (Fin 710), EMessage (SBook (Fin 1060) ex_book)] f0 = Some f1 \<and>
    feed_exec (\<lambda>_. Fin 700) (ETick (Fin 760)) f1 = Some f2 \<and>
    (js_le (f_vt f1) (f_vt f2) \<or> rewinds (ETick (Fin 760)) f1 f2)"
proof -
  have r: "exact_time (Fin 1000)" "exact_time (Fin 1049)" "exact_time (Fin 1060)"
    using representable_int [of 1000] representable_int [of 1049] representable_int [of 1060]
    by (simp_all add: exact_time_def safe_int_def)
  show ?thesis
    using speed_change_is_smooth [of "new_feed\<lparr>f_source := Live, f_clockMode := Play, f_vt := Fin 1000,
        f_frames := [FBook (Fin 1000) ex_book, FBook (Fin 1049) ex_book]\<rparr>" "\<lambda>_. Fin 700" 700 2
        "[ETick (Fin 710), EMessage (SBook (Fin 1060) ex_book)]" "ETick (Fin 760)"] r
    by (simp add: lastAt_def del: prun.simps feed_exec.simps) blast
qed

section \<open>Delivery to the animation\<close>

datatype live_event = LPush frame | LTake

fun deliver :: "feed \<Rightarrow> live_event list \<Rightarrow> frame list \<times> feed" where
  "deliver f [] = ([], f)"
| "deliver f (LPush x # es) = deliver (push [x] f) es"
| "deliver f (LTake # es) =
     (let (out, f1) = takeNew f; (outs, f2) = deliver f1 es in (out @ outs, f2))"

fun pushed :: "live_event list \<Rightarrow> frame list" where
  "pushed [] = []"
| "pushed (LPush x # es) = x # pushed es"
| "pushed (LTake # es) = pushed es"

text \<open>The reader keeps up: fewer than \<open>MAX_FRAMES\<close> frames wait whenever one arrives.\<close>

fun keeps_up :: "feed \<Rightarrow> live_event list \<Rightarrow> bool" where
  "keeps_up f [] = True"
| "keeps_up f (LPush x # es) =
     (length (f_frames f) - f_cursor f < MAX_FRAMES \<and> keeps_up (push [x] f) es)"
| "keeps_up f (LTake # es) = keeps_up (snd (takeNew f)) es"

definition cursor_ok :: "feed \<Rightarrow> bool" where
  "cursor_ok f \<longleftrightarrow> f_cursor f \<le> length (f_frames f)"

definition following :: "feed \<Rightarrow> bool" where
  "following f \<longleftrightarrow> f_clockMode f = Follow \<and> f_forced f = [] \<and> cursor_ok f \<and>
     length (f_frames f) \<le> MAX_FRAMES + TRIM \<and> NaN \<notin> fr_at ` set (f_frames f)"

lemma push_one:
  assumes "following f" and "length (f_frames f) - f_cursor f < MAX_FRAMES" and "fr_at x \<noteq> NaN"
  shows "following (push [x] f)"
    and "drop (f_cursor (push [x] f)) (f_frames (push [x] f)) = drop (f_cursor f) (f_frames f) @ [x]"
  using assms
  by (auto simp: following_def push_def Let_def cursor_ok_def MAX_FRAMES_def TRIM_def dest: in_set_dropD)

lemma take_following:
  assumes "following f"
  shows "following (snd (takeNew f))" and "fst (takeNew f) = drop (f_cursor f) (f_frames f)"
    and "drop (f_cursor (snd (takeNew f))) (f_frames (snd (takeNew f))) = []"
proof -
  have "js_le (fr_at x) PosInf" if "x \<in> set (f_frames f)" for x
    using that assms by (cases "fr_at x") (auto simp: following_def js_le_def image_iff)
  then have w: "takeWhile (reached f) (drop (f_cursor f) (f_frames f)) = drop (f_cursor f) (f_frames f)"
    using assms by (auto simp: takeWhile_eq_all_conv reached_def following_def dest: in_set_dropD)
  from assms show "following (snd (takeNew f))" "fst (takeNew f) = drop (f_cursor f) (f_frames f)"
    "drop (f_cursor (snd (takeNew f))) (f_frames (snd (takeNew f))) = []"
    by (simp_all add: takeNew_def Let_def following_def cursor_ok_def w)
qed

text \<open>
  C23. Live frames reach the animation exactly once and in order. While the clock follows the
  stream and the animation keeps up, what it has taken so far, followed by what still waits in
  the buffer, is what was waiting at the start followed by everything pushed since, although
  the buffer is trimmed underneath the cursor.
\<close>

theorem live_frames_delivered_once:
  assumes "following f" and "keeps_up f es" and "\<forall>x \<in> set (pushed es). fr_at x \<noteq> NaN"
  shows "fst (deliver f es) @ drop (f_cursor (snd (deliver f es))) (f_frames (snd (deliver f es))) =
    drop (f_cursor f) (f_frames f) @ pushed es"
  using assms
proof (induction es arbitrary: f)
  case (Cons e es)
  show ?case
  proof (cases e)
    case (LPush x)
    with Cons push_one [of f x] show ?thesis by simp
  next
    case LTake
    with Cons take_following [of f] show ?thesis by (simp add: split_beta Let_def)
  qed
qed simp

theorem live_frames_delivered_once_witness:
  "fst (deliver (new_feed\<lparr>f_source := Live\<rparr>)
      [LPush (FBook (Fin 1) ex_book), LTake, LPush (FBook (Fin 2) ex_book),
       LPush (FBook (Fin 3) ex_book), LTake]) =
   [FBook (Fin 1) ex_book, FBook (Fin 2) ex_book, FBook (Fin 3) ex_book]"
  using live_frames_delivered_once [of "new_feed\<lparr>f_source := Live\<rparr>"
      "[LPush (FBook (Fin 1) ex_book), LTake, LPush (FBook (Fin 2) ex_book),
       LPush (FBook (Fin 3) ex_book), LTake]"]
  by (simp add: following_def cursor_ok_def new_feed_def push_def takeNew_def Let_def MAX_FRAMES_def
      TRIM_def reached_def js_le_def)

end
