(* ===== verification/Gateway.thy ===== *)
theory Gateway
  imports Normalizer Feed "HOL-Library.Char_ord"
begin

text \<open>
  The gateway process, \<^verbatim>\<open>web/gateway/server.ts\<close>: the telemetry subscription with its retry, the
  ring of recent batches, the fan-out to the browsers, the session recorder, and the orders that
  browsers send to the exchange.

  The record \<open>gateway\<close> holds the module's variables and, below them, what the runtime keeps for
  it: the sockets in state \<^verbatim>\<open>OPEN\<close>, the local variables of each call of \<^verbatim>\<open>subscribeTelemetry\<close>,
  the armed retry timers, the remote calls under way with the continuation that waits for them,
  and the log of outputs. The exchange, the browsers and the file system are the environment:
  what they do arrives as events. \<open>None\<close> stands for the end of the process.
\<close>

section \<open>Data\<close>

record recorder =
  rec_file :: string
  rec_first :: "jsnum option"
  rec_count :: nat

datatype unary_req =
  SubmitOrder string string string jsnum jsnum
| CancelOrder string string

datatype call = COrder nat nat | CCancel nat nat string

record submit_reply =
  sr_order_status :: "string field"
  sr_order_id :: "string field"
  sr_quantity :: "jsnum field"
  sr_avg_price :: "jsnum field"
  sr_rejection_reason :: "string field"

datatype gw_effect =
  GSend nat server_msg
| GWrite string server_msg
| GEndFile string
| GUnary nat unary_req
| GSubscribe nat
| GCloseClient nat

record subscription =
  sub_alive :: bool
  sub_ended :: bool

record gateway =
  g_clients :: "nat list"
  g_history :: "wire_batch list"
  g_norm :: normalizer
  g_exchangeUp :: bool
  g_recorder :: "recorder option"
  g_open :: "nat list"
  g_nextSock :: nat
  g_subs :: "(nat, subscription) omap"
  g_nextSub :: nat
  g_retries :: nat
  g_calls :: "(nat, call) omap"
  g_nextCall :: nat
  g_log :: "gw_effect list"

definition HISTORY_MAX :: nat where
  "HISTORY_MAX = 600"

definition new_gateway :: gateway where
  "new_gateway = \<lparr>g_clients = [], g_history = [], g_norm = new_normalizer, g_exchangeUp = False,
     g_recorder = None, g_open = [], g_nextSock = 0, g_subs = [], g_nextSub = 0, g_retries = 0,
     g_calls = [], g_nextCall = 0, g_log = []\<rparr>"

section \<open>The bots\<close>

record bot_spec =
  bs_id :: string
  bs_strategy :: string
  bs_flags :: "string list"

definition ROSTER :: "bot_spec list" where
  "ROSTER =
    [\<lparr>bs_id = ''mm-tight'', bs_strategy = ''market-maker'', bs_flags = [''--mm-spread=0.30'', ''--mm-size=10'']\<rparr>,
     \<lparr>bs_id = ''mm-wide'', bs_strategy = ''market-maker'', bs_flags = [''--mm-spread=1.00'', ''--mm-size=15'']\<rparr>,
     \<lparr>bs_id = ''mom-fast'', bs_strategy = ''momentum'', bs_flags = [''--mom-window=10'', ''--mom-threshold-pct=0.0008'']\<rparr>,
     \<lparr>bs_id = ''mom-slow'', bs_strategy = ''momentum'', bs_flags = [''--mom-window=30'', ''--mom-threshold-pct=0.002'']\<rparr>,
     \<lparr>bs_id = ''mr-1'', bs_strategy = ''mean-reversion'', bs_flags = [''--mr-window=30'', ''--mr-deviation-pct=0.01'']\<rparr>,
     \<lparr>bs_id = ''noise-1'', bs_strategy = ''noise'', bs_flags = [''--noise-action-prob=0.3'']\<rparr>,
     \<lparr>bs_id = ''noise-2'', bs_strategy = ''noise'', bs_flags = [''--noise-action-prob=0.4'', ''--noise-size-max=8'']\<rparr>,
     \<lparr>bs_id = ''noise-3'', bs_strategy = ''noise'', bs_flags = [''--noise-action-prob=0.2'']\<rparr>,
     \<lparr>bs_id = ''noise-4'', bs_strategy = ''noise'', bs_flags = [''--noise-action-prob=0.35'']\<rparr>,
     \<lparr>bs_id = ''replay-1'', bs_strategy = ''replay'', bs_flags = [''--replay-speed=10'']\<rparr>]"

definition hello :: server_msg where
  "hello = SHello (map (\<lambda>b. \<lparr>re_id = bs_id b, re_strategy = bs_strategy b\<rparr>) ROSTER)"

text \<open>The command line of one bot in \<^verbatim>\<open>startDemo\<close>.\<close>

definition bot_argv :: "string \<Rightarrow> string \<Rightarrow> bot_spec \<Rightarrow> string list" where
  "bot_argv exchange replayFile b =
     [''--strategy='' @ bs_strategy b, ''--node-id='' @ bs_id b, ''--server='' @ exchange] @ bs_flags b @
     (if bs_strategy b = ''replay'' then [''--replay-file='' @ replayFile] else [])"

section \<open>Sending\<close>

definition gw_emit :: "gw_effect \<Rightarrow> gateway \<Rightarrow> gateway" where
  "gw_emit e g = g\<lparr>g_log := g_log g @ [e]\<rparr>"

definition gw_send :: "nat \<Rightarrow> server_msg \<Rightarrow> gateway \<Rightarrow> gateway" where
  "gw_send ws m g = (if ws \<in> set (g_open g) then gw_emit (GSend ws m) g else g)"

definition broadcast :: "server_msg \<Rightarrow> gateway \<Rightarrow> gateway" where
  "broadcast m g = g\<lparr>g_log := g_log g @
     map (\<lambda>ws. GSend ws m) (filter (\<lambda>ws. ws \<in> set (g_open g)) (g_clients g))\<rparr>"

definition status :: "gateway \<Rightarrow> server_msg" where
  "status g = SStatus (map_option rec_file (g_recorder g))
     (if g_exchangeUp g then ''connected'' else ''disconnected'')"

section \<open>The recorder\<close>

definition gw_record :: "server_msg \<Rightarrow> jsnum \<Rightarrow> gateway \<Rightarrow> gateway" where
  "gw_record m t g =
     (case g_recorder g of
        None \<Rightarrow> g
      | Some r \<Rightarrow>
          gw_emit (GWrite (rec_file r) m)
            (g\<lparr>g_recorder := Some (r\<lparr>rec_first := (if rec_first r = None then Some t else rec_first r),
                 rec_count := Suc (rec_count r)\<rparr>)\<rparr>))"

text \<open>\<open>file\<close>: the name made from the time of the call.\<close>

definition startRecording :: "string \<Rightarrow> gateway \<Rightarrow> gateway" where
  "startRecording file g =
     (if g_recorder g \<noteq> None then g
      else let g1 = gw_emit (GWrite file hello) g;
               g2 = g1\<lparr>g_recorder := Some \<lparr>rec_file = file, rec_first = None, rec_count = 0\<rparr>\<rparr>
           in broadcast (status g2) g2)"

definition stopRecording :: "gateway \<Rightarrow> gateway" where
  "stopRecording g =
     (case g_recorder g of
        None \<Rightarrow> g
      | Some r \<Rightarrow> let g1 = (gw_emit (GEndFile (rec_file r)) g)\<lparr>g_recorder := None\<rparr>
                  in broadcast (status g1) g1)"

section \<open>The telemetry subscription\<close>

definition subscribeTelemetry :: "gateway \<Rightarrow> gateway" where
  "subscribeTelemetry g =
     gw_emit (GSubscribe (g_nextSub g))
       (g\<lparr>g_subs := omap_set (g_nextSub g) \<lparr>sub_alive = False, sub_ended = False\<rparr> (g_subs g),
          g_nextSub := Suc (g_nextSub g)\<rparr>)"

definition down :: "nat \<Rightarrow> subscription \<Rightarrow> gateway \<Rightarrow> gateway" where
  "down i s g =
     (let g1 = (if sub_alive s \<or> g_exchangeUp g
                then let h = g\<lparr>g_subs := omap_set i (s\<lparr>sub_alive := False\<rparr>) (g_subs g), g_exchangeUp := False\<rparr>
                     in broadcast (status h) h
                else g)
      in (gw_emit (GCloseClient i) g1)\<lparr>g_retries := Suc (g_retries g1)\<rparr>)"

definition on_metadata :: "nat \<Rightarrow> gateway \<Rightarrow> gateway" where
  "on_metadata i g =
     (case omap_get (g_subs g) i of
        None \<Rightarrow> g
      | Some s \<Rightarrow>
          let g1 = g\<lparr>g_subs := omap_set i (s\<lparr>sub_alive := True\<rparr>) (g_subs g), g_exchangeUp := True\<rparr>
          in broadcast (status g1) g1)"

definition on_data :: "raw_batch \<Rightarrow> jsnum \<Rightarrow> gateway \<Rightarrow> gateway" where
  "on_data raw now g =
     (let (batch, n) = normalize (g_norm g) raw now;
          h = g_history g @ [batch];
          h' = (if HISTORY_MAX < length h then drop 1 h else h)
      in gw_record (SBatch batch) (b_at batch)
           (broadcast (SBatch batch) (g\<lparr>g_norm := n, g_history := h'\<rparr>)))"

text \<open>The handler \<^verbatim>\<open>once\<close>, for both \<^verbatim>\<open>error\<close> and \<^verbatim>\<open>end\<close>.\<close>

definition once :: "nat \<Rightarrow> gateway \<Rightarrow> gateway" where
  "once i g =
     (case omap_get (g_subs g) i of
        None \<Rightarrow> g
      | Some s \<Rightarrow>
          if sub_ended s then g
          else let s' = s\<lparr>sub_ended := True\<rparr>
               in down i s' (g\<lparr>g_subs := omap_set i s' (g_subs g)\<rparr>))"

text \<open>The interval timer; it reads \<^verbatim>\<open>Date.now()\<close> once for the message and once for the recorder.\<close>

definition flush_interval :: "jsnum \<Rightarrow> jsnum \<Rightarrow> gateway \<Rightarrow> gateway" where
  "flush_interval now now' g =
     (let (book, n) = flushBook (g_norm g);
          g1 = g\<lparr>g_norm := n\<rparr>
      in case book of
           None \<Rightarrow> g1
         | Some bk \<Rightarrow> gw_record (SBook now bk) now' (broadcast (SBook now bk) g1))"

section \<open>The browsers\<close>

definition on_connection :: "gateway \<Rightarrow> gateway" where
  "on_connection g =
     (let ws = g_nextSock g;
          g1 = g\<lparr>g_nextSock := Suc ws, g_open := ws # g_open g, g_clients := g_clients g @ [ws]\<rparr>
      in gw_send ws (SHistory (g_history g1)) (gw_send ws (status g1) (gw_send ws hello g1)))"

definition on_close :: "nat \<Rightarrow> gateway \<Rightarrow> gateway" where
  "on_close ws g = g\<lparr>g_clients := removeAll ws (g_clients g)\<rparr>"

text \<open>
  A received message after \<^verbatim>\<open>JSON.parse\<close>: the text did not parse, it was \<^verbatim>\<open>null\<close>, or a value
  whose properties are read. The numbers are what \<^verbatim>\<open>Number\<close> makes of the properties; the request
  number is the client's.
\<close>

record in_msg =
  im_t :: "string field"
  im_reqId :: nat
  im_side :: "string field"
  im_type :: "string field"
  im_price :: jsnum
  im_qty :: jsnum
  im_orderId :: string
  im_on :: bool

datatype inbound = Unparsable | JsonNull | InMsg in_msg

definition gw_placeOrder :: "string \<Rightarrow> string field \<Rightarrow> string field \<Rightarrow> jsnum \<Rightarrow> jsnum \<Rightarrow> unary_req" where
  "gw_placeOrder node sd ty price qty =
     SubmitOrder node (if sd = Val ''bid'' then ''BID'' else ''ASK'')
       (if ty = Val ''market'' then ''MARKET'' else ''LIMIT'') price qty"

definition grpcUnary :: "call \<Rightarrow> unary_req \<Rightarrow> gateway \<Rightarrow> gateway" where
  "grpcUnary k req g =
     gw_emit (GUnary (g_nextCall g) req)
       (g\<lparr>g_calls := omap_set (g_nextCall g) k (g_calls g), g_nextCall := Suc (g_nextCall g)\<rparr>)"

definition or_zero :: "jsnum \<Rightarrow> jsnum" where
  "or_zero x = (if x = NaN \<or> js_eq x (Fin 0) then Fin 0 else x)"

definition call_failed :: "string \<Rightarrow> gateway \<Rightarrow> order_result" where
  "call_failed e g =
     \<lparr>or_ok = False, or_orderId = None, or_status = None, or_filled = None, or_avg = None,
      or_reason = Some (if g_exchangeUp g then e else ''exchange is not running'')\<rparr>"

text \<open>
  The handler up to its first \<^verbatim>\<open>await\<close>. \<open>file\<close>: the name a new recording gets (\<open>Inr\<close>), or the message
  of the error when the directory for it cannot be made (\<open>Inl\<close>), which the handler catches.
\<close>

definition on_message :: "nat \<Rightarrow> string + string \<Rightarrow> inbound \<Rightarrow> gateway \<Rightarrow> gateway option" where
  "on_message ws file inb g =
     (case inb of
        Unparsable \<Rightarrow> Some g
      | JsonNull \<Rightarrow> None
      | InMsg m \<Rightarrow>
          if im_t m = Val ''order'' then
            Some (grpcUnary (COrder ws (im_reqId m))
              (gw_placeOrder ''human'' (im_side m) (im_type m) (or_zero (im_price m)) (js_floor (im_qty m))) g)
          else if im_t m = Val ''cancel'' then
            Some (grpcUnary (CCancel ws (im_reqId m) (im_orderId m)) (CancelOrder ''human'' (im_orderId m)) g)
          else if im_t m = Val ''record'' then
            Some (if \<not> im_on m then stopRecording g
              else case file of
                Inr name \<Rightarrow> startRecording name g
              | Inl e \<Rightarrow> if g_recorder g \<noteq> None then g else gw_send ws (SResult (im_reqId m) (call_failed e g)) g)
          else Some g)"

definition lower :: "string \<Rightarrow> string" where
  "lower s = map (\<lambda>c. if CHR ''A'' \<le> c \<and> c \<le> CHR ''Z'' then char_of (of_char c + 32 :: nat) else c) s"

text \<open>The rest of the handler, when the remote call answers (\<open>Inr\<close>) or fails (\<open>Inl\<close>, with the
  message of the error).\<close>

definition order_answer :: "submit_reply \<Rightarrow> order_result" where
  "order_answer r =
     \<lparr>or_ok = True, or_orderId = field_option (sr_order_id r),
      or_status = Some (lower (nullish (sr_order_status r) [])),
      or_filled = Some (nullish (sr_quantity r) (Fin 0)), or_avg = Some (nullish (sr_avg_price r) (Fin 0)),
      or_reason = Some (nullish (sr_rejection_reason r) [])\<rparr>"

definition cancel_answer :: "string \<Rightarrow> bool field \<Rightarrow> order_result" where
  "cancel_answer oid suc =
     \<lparr>or_ok = (suc = Val True), or_orderId = Some oid, or_status = None, or_filled = None, or_avg = None,
      or_reason = Some (if suc = Val True then [] else ''order not found'')\<rparr>"

definition order_done :: "nat \<Rightarrow> string + submit_reply \<Rightarrow> gateway \<Rightarrow> gateway" where
  "order_done i res g =
     (case omap_get (g_calls g) i of
        Some (COrder ws rq) \<Rightarrow>
          gw_send ws (SResult rq (case res of Inl e \<Rightarrow> call_failed e g | Inr r \<Rightarrow> order_answer r))
            (g\<lparr>g_calls := omap_del i (g_calls g)\<rparr>)
      | _ \<Rightarrow> g)"

definition cancel_done :: "nat \<Rightarrow> string + bool field \<Rightarrow> gateway \<Rightarrow> gateway" where
  "cancel_done i res g =
     (case omap_get (g_calls g) i of
        Some (CCancel ws rq oid) \<Rightarrow>
          gw_send ws (SResult rq (case res of Inl e \<Rightarrow> call_failed e g | Inr s \<Rightarrow> cancel_answer oid s))
            (g\<lparr>g_calls := omap_del i (g_calls g)\<rparr>)
      | _ \<Rightarrow> g)"

section \<open>Everything that can happen to the gateway\<close>

definition gw_start :: "string option \<Rightarrow> gateway" where
  "gw_start record =
     subscribeTelemetry (case record of None \<Rightarrow> new_gateway | Some file \<Rightarrow> startRecording file new_gateway)"

datatype gw_event =
  GConnection
| GClosing nat
| GClosed nat
| GMessage nat "string + string" inbound
| GOrderDone nat "string + submit_reply"
| GCancelDone nat "string + bool field"
| GMetadata nat
| GData nat raw_batch jsnum
| GEnded nat
| GRetry
| GFlush jsnum jsnum

fun gw_exec :: "gw_event \<Rightarrow> gateway \<Rightarrow> gateway option" where
  "gw_exec GConnection g = Some (on_connection g)"
| "gw_exec (GClosing ws) g = Some (g\<lparr>g_open := removeAll ws (g_open g)\<rparr>)"
| "gw_exec (GClosed ws) g = Some (on_close ws (g\<lparr>g_open := removeAll ws (g_open g)\<rparr>))"
| "gw_exec (GMessage ws file m) g = on_message ws file m g"
| "gw_exec (GOrderDone i r) g = Some (order_done i r g)"
| "gw_exec (GCancelDone i r) g = Some (cancel_done i r g)"
| "gw_exec (GMetadata i) g = Some (on_metadata i g)"
| "gw_exec (GData i raw now) g = Some (on_data raw now g)"
| "gw_exec (GEnded i) g = Some (once i g)"
| "gw_exec GRetry g = Some (subscribeTelemetry (g\<lparr>g_retries := g_retries g - 1\<rparr>))"
| "gw_exec (GFlush now now') g = Some (flush_interval now now' g)"

text \<open>
  What the runtime delivers: a telemetry stream reports nothing before it was opened or after it
  ended, and a timer fires only when it was armed.
\<close>

definition live_sub :: "gateway \<Rightarrow> nat \<Rightarrow> bool" where
  "live_sub g i \<longleftrightarrow> (case omap_get (g_subs g) i of None \<Rightarrow> False | Some s \<Rightarrow> \<not> sub_ended s)"

fun enabled :: "gw_event \<Rightarrow> gateway \<Rightarrow> bool" where
  "enabled (GMetadata i) g = live_sub g i"
| "enabled (GData i raw now) g = live_sub g i"
| "enabled GRetry g = (0 < g_retries g)"
| "enabled _ g = True"

inductive gw_reach :: "gateway \<Rightarrow> bool" where
  start: "gw_reach (gw_start record)"
| step: "gw_reach g \<Longrightarrow> enabled e g \<Longrightarrow> gw_exec e g = Some g' \<Longrightarrow> gw_reach g'"

section \<open>Runs\<close>

abbreviation gw_run :: "gw_event list \<Rightarrow> gateway \<Rightarrow> gateway option" where
  "gw_run \<equiv> prun gw_exec"

text \<open>What the events mean to the normalizer.\<close>

fun norm_events :: "gw_event list \<Rightarrow> norm_event list" where
  "norm_events [] = []"
| "norm_events (GData i raw now # es) = Message raw now # norm_events es"
| "norm_events (GFlush now now' # es) = Flush # norm_events es"
| "norm_events (_ # es) = norm_events es"

definition last_n :: "nat \<Rightarrow> 'a list \<Rightarrow> 'a list" where
  "last_n k xs = drop (length xs - k) xs"

lemma last_n_id: "length xs \<le> k \<Longrightarrow> last_n k xs = xs"
  by (simp add: last_n_def)

lemma last_n_idem: "last_n k (last_n k xs @ ys) = last_n k (xs @ ys)"
proof (cases "length xs \<le> k")
  case False
  then have "length (last_n k xs) = k" by (simp add: last_n_def)
  then have "last_n k (last_n k xs @ ys) = drop (length ys) (drop (length xs - k) xs @ ys)"
    by (simp add: last_n_def)
  also have "\<dots> = last_n k (xs @ ys)"
    using False by (simp add: last_n_def add.commute)
  finally show ?thesis .
qed (simp add: last_n_id)

lemma length_last_n: "length (last_n k xs) \<le> k"
  by (simp add: last_n_def)

text \<open>The operations that leave the normalizer and the history alone.\<close>

definition core :: "gateway \<Rightarrow> normalizer \<times> wire_batch list" where
  "core g = (g_norm g, g_history g)"

lemmas gw_defs = gw_emit_def gw_send_def broadcast_def gw_record_def startRecording_def
  stopRecording_def subscribeTelemetry_def down_def on_metadata_def once_def on_connection_def
  on_close_def grpcUnary_def order_done_def cancel_done_def

lemma core_simps [simp]:
  "core (gw_emit e g) = core g" "core (gw_send ws m g) = core g" "core (broadcast m g) = core g"
  "core (gw_record m t g) = core g" "core (startRecording file g) = core g"
  "core (stopRecording g) = core g" "core (subscribeTelemetry g) = core g"
  "core (down i s g) = core g" "core (on_metadata i g) = core g" "core (once i g) = core g"
  "core (on_connection g) = core g" "core (on_close ws g) = core g"
  "core (order_done i r g) = core g" "core (cancel_done i r' g) = core g" "core (grpcUnary k req g) = core g"
  by (simp_all add: core_def gw_defs Let_def split: option.split call.split)

lemma core_update [simp]:
  "core (g\<lparr>g_open := os\<rparr>) = core g" "core (g\<lparr>g_retries := k\<rparr>) = core g"
  by (simp_all add: core_def)

lemma on_message_core: "on_message ws file m g = Some g' \<Longrightarrow> core g' = core g"
  by (auto simp: on_message_def split: inbound.splits if_splits sum.splits)

lemma on_data_core:
  assumes "length (g_history g) \<le> HISTORY_MAX"
  shows "g_norm (on_data raw now g) = snd (normalize (g_norm g) raw now)"
    and "g_history (on_data raw now g) = last_n HISTORY_MAX (g_history g @ [fst (normalize (g_norm g) raw now)])"
proof -
  let ?h = "g_history g @ [fst (normalize (g_norm g) raw now)]"
  have "core (on_data raw now g) =
      (snd (normalize (g_norm g) raw now), if HISTORY_MAX < length ?h then drop 1 ?h else ?h)"
    by (simp add: on_data_def split_beta Let_def) (simp add: core_def)
  moreover have "(if HISTORY_MAX < length ?h then drop 1 ?h else ?h) = last_n HISTORY_MAX ?h"
  proof (cases "HISTORY_MAX < length ?h")
    case True
    then have "length ?h - HISTORY_MAX = 1" using assms by simp
    with True show ?thesis by (simp only: last_n_def if_True)
  qed (simp add: last_n_id)
  ultimately show "g_norm (on_data raw now g) = snd (normalize (g_norm g) raw now)"
    "g_history (on_data raw now g) = last_n HISTORY_MAX ?h"
    by (simp_all add: core_def)
qed

lemma flush_core:
  "g_norm (flush_interval now now' g) = snd (flushBook (g_norm g))"
  "g_history (flush_interval now now' g) = g_history g"
proof -
  have "core (flush_interval now now' g) = (snd (flushBook (g_norm g)), g_history g)"
    by (simp add: flush_interval_def split_beta Let_def split: option.split) (simp add: core_def)
  then show "g_norm (flush_interval now now' g) = snd (flushBook (g_norm g))"
    "g_history (flush_interval now now' g) = g_history g"
    by (simp_all add: core_def)
qed

lemma norm_refinement:
  assumes "gw_run es g = Some g'" and "length (g_history g) \<le> HISTORY_MAX"
  shows "g_norm g' = run norm_step (g_norm g) (norm_events es) \<and>
    g_history g' = last_n HISTORY_MAX (g_history g @ norm_batches (g_norm g) (norm_events es))"
  using assms
proof (induction es arbitrary: g)
  case Nil
  then show ?case by (simp add: last_n_id)
next
  case (Cons e es)
  obtain g1 where g1: "gw_exec e g = Some g1" "gw_run es g1 = Some g'"
    using Cons.prems(1) by (auto split: option.splits)
  show ?case
  proof (cases "(\<exists>i raw now. e = GData i raw now) \<or> (\<exists>now now'. e = GFlush now now')")
    case True
    then show ?thesis
      using g1 Cons.IH [of g1] Cons.prems(2) on_data_core [OF Cons.prems(2)] 
      by (auto simp: length_last_n last_n_idem flush_core)
  next
    case False
    then have "core g1 = core g" "norm_events (e # es) = norm_events es"
      using g1(1) by (cases e; auto dest: on_message_core)+
    then show ?thesis using Cons.IH [OF g1(2)] Cons.prems(2) by (simp add: core_def)
  qed
qed

section \<open>What a browser and a recording receive\<close>

definition picked :: "(gw_effect \<Rightarrow> 'a option) \<Rightarrow> gateway \<Rightarrow> 'a list" where
  "picked p g = List.map_filter p (g_log g)"

fun sent_to :: "nat \<Rightarrow> gw_effect \<Rightarrow> server_msg option" where
  "sent_to ws (GSend w m) = (if w = ws then Some m else None)"
| "sent_to ws _ = None"

fun written_to :: "string \<Rightarrow> gw_effect \<Rightarrow> server_msg option" where
  "written_to file (GWrite f m) = (if f = file then Some m else None)"
| "written_to file _ = None"

abbreviation sent :: "nat \<Rightarrow> gateway \<Rightarrow> server_msg list" where
  "sent ws \<equiv> picked (sent_to ws)"

abbreviation written :: "string \<Rightarrow> gateway \<Rightarrow> server_msg list" where
  "written file \<equiv> picked (written_to file)"

text \<open>The stream of frames the telemetry gives, whoever listens.\<close>

fun gw_stream :: "normalizer \<Rightarrow> gw_event list \<Rightarrow> server_msg list" where
  "gw_stream n [] = []"
| "gw_stream n (GData i raw now # es) =
     SBatch (fst (normalize n raw now)) # gw_stream (snd (normalize n raw now)) es"
| "gw_stream n (GFlush now now' # es) =
     (case fst (flushBook n) of None \<Rightarrow> [] | Some bk \<Rightarrow> [SBook now bk]) @ gw_stream (snd (flushBook n)) es"
| "gw_stream n (_ # es) = gw_stream n es"

fun is_frame :: "server_msg \<Rightarrow> bool" where
  "is_frame (SBatch b) = True"
| "is_frame (SBook a bk) = True"
| "is_frame _ = False"

fun is_note :: "server_msg \<Rightarrow> bool" where
  "is_note (SStatus r x) = True"
| "is_note (SResult r x) = True"
| "is_note _ = False"

lemma picked_update [simp]:
  "picked p (g\<lparr>g_clients := a\<rparr>) = picked p g" "picked p (g\<lparr>g_history := b\<rparr>) = picked p g"
  "picked p (g\<lparr>g_norm := c\<rparr>) = picked p g" "picked p (g\<lparr>g_exchangeUp := d\<rparr>) = picked p g"
  "picked p (g\<lparr>g_recorder := e\<rparr>) = picked p g" "picked p (g\<lparr>g_open := f\<rparr>) = picked p g"
  "picked p (g\<lparr>g_nextSock := h\<rparr>) = picked p g" "picked p (g\<lparr>g_subs := i\<rparr>) = picked p g"
  "picked p (g\<lparr>g_nextSub := j\<rparr>) = picked p g" "picked p (g\<lparr>g_retries := k\<rparr>) = picked p g"
  "picked p (g\<lparr>g_calls := l\<rparr>) = picked p g" "picked p (g\<lparr>g_nextCall := m\<rparr>) = picked p g"
  by (simp_all add: picked_def)

lemma picked_emit [simp]:
  "picked p (gw_emit e g) = picked p g @ (case p e of None \<Rightarrow> [] | Some x \<Rightarrow> [x])"
  by (simp add: picked_def gw_emit_def List.map_filter_def split: option.split)

lemma map_filter_sends:
  "List.map_filter (sent_to ws) (map (\<lambda>w. GSend w m) ws') = replicate (count_list ws' ws) m"
  by (induction ws') (simp_all add: List.map_filter_def)

lemma sent_broadcast:
  assumes "distinct (g_clients g)"
  shows "sent ws (broadcast m g) = sent ws g @ (if ws \<in> set (g_clients g) \<inter> set (g_open g) then [m] else [])"
proof -
  have "count_list (filter (\<lambda>w. w \<in> set (g_open g)) (g_clients g)) ws =
      (if ws \<in> set (g_clients g) \<inter> set (g_open g) then 1 else 0)"
    using assms by (simp add: distinct_count_list)
  then show ?thesis
    by (simp add: picked_def broadcast_def map_filter_append map_filter_sends)
qed

lemma written_broadcast [simp]: "written file (broadcast m g) = written file g"
proof -
  have "List.map_filter (written_to file) (map (\<lambda>w. GSend w m) ws) = []" for ws
    by (induction ws) (simp_all add: List.map_filter_def)
  then show ?thesis by (simp add: picked_def broadcast_def map_filter_append)
qed

text \<open>Browsers are numbered afresh, and each is listed once.\<close>

definition clients_ok :: "gateway \<Rightarrow> bool" where
  "clients_ok g \<longleftrightarrow> distinct (g_clients g) \<and> (\<forall>ws \<in> set (g_clients g) \<union> set (g_open g). ws < g_nextSock g)"

lemma clients_ok_simps [simp]:
  "clients_ok (gw_emit e g) = clients_ok g" "clients_ok (gw_send ws m g) = clients_ok g"
  "clients_ok (broadcast m g) = clients_ok g" "clients_ok (gw_record m t g) = clients_ok g"
  "clients_ok (startRecording file g) = clients_ok g" "clients_ok (stopRecording g) = clients_ok g"
  "clients_ok (subscribeTelemetry g) = clients_ok g" "clients_ok (down i s g) = clients_ok g"
  "clients_ok (on_metadata i g) = clients_ok g" "clients_ok (once i g) = clients_ok g"
  "clients_ok (order_done i r g) = clients_ok g" "clients_ok (cancel_done i r' g) = clients_ok g"
  "clients_ok (grpcUnary k req g) = clients_ok g" "clients_ok (g\<lparr>g_norm := n\<rparr>) = clients_ok g"
  "clients_ok (g\<lparr>g_history := h\<rparr>) = clients_ok g" "clients_ok (g\<lparr>g_retries := j\<rparr>) = clients_ok g"
  by (simp_all add: clients_ok_def gw_defs Let_def split: option.split call.split)

lemma exec_clients_ok: "gw_exec e g = Some g' \<Longrightarrow> clients_ok g \<Longrightarrow> clients_ok g'"
proof (cases e)
  case GConnection
  assume "gw_exec e g = Some g'" "clients_ok g"
  with GConnection show ?thesis
    by (auto simp: on_connection_def Let_def) (auto simp: clients_ok_def less_SucI)
next
  case (GMessage ws fn m)
  assume "gw_exec e g = Some g'" "clients_ok g"
  with GMessage show ?thesis by (auto simp: on_message_def split: inbound.splits if_splits sum.splits)
qed (auto simp: on_data_def flush_interval_def split_beta Let_def on_close_def split: option.splits,
     auto simp: clients_ok_def distinct_removeAll)


text \<open>A browser that is connected and stays connected.\<close>

definition joined :: "nat \<Rightarrow> gateway \<Rightarrow> bool" where
  "joined ws g \<longleftrightarrow> ws \<in> set (g_clients g) \<and> ws \<in> set (g_open g) \<and> clients_ok g"

definition stays :: "nat \<Rightarrow> gw_event list \<Rightarrow> bool" where
  "stays ws es \<longleftrightarrow> GClosing ws \<notin> set es \<and> GClosed ws \<notin> set es"

lemma same_sockets [simp]:
  "g_clients (gw_emit e g) = g_clients g" "g_open (gw_emit e g) = g_open g"
  "g_clients (broadcast m g) = g_clients g" "g_open (broadcast m g) = g_open g"
  "g_clients (gw_send ws m g) = g_clients g" "g_open (gw_send ws m g) = g_open g"
  "g_clients (gw_record m t g) = g_clients g" "g_open (gw_record m t g) = g_open g"
  by (simp_all add: gw_defs split: option.split)

lemma sent_record [simp]: "sent ws (gw_record m t g) = sent ws g"
  by (simp add: gw_record_def split: option.split)

lemma exec_joined:
  assumes "gw_exec e g = Some g'" and "joined ws g" and "stays ws [e]"
  shows "joined ws g'"
proof -
  have "clients_ok g'" using exec_clients_ok [OF assms(1)] assms(2) by (simp add: joined_def)
  moreover have "ws \<in> set (g_clients g') \<and> ws \<in> set (g_open g')"
    using assms
    by (cases e)
       (auto simp: joined_def stays_def on_message_def startRecording_def stopRecording_def
         grpcUnary_def on_data_def flush_interval_def split_beta on_connection_def on_close_def
         subscribeTelemetry_def down_def on_metadata_def once_def order_done_def cancel_done_def Let_def
         split: option.splits inbound.splits if_splits call.splits sum.splits)
  ultimately show ?thesis by (simp add: joined_def)
qed

lemma sent_joined:
  "joined ws g \<Longrightarrow> g_clients h = g_clients g \<Longrightarrow> g_open h = g_open g \<Longrightarrow> sent ws (broadcast m h) = sent ws h @ [m]"
  by (simp add: joined_def clients_ok_def sent_broadcast)

lemma sent_send: "sent ws (gw_send w m g) = sent ws g @ (if w = ws \<and> ws \<in> set (g_open g) then [m] else [])"
  by (simp add: gw_send_def)

lemma exec_sent:
  assumes "gw_exec e g = Some g'" and "joined ws g"
  shows "\<exists>ms. sent ws g' = sent ws g @ ms \<and> filter is_frame ms = gw_stream (g_norm g) [e] \<and>
    (\<forall>m \<in> set ms. is_frame m \<or> is_note m)"
proof -
  have fresh: "g_nextSock g \<noteq> ws" using assms(2) by (auto simp: joined_def clients_ok_def)
  show ?thesis
    using assms
    by (cases e)
       (auto simp: sent_joined [OF assms(2)] sent_send fresh status_def on_message_def startRecording_def stopRecording_def
         grpcUnary_def on_data_def flush_interval_def split_beta on_connection_def on_close_def
         subscribeTelemetry_def down_def on_metadata_def once_def order_done_def cancel_done_def Let_def
         split: option.splits inbound.splits if_splits call.splits sum.splits)
qed

lemma gw_stream_Cons: "gw_stream n (e # es) = gw_stream n [e] @ gw_stream (run norm_step n (norm_events [e])) es"
  by (cases e) (simp_all split: option.split)

lemma exec_norm: "gw_exec e g = Some g' \<Longrightarrow> g_norm g' = run norm_step (g_norm g) (norm_events [e])"
proof (cases e)
  case (GData i raw now)
  assume "gw_exec e g = Some g'"
  with GData have "core g' = core (on_data raw now g)" by simp
  then show ?thesis using GData by (simp add: on_data_def split_beta Let_def) (simp add: core_def)
next
  case (GFlush now now')
  assume "gw_exec e g = Some g'"
  with GFlush show ?thesis by (auto simp: flush_core)
next
  case (GMessage ws fn m)
  assume "gw_exec e g = Some g'"
  with GMessage show ?thesis using on_message_core [of ws fn m g g'] by (simp add: core_def)
qed (use core_simps core_update in \<open>fastforce simp: core_def\<close>)+

lemma run_sent:
  assumes "gw_run es g = Some g'" and "joined ws g" and "stays ws es"
  shows "\<exists>ms. sent ws g' = sent ws g @ ms \<and> filter is_frame ms = gw_stream (g_norm g) es \<and>
    (\<forall>m \<in> set ms. is_frame m \<or> is_note m)"
  using assms
proof (induction es arbitrary: g)
  case (Cons e es)
  obtain g1 where g1: "gw_exec e g = Some g1" "gw_run es g1 = Some g'"
    using Cons.prems(1) by (auto split: option.splits)
  have st: "stays ws [e]" "stays ws es" using Cons.prems(3) by (auto simp: stays_def)
  obtain ms where ms: "sent ws g1 = sent ws g @ ms" "filter is_frame ms = gw_stream (g_norm g) [e]"
    "\<forall>m \<in> set ms. is_frame m \<or> is_note m"
    using exec_sent [OF g1(1) Cons.prems(2)] by blast
  obtain ms' where ms': "sent ws g' = sent ws g1 @ ms'" "filter is_frame ms' = gw_stream (g_norm g1) es"
    "\<forall>m \<in> set ms'. is_frame m \<or> is_note m"
    using Cons.IH [OF g1(2) exec_joined [OF g1(1) Cons.prems(2) st(1)] st(2)] by blast
  show ?case
    using ms ms' gw_stream_Cons [of "g_norm g" e es] exec_norm [OF g1(1)]
    by (intro exI [of _ "ms @ ms'"]) auto
qed simp

text \<open>
  Nothing is lost, duplicated or reordered on the way to a browser: whatever else happens,
  the frames a connected browser receives are exactly the stream the normalizer makes of the
  telemetry, in its order.
\<close>

lemma browsers_receive_the_stream:
  assumes "gw_run es g = Some g'" and "joined ws g" and "stays ws es"
  shows "filter is_frame (sent ws g') = filter is_frame (sent ws g) @ gw_stream (g_norm g) es"
  using run_sent [OF assms] by auto


text \<open>A telemetry message with one trade, for the examples.\<close>

definition ex_raw :: "rat \<Rightarrow> raw_batch" where
  "ex_raw q = \<lparr>r_timestamp = Val (Fin q), r_order = Undefined, r_trace = Undefined, r_trades = Undefined,
     r_top_of_book = Undefined, r_book = Val \<lparr>rk_bids = Undefined, rk_asks = Undefined\<rparr>\<rparr>"

definition ex_gateway :: gateway where
  "ex_gateway = on_connection (on_metadata 0 (gw_start None))"

lemma ex_gateway_joined: "joined 0 ex_gateway"
  by code_simp

lemma ex_gateway_norm: "g_norm ex_gateway = new_normalizer"
  by code_simp

lemma ex_gateway_sent: "filter is_frame (sent 0 ex_gateway) = []"
  by code_simp

lemma normalize_at [norm_simps]: "b_at (fst (normalize n raw now)) = num (r_timestamp raw)"
  by (simp add: normalize_def split_beta Let_def)

lemma normalize_lastBookAt [norm_simps]:
  "n_lastBookAt (snd (normalize n raw now)) =
     n_lastBookAt (snd (emit_book (r_book raw) (trades_of raw \<noteq> []) now n))"
  by (simp add: normalize_def trades_of_def Let_def split_beta normalize_trades_empty_iff emit_book_def
      split: field.split)

lemma ex_raw_simps:
  "r_timestamp (ex_raw q) = Val (Fin q)" "trades_of (ex_raw q) = []"
  "r_book (ex_raw q) = Val \<lparr>rk_bids = Undefined, rk_asks = Undefined\<rparr>"
  by (simp_all add: ex_raw_def trades_of_def)

section \<open>Recording a session\<close>

definition recording_to :: "string \<Rightarrow> gateway \<Rightarrow> bool" where
  "recording_to fn g \<longleftrightarrow> (case g_recorder g of None \<Rightarrow> False | Some r \<Rightarrow> rec_file r = fn)"

text \<open>Nobody asks to stop the recording.\<close>

fun stops :: "gw_event \<Rightarrow> bool" where
  "stops (GMessage ws fn (InMsg m)) = (im_t m = Val ''record'' \<and> \<not> im_on m)"
| "stops _ = False"

lemma same_recorder [simp]:
  "g_recorder (gw_emit e g) = g_recorder g" "g_recorder (broadcast m g) = g_recorder g"
  "g_recorder (gw_send ws m g) = g_recorder g"
  by (simp_all add: gw_defs)

lemma written_send [simp]: "written fn (gw_send ws m g) = written fn g"
  by (simp add: gw_send_def)

lemma recording_toI: "g_recorder g = Some r \<Longrightarrow> recording_to (rec_file r) g"
  by (simp add: recording_to_def)

lemma record_written:
  assumes "g_recorder g = Some r"
  shows "written (rec_file r) (gw_record m t g) = written (rec_file r) g @ [m]"
    and "recording_to (rec_file r) (gw_record m t g)"
  using assms by (simp_all add: gw_record_def recording_to_def)

lemma exec_recording:
  assumes "gw_exec e g = Some g'" and "recording_to fn g" and "\<not> stops e"
  shows "recording_to fn g' \<and> written fn g' = written fn g @ gw_stream (g_norm g) [e]"
proof -
  obtain r where r: "g_recorder g = Some r" "fn = rec_file r"
    using assms(2) by (auto simp: recording_to_def split: option.splits)
  show ?thesis
  proof (cases "(\<exists>i raw now. e = GData i raw now) \<or> (\<exists>now now'. e = GFlush now now')")
    case True
    then show ?thesis
      using assms(1) r
      by (auto simp: on_data_def flush_interval_def split_beta Let_def record_written recording_toI
          split: option.splits)
  next
    case False
    then show ?thesis
      using assms(1,3) r
      by (cases e)
         (auto simp: recording_to_def on_message_def startRecording_def grpcUnary_def
           on_connection_def on_close_def subscribeTelemetry_def down_def on_metadata_def once_def
           order_done_def cancel_done_def Let_def
           split: option.splits inbound.splits if_splits call.splits sum.splits)
  qed
qed

lemma run_recording:
  assumes "gw_run es g = Some g'" and "recording_to fn g" and "\<forall>e \<in> set es. \<not> stops e"
  shows "written fn g' = written fn g @ gw_stream (g_norm g) es"
  using assms
proof (induction es arbitrary: g)
  case (Cons e es)
  obtain g1 where g1: "gw_exec e g = Some g1" "gw_run es g1 = Some g'"
    using Cons.prems(1) by (auto split: option.splits)
  have "\<not> stops e" using Cons.prems(3) by simp
  note rec = exec_recording [OF g1(1) Cons.prems(2) this]
  show ?case
    using Cons.IH [OF g1(2)] rec Cons.prems(3) gw_stream_Cons [of "g_norm g" e es] exec_norm [OF g1(1)]
    by simp
qed simp

lemma recording_frames_append [simp]: "recording_frames (xs @ ys) = recording_frames xs @ recording_frames ys"
  by (induction xs rule: recording_frames.induct) simp_all

text \<open>
  C17. A recording replays what the browsers saw. The lines a recording holds are the greeting and
  then the stream of frames since it was started; a browser that loads it gets the roster and
  exactly those frames, in order, from the start and playing at normal speed, as long as they
  fit the buffer.
\<close>

theorem recording_round_trip:
  assumes "g_recorder g = None" and "written fn g = []"
    and "gw_run es (startRecording fn g) = Some g'" and "\<forall>e \<in> set es. \<not> stops e"
    and "f_source f \<noteq> Live" and "length (recording_frames (gw_stream (g_norm g) es)) \<le> MAX_FRAMES + TRIM"
  shows "let f' = useReplay_done pn (Some (written fn g')) f in
    f_frames f' = recording_frames (gw_stream (g_norm g) es) \<and>
    f_roster f' = map (\<lambda>b. \<lparr>re_id = bs_id b, re_strategy = bs_strategy b\<rparr>) ROSTER \<and>
    f_source f' = Replay \<and> f_clockMode f' = Play \<and> f_cursor f' = 0 \<and> f_vt f' = firstAt f'"
proof -
  let ?g = "startRecording fn g"
  have g: "recording_to fn ?g" "g_norm ?g = g_norm g" "written fn ?g = [hello]"
    using assms(1,2) core_simps(5) [of fn g]
    by (simp_all add: startRecording_def recording_to_def Let_def core_def)
  have w: "written fn g' = hello # gw_stream (g_norm g) es"
    using run_recording [OF assms(3) g(1) assms(4)] g by simp
  have "recording_roster r ms = r" if "\<forall>m \<in> set ms. is_frame m" for r ms
    using that by (induction r ms rule: recording_roster.induct) simp_all
  moreover have "\<forall>m \<in> set (gw_stream n es). is_frame m" for n
    by (induction n es rule: gw_stream.induct) (auto split: option.splits)
  ultimately show ?thesis
    using w assms(5,6)
    by (simp add: useReplay_done_def hello_def push_def feed_reset_def Let_def bump_simps set_anchor_def
        bump_def firstAt_def)
qed

theorem recording_round_trip_witness:
  "\<exists>g'. gw_run [GData 0 (ex_raw 1) (Fin 100), GConnection] (startRecording ''s1'' ex_gateway) = Some g' \<and>
     map fr_at (f_frames (useReplay_done (\<lambda>_. Fin 0) (Some (written ''s1'' g')) new_feed)) = [Fin 1]"
proof -
  obtain g' where g': "gw_run [GData 0 (ex_raw 1) (Fin 100), GConnection] (startRecording ''s1'' ex_gateway) = Some g'"
    by simp
  have "g_recorder ex_gateway = None" "written ''s1'' ex_gateway = []" by code_simp+
  from recording_round_trip [OF this g', of new_feed "\<lambda>_. Fin 0"] g'
  show ?thesis by (simp add: new_feed_def MAX_FRAMES_def Let_def norm_simps ex_raw_simps wire_simps)
qed

section \<open>What holds in every reachable state\<close>

fun is_status :: "server_msg \<Rightarrow> bool" where
  "is_status (SStatus r x) = True"
| "is_status _ = False"

definition last_status :: "nat \<Rightarrow> gateway \<Rightarrow> server_msg option" where
  "last_status ws g = last_opt (filter is_status (sent ws g))"

text \<open>Every open browser was last told what is the case.\<close>

definition informed :: "gateway \<Rightarrow> bool" where
  "informed g \<longleftrightarrow> clients_ok g \<and>
     (\<forall>ws \<in> set (g_clients g) \<inter> set (g_open g). last_status ws g = Some (status g))"

lemma same_nextSock [simp]:
  "g_nextSock (gw_emit e g) = g_nextSock g" "g_nextSock (broadcast m g) = g_nextSock g"
  "g_nextSock (gw_send ws m g) = g_nextSock g"
  by (simp_all add: gw_defs)

lemma clients_ok_update [simp]:
  "clients_ok (g\<lparr>g_calls := l\<rparr>) = clients_ok g" "clients_ok (g\<lparr>g_nextCall := nc\<rparr>) = clients_ok g"
  "clients_ok (g\<lparr>g_recorder := e\<rparr>) = clients_ok g" "clients_ok (g\<lparr>g_exchangeUp := d\<rparr>) = clients_ok g"
  "clients_ok (g\<lparr>g_subs := ss\<rparr>) = clients_ok g" "clients_ok (g\<lparr>g_nextSub := j\<rparr>) = clients_ok g"
  by (simp_all add: clients_ok_def)

lemma last_opt_single: "last_opt [x] = Some x"
  by (simp add: last_opt_def)

lemma last_status_update [simp]:
  "last_status ws (gw_emit (GWrite fn m) g) = last_status ws g" "last_status ws (gw_emit (GEndFile fn) g) = last_status ws g"
  "last_status ws (gw_emit (GUnary i req) g) = last_status ws g"
  "last_status ws (gw_emit (GSubscribe i) g) = last_status ws g"
  "last_status ws (gw_emit (GCloseClient i) g) = last_status ws g"
  "last_status ws (gw_record m t g) = last_status ws g"
  "last_status ws (g\<lparr>g_clients := a\<rparr>) = last_status ws g" "last_status ws (g\<lparr>g_history := b\<rparr>) = last_status ws g"
  "last_status ws (g\<lparr>g_norm := c\<rparr>) = last_status ws g" "last_status ws (g\<lparr>g_exchangeUp := d\<rparr>) = last_status ws g"
  "last_status ws (g\<lparr>g_recorder := e\<rparr>) = last_status ws g" "last_status ws (g\<lparr>g_open := f\<rparr>) = last_status ws g"
  "last_status ws (g\<lparr>g_nextSock := h\<rparr>) = last_status ws g" "last_status ws (g\<lparr>g_subs := ss\<rparr>) = last_status ws g"
  "last_status ws (g\<lparr>g_nextSub := j\<rparr>) = last_status ws g" "last_status ws (g\<lparr>g_retries := k\<rparr>) = last_status ws g"
  "last_status ws (g\<lparr>g_calls := l\<rparr>) = last_status ws g" "last_status ws (g\<lparr>g_nextCall := nc\<rparr>) = last_status ws g"
  by (simp_all add: last_status_def)

lemma status_update [simp]:
  "status (gw_emit ef g) = status g" "status (broadcast m' g) = status g" "status (gw_send ws m' g) = status g"
  "status (gw_record m t g) = status g"
  "status (g\<lparr>g_clients := a\<rparr>) = status g" "status (g\<lparr>g_history := b\<rparr>) = status g"
  "status (g\<lparr>g_norm := c\<rparr>) = status g" "status (g\<lparr>g_open := f\<rparr>) = status g"
  "status (g\<lparr>g_nextSock := h\<rparr>) = status g" "status (g\<lparr>g_subs := ss\<rparr>) = status g"
  "status (g\<lparr>g_nextSub := j\<rparr>) = status g" "status (g\<lparr>g_retries := k\<rparr>) = status g"
  "status (g\<lparr>g_calls := l\<rparr>) = status g" "status (g\<lparr>g_nextCall := nc\<rparr>) = status g"
  by (simp_all add: status_def gw_defs split: option.split)

lemma last_status_broadcast:
  "distinct (g_clients g) \<Longrightarrow> last_status ws (broadcast m g) =
     (if is_status m \<and> ws \<in> set (g_clients g) \<inter> set (g_open g) then Some m else last_status ws g)"
  by (simp add: last_status_def sent_broadcast last_opt_single)

lemma last_status_send:
  "last_status ws (gw_send w m g) =
     (if is_status m \<and> w = ws \<and> ws \<in> set (g_open g) then Some m else last_status ws g)"
  by (simp add: last_status_def sent_send last_opt_single)

lemma is_status_status [simp]: "is_status (status g)"
  by (simp add: status_def)

lemma informed_broadcast: "clients_ok g \<Longrightarrow> informed (broadcast (status g) g)"
  by (simp add: informed_def last_status_broadcast clients_ok_def)

lemma informed_connection: "informed g \<Longrightarrow> informed (on_connection g)"
  by (auto simp: informed_def on_connection_def Let_def last_status_send hello_def clients_ok_def less_SucI)

lemma exec_informed:
  assumes "gw_exec e g = Some g'" and "informed g"
  shows "informed g'"
proof -
  have ok: "clients_ok g" "distinct (g_clients g)" using assms(2) by (auto simp: informed_def clients_ok_def)
  show ?thesis
  proof (cases e)
    case GConnection
    then show ?thesis using assms informed_connection by auto
  next
    case (GMessage ws fn m)
    then show ?thesis
      using assms ok
      by (auto simp: on_message_def startRecording_def stopRecording_def grpcUnary_def Let_def intro!: informed_broadcast
          split: inbound.splits if_splits option.splits sum.splits)
         (auto simp: informed_def last_status_send)
  next
    case (GData i raw now)
    then show ?thesis
      using assms ok
      by (auto simp: informed_def on_data_def split_beta Let_def last_status_broadcast)
  next
    case (GFlush now now')
    then show ?thesis
      using assms ok
      by (auto simp: informed_def flush_interval_def split_beta Let_def last_status_broadcast split: option.splits)
  qed (use assms ok in
      \<open>auto simp: on_close_def order_done_def cancel_done_def on_metadata_def once_def down_def
        subscribeTelemetry_def Let_def split: option.splits call.splits intro!: informed_broadcast\<close>,
      auto simp: informed_def clients_ok_def distinct_removeAll last_status_send last_status_broadcast)
qed


text \<open>Either one telemetry stream is open, and the exchange counts as up exactly when it has
  answered; or none is, the exchange counts as down, and one retry is armed.\<close>

definition one_sub :: "gateway \<Rightarrow> bool" where
  "one_sub g \<longleftrightarrow>
     (\<forall>i. omap_get (g_subs g) i \<noteq> None \<longrightarrow> i < g_nextSub g) \<and>
     (if g_retries g = 0
      then \<exists>i s. omap_get (g_subs g) i = Some s \<and> \<not> sub_ended s \<and> sub_alive s = g_exchangeUp g \<and>
             (\<forall>j. live_sub g j \<longrightarrow> j = i)
      else g_retries g = 1 \<and> \<not> g_exchangeUp g \<and> (\<forall>j. \<not> live_sub g j))"

definition sub_view :: "gateway \<Rightarrow> (nat, subscription) omap \<times> nat \<times> nat \<times> bool" where
  "sub_view g = (g_subs g, g_nextSub g, g_retries g, g_exchangeUp g)"

lemma one_sub_view: "sub_view g' = sub_view g \<Longrightarrow> one_sub g' = one_sub g"
  by (simp add: sub_view_def one_sub_def live_sub_def)

lemma sub_view_simps [simp]:
  "sub_view (gw_emit e g) = sub_view g" "sub_view (gw_send ws m g) = sub_view g"
  "sub_view (broadcast m g) = sub_view g" "sub_view (gw_record m t g) = sub_view g"
  "sub_view (startRecording fn g) = sub_view g" "sub_view (stopRecording g) = sub_view g"
  "sub_view (on_connection g) = sub_view g" "sub_view (on_close ws g) = sub_view g"
  "sub_view (order_done i r g) = sub_view g" "sub_view (cancel_done i r' g) = sub_view g"
  "sub_view (grpcUnary k req g) = sub_view g" "sub_view (g\<lparr>g_norm := n, g_history := h\<rparr>) = sub_view g"
  "sub_view (g\<lparr>g_open := os\<rparr>) = sub_view g" "sub_view (g\<lparr>g_norm := n\<rparr>) = sub_view g"
  by (simp_all add: sub_view_def gw_defs Let_def split: option.split call.split)

lemma other_sub_view:
  assumes "gw_exec e g = Some g'" and "\<nexists>i. e = GMetadata i" and "\<nexists>i. e = GEnded i" and "e \<noteq> GRetry"
  shows "sub_view g' = sub_view g"
  using assms
  by (cases e)
     (auto simp: on_message_def on_data_def flush_interval_def split_beta Let_def
       split: inbound.splits if_splits option.splits sum.splits)

lemma subscribe_one_sub:
  assumes "\<forall>i. omap_get (g_subs g) i \<noteq> None \<longrightarrow> i < g_nextSub g" and "g_retries g = 0"
    and "\<not> g_exchangeUp g" and "\<forall>j. \<not> live_sub g j"
  shows "one_sub (subscribeTelemetry g)"
  using assms
  by (auto simp: one_sub_def live_sub_def subscribeTelemetry_def gw_emit_def omap.get_put less_SucI
      split: option.splits if_splits)

lemma one_sub_live:
  assumes "one_sub g" and "omap_get (g_subs g) i = Some s" and "\<not> sub_ended s"
  shows "g_retries g = 0" and "\<forall>j. live_sub g j \<longrightarrow> j = i" and "sub_alive s = g_exchangeUp g"
proof -
  have l: "live_sub g i" using assms(2,3) by (simp add: live_sub_def)
  then show r: "g_retries g = 0" using assms(1) by (auto simp: one_sub_def split: if_splits)
  then obtain j s' where j: "omap_get (g_subs g) j = Some s'" "sub_alive s' = g_exchangeUp g" "\<forall>k. live_sub g k \<longrightarrow> k = j"
    using assms(1) by (auto simp: one_sub_def)
  with l have "j = i" by simp
  with j assms(2) show "\<forall>j. live_sub g j \<longrightarrow> j = i" "sub_alive s = g_exchangeUp g" by simp_all
qed

lemma metadata_one_sub:
  assumes "one_sub g" and "live_sub g i"
  shows "one_sub (on_metadata i g)"
proof -
  obtain s where s: "omap_get (g_subs g) i = Some s" "\<not> sub_ended s"
    using assms(2) by (auto simp: live_sub_def split: option.splits)
  note u = one_sub_live [OF assms(1) s]
  let ?g = "on_metadata i g"
  have v: "sub_view ?g = (omap_set i (s\<lparr>sub_alive := True\<rparr>) (g_subs g), g_nextSub g, 0, True)"
    using s u(1) by (simp add: on_metadata_def Let_def) (simp add: sub_view_def)
  have "live_sub ?g j \<longrightarrow> j = i" for j
    using u(2) v by (auto simp: live_sub_def sub_view_def omap.get_put split: option.splits)
  with s u v assms(1) show ?thesis by (auto simp: one_sub_def sub_view_def omap.get_put)
qed

lemma once_one_sub:
  assumes "one_sub g"
  shows "one_sub (once i g)"
proof (cases "live_sub g i")
  case True
  then obtain s where s: "omap_get (g_subs g) i = Some s" "\<not> sub_ended s"
    by (auto simp: live_sub_def split: option.splits)
  note u = one_sub_live [OF assms s]
  let ?g = "once i g"
  have v: "\<exists>s'. sub_ended s' \<and> omap_get (g_subs ?g) i = Some s'"
    "\<forall>j. j \<noteq> i \<longrightarrow> omap_get (g_subs ?g) j = omap_get (g_subs g) j"
    "g_nextSub ?g = g_nextSub g" "g_retries ?g = 1" "\<not> g_exchangeUp ?g"
    using s u(1,3) by (auto simp: once_def down_def broadcast_def gw_emit_def Let_def omap.get_put)
  have "\<not> live_sub ?g j" for j
    using u(2) v(1,2) by (cases "j = i") (auto simp: live_sub_def split: option.splits)
  moreover have "omap_get (g_subs ?g) j \<noteq> None \<longrightarrow> omap_get (g_subs g) j \<noteq> None" for j
    using s(1) v(2) by (cases "j = i") auto
  ultimately show ?thesis using v(3-5) assms by (simp add: one_sub_def)
next
  case False
  then have "once i g = g" by (auto simp: once_def live_sub_def split: option.splits)
  then show ?thesis using assms by simp
qed

lemma retry_one_sub: "one_sub g \<Longrightarrow> 0 < g_retries g \<Longrightarrow> one_sub (subscribeTelemetry (g\<lparr>g_retries := g_retries g - 1\<rparr>))"
  by (rule subscribe_one_sub) (simp_all add: one_sub_def live_sub_def)

lemma exec_one_sub:
  assumes "gw_exec e g = Some g'" and "enabled e g" and "one_sub g"
  shows "one_sub g'"
proof -
  consider i where "e = GMetadata i" | i where "e = GEnded i" | "e = GRetry"
    | "sub_view g' = sub_view g" using other_sub_view [OF assms(1)] by blast
  then show ?thesis
  proof cases
    case 1
    then show ?thesis using assms metadata_one_sub by auto
  next
    case 2
    then show ?thesis using assms once_one_sub by auto
  next
    case 3
    then show ?thesis using assms retry_one_sub by auto
  next
    case 4
    then show ?thesis using assms(3) one_sub_view by blast
  qed
qed

lemma gw_start_inv: "informed (gw_start fo)" "one_sub (gw_start fo)"
proof -
  have "sub_view (case fo of None \<Rightarrow> new_gateway | Some fn \<Rightarrow> startRecording fn new_gateway) = ([], 0, 0, False)"
    by (cases fo) (simp_all, simp_all add: sub_view_def new_gateway_def)
  then show "one_sub (gw_start fo)"
    unfolding gw_start_def by (intro subscribe_one_sub) (simp_all add: sub_view_def live_sub_def)
  show "informed (gw_start fo)"
    by (cases fo)
       (simp_all add: gw_start_def new_gateway_def startRecording_def subscribeTelemetry_def informed_def
         clients_ok_def gw_emit_def broadcast_def Let_def)
qed

interpretation known: service gw_exec "\<lambda>g. \<exists>fo. g = gw_start fo" informed
  by unfold_locales (auto simp: gw_start_inv intro: exec_informed)

lemma gw_reach_inv: "gw_reach g \<Longrightarrow> informed g \<and> one_sub g"
  by (induction rule: gw_reach.induct) (auto simp: gw_start_inv intro: known.exec_inv exec_one_sub)

text \<open>
  C22. The ring of recent batches: after any run it holds the last 600 batches that the normalizer
  made of the telemetry, in order, and the normalizer is in the state that telemetry gives.
\<close>

theorem history_ring:
  assumes "gw_run es g = Some g'" and "length (g_history g) \<le> HISTORY_MAX"
  shows "g_norm g' = run norm_step (g_norm g) (norm_events es) \<and>
    g_history g' = last_n HISTORY_MAX (g_history g @ norm_batches (g_norm g) (norm_events es))"
  using assms by (rule norm_refinement)

theorem history_ring_witness:
  "\<exists>g'. gw_run [GData 0 (ex_raw 1) (Fin 100), GConnection] ex_gateway = Some g' \<and> map b_at (g_history g') = [Fin 1]"
proof -
  obtain g' where g': "gw_run [GData 0 (ex_raw 1) (Fin 100), GConnection] ex_gateway = Some g'" by simp
  have h: "g_history ex_gateway = []" by code_simp
  show ?thesis
    using g' history_ring [OF g'] h
    by (simp add: last_n_def HISTORY_MAX_def norm_simps ex_raw_simps wire_simps)
qed

text \<open>
  C15. The gateway never gives up on the exchange and never doubles its subscription: in every
  reachable state exactly one telemetry stream is open or exactly one retry is armed, never
  both, and it reports the exchange as up exactly when the open stream has answered.
\<close>

theorem one_subscription_or_retry:
  assumes "gw_reach g"
  shows "(g_retries g = 0 \<and> (\<exists>!i. live_sub g i) \<and>
        (\<forall>i s. omap_get (g_subs g) i = Some s \<and> \<not> sub_ended s \<longrightarrow> sub_alive s = g_exchangeUp g)) \<or>
    (g_retries g = 1 \<and> \<not> g_exchangeUp g \<and> (\<forall>i. \<not> live_sub g i))"
proof -
  have inv: "one_sub g" using gw_reach_inv [OF assms] by simp
  show ?thesis
  proof (cases "g_retries g = 0")
    case True
    then obtain i s where i: "omap_get (g_subs g) i = Some s" "\<not> sub_ended s" "sub_alive s = g_exchangeUp g"
      "\<forall>j. live_sub g j \<longrightarrow> j = i" using inv by (auto simp: one_sub_def)
    then have "live_sub g i" by (simp add: live_sub_def)
    moreover have "sub_alive s' = g_exchangeUp g" if "omap_get (g_subs g) j = Some s'" "\<not> sub_ended s'" for j s'
    proof -
      have "j = i" using that i(4) by (simp add: live_sub_def)
      then show ?thesis using that i(1,3) by simp
    qed
    ultimately show ?thesis using True i(4) by (metis (no_types, lifting))
  next
    case False
    then show ?thesis using inv by (simp add: one_sub_def)
  qed
qed

lemma ex_gateway_reach: "gw_reach ex_gateway" "gw_reach (once 0 ex_gateway)"
proof -
  have "gw_reach (on_metadata 0 (gw_start None))"
  proof (rule gw_reach.step [OF gw_reach.start, of "GMetadata 0" None])
    show "enabled (GMetadata 0) (gw_start None)" by code_simp
  qed simp
  then show g: "gw_reach ex_gateway"
    unfolding ex_gateway_def by (rule gw_reach.step [of _ GConnection]) simp_all
  show "gw_reach (once 0 ex_gateway)" by (rule gw_reach.step [OF g, of "GEnded 0"]) simp_all
qed

theorem one_subscription_or_retry_witness:
  "g_retries (once 0 ex_gateway) = 1 \<and> (\<forall>i. \<not> live_sub (once 0 ex_gateway) i)"
proof -
  have "g_retries (once 0 ex_gateway) = 1" by code_simp
  then show ?thesis using one_subscription_or_retry [OF ex_gateway_reach(2)] by auto
qed

text \<open>
  C16. Every browser knows the state of affairs: in every reachable state the last status message
  an open browser was sent tells whether the exchange is up and which file is being recorded.
\<close>

theorem browsers_know_the_status:
  assumes "gw_reach g" and "ws \<in> set (g_clients g)" and "ws \<in> set (g_open g)"
  shows "last_status ws g = Some (status g)"
  using gw_reach_inv [OF assms(1)] assms(2,3) by (simp add: informed_def)

theorem browsers_know_the_status_witness:
  "last_status 0 (once 0 ex_gateway) = Some (SStatus None ''disconnected'')"
proof -
  have "0 \<in> set (g_clients (once 0 ex_gateway))" "0 \<in> set (g_open (once 0 ex_gateway))"
    and "status (once 0 ex_gateway) = SStatus None ''disconnected''" by code_simp+
  then show ?thesis using browsers_know_the_status [OF ex_gateway_reach(2), of 0] by simp
qed

text \<open>
  A browser that sends the text \<^verbatim>\<open>null\<close> ends the gateway: the handler fails on reading the
  message, and fails again on reading it in the clause that should report the failure. Every
  other message is handled.
\<close>

lemma null_message_ends_gateway:
  "on_message ws fn m g = None \<longleftrightarrow> m = JsonNull"
  by (auto simp: on_message_def split: inbound.splits)

end
