(* ===== verification/Derive.thy ===== *)
theory Derive
  imports Frames
begin

text \<open>
  The pure derivations of \<^verbatim>\<open>web/src/derive.ts\<close>: what the panels show at a playback position is
  recomputed from the frames up to that position. Each loop of the source is a recursive
  function over its own index or list, with the source's accumulators.
\<close>

section \<open>Looking backwards\<close>

text \<open>Loop \<^verbatim>\<open>for (let i = Math.min(idx, frames.length - 1); i >= 0; i--)\<close>: the counter of
  these functions is \<open>i + 1\<close>.\<close>

definition start_counter :: "frame list \<Rightarrow> int \<Rightarrow> nat" where
  "start_counter fs idx = nat (min idx (int (length fs) - 1) + 1)"

fun bookAt_loop :: "frame list \<Rightarrow> nat \<Rightarrow> wire_book option" where
  "bookAt_loop fs 0 = None"
| "bookAt_loop fs (Suc i) =
     (case fs ! i of
        FBook a bk \<Rightarrow> Some bk
      | FBatch f \<Rightarrow> (case b_book f of Some bk \<Rightarrow> Some bk | None \<Rightarrow> bookAt_loop fs i))"

definition bookAt :: "frame list \<Rightarrow> int \<Rightarrow> wire_book option" where
  "bookAt fs idx = bookAt_loop fs (start_counter fs idx)"

fun lastBatch_loop :: "(wire_batch \<Rightarrow> bool) \<Rightarrow> frame list \<Rightarrow> nat \<Rightarrow> wire_batch option" where
  "lastBatch_loop pred fs 0 = None"
| "lastBatch_loop pred fs (Suc i) =
     (case fs ! i of
        FBatch f \<Rightarrow> if pred f then Some f else lastBatch_loop pred fs i
      | FBook a bk \<Rightarrow> lastBatch_loop pred fs i)"

definition lastBatchBefore :: "frame list \<Rightarrow> int \<Rightarrow> (wire_batch \<Rightarrow> bool) \<Rightarrow> wire_batch option" where
  "lastBatchBefore fs idx pred = lastBatch_loop pred fs (start_counter fs idx)"

record trade_point =
  tp_at :: jsnum
  tp_price :: jsnum
  tp_qty :: jsnum
  tp_aggressorSide :: side
  tp_aggressorNode :: string
  tp_restingNode :: string
  tp_id :: string

definition point :: "wire_batch \<Rightarrow> wire_trade \<Rightarrow> trade_point" where
  "point f t =
     \<lparr>tp_at = b_at f, tp_price = t_price t, tp_qty = t_qty t,
      tp_aggressorSide = t_aggressorSide t, tp_aggressorNode = t_aggressorNode t,
      tp_restingNode = t_restingNode t, tp_id = t_id t\<rparr>"

text \<open>The inner loop of \<^verbatim>\<open>recentTrades\<close> runs over the trades of a batch from the last to the
  first, so it recurses on the reversed list.\<close>

fun recent_inner :: "nat \<Rightarrow> wire_batch \<Rightarrow> wire_trade list \<Rightarrow> trade_point list \<Rightarrow> trade_point list" where
  "recent_inner mx f [] out = out"
| "recent_inner mx f (t # ts) out =
     (if length out < mx then recent_inner mx f ts (out @ [point f t]) else out)"

fun recent_outer :: "nat \<Rightarrow> frame list \<Rightarrow> nat \<Rightarrow> trade_point list \<Rightarrow> trade_point list" where
  "recent_outer mx fs 0 out = out"
| "recent_outer mx fs (Suc i) out =
     (if length out < mx then
        (case fs ! i of
           FBatch f \<Rightarrow> recent_outer mx fs i (recent_inner mx f (rev (b_trades f)) out)
         | FBook a bk \<Rightarrow> recent_outer mx fs i out)
      else out)"

definition recentTrades :: "frame list \<Rightarrow> int \<Rightarrow> nat \<Rightarrow> trade_point list" where
  "recentTrades fs idx mx = recent_outer mx fs (start_counter fs idx) []"

record quote_point =
  qp_at :: jsnum
  qp_bid :: "jsnum option"
  qp_ask :: "jsnum option"

record price_series =
  ps_trades :: "trade_point list"
  ps_quotes :: "quote_point list"
  ps_from :: jsnum
  ps_to :: jsnum

definition quote :: "wire_batch \<Rightarrow> wire_tob \<Rightarrow> quote_point" where
  "quote f t = \<lparr>qp_at = b_at f, qp_bid = tob_bid t, qp_ask = tob_ask t\<rparr>"

fun series_loop ::
  "jsnum \<Rightarrow> frame list \<Rightarrow> nat \<Rightarrow> trade_point list \<Rightarrow> quote_point list
   \<Rightarrow> trade_point list \<times> quote_point list" where
  "series_loop from fs 0 trades quotes = (trades, quotes)"
| "series_loop from fs (Suc i) trades quotes =
     (if js_lt (fr_at (fs ! i)) from then (trades, quotes)
      else (case fs ! i of
          FBook a bk \<Rightarrow> series_loop from fs i trades quotes
        | FBatch f \<Rightarrow>
            series_loop from fs i (trades @ map (point f) (b_trades f))
              (case b_tob f of None \<Rightarrow> quotes | Some t \<Rightarrow> quotes @ [quote f t])))"

text \<open>\<open>None\<close> is the \<^verbatim>\<open>TypeError\<close> of reading \<^verbatim>\<open>frames[idx].at\<close> past the end.\<close>

definition priceSeries :: "frame list \<Rightarrow> int \<Rightarrow> jsnum \<Rightarrow> price_series option" where
  "priceSeries fs idx windowMs =
     (if idx < 0 then Some \<lparr>ps_trades = [], ps_quotes = [], ps_from = Fin 0, ps_to = Fin 0\<rparr>
      else if int (length fs) \<le> idx then None
      else let to = fr_at (fs ! nat idx);
               from = js_sub to windowMs;
               (trades, quotes) = series_loop from fs (Suc (nat idx)) [] []
           in Some \<lparr>ps_trades = rev trades, ps_quotes = rev quotes, ps_from = from, ps_to = to\<rparr>)"

section \<open>Percentiles\<close>

text \<open>\<open>None\<close> is the \<^verbatim>\<open>undefined\<close> that reading an array off its end (or at no index) gives.\<close>

definition js_index :: "'a list \<Rightarrow> jsnum \<Rightarrow> 'a option" where
  "js_index xs i =
     (case i of
        Fin q \<Rightarrow> if q = of_int \<lfloor>q\<rfloor> \<and> 0 \<le> q \<and> \<lfloor>q\<rfloor> < int (length xs) then Some (xs ! nat \<lfloor>q\<rfloor>) else None
      | _ \<Rightarrow> None)"

definition percentile :: "jsnum list \<Rightarrow> jsnum \<Rightarrow> jsnum option" where
  "percentile srt p =
     (if srt = [] then Some (Fin 0)
      else js_index srt
        (js_min (js_int (int (length srt) - 1))
           (js_floor (js_mul (js_div p (Fin 100)) (js_int (int (length srt)))))))"


section \<open>The look-back loops against their reference definitions\<close>

fun frame_book :: "frame \<Rightarrow> wire_book option" where
  "frame_book (FBook a bk) = Some bk"
| "frame_book (FBatch f) = b_book f"

definition batch_points :: "wire_batch \<Rightarrow> trade_point list" where
  "batch_points f = map (point f) (b_trades f)"

definition batch_quotes :: "wire_batch \<Rightarrow> quote_point list" where
  "batch_quotes f = (case b_tob f of None \<Rightarrow> [] | Some t \<Rightarrow> [quote f t])"

lemma start_counter_le: "start_counter fs idx \<le> length fs"
  by (simp add: start_counter_def)

lemma take_start_counter: "take (start_counter fs idx) fs = upto_idx idx fs"
  using upto_idx_min [of idx fs] by (simp add: start_counter_def upto_idx_def)

lemma bookAt_loop_spec:
  "n \<le> length fs \<Longrightarrow> bookAt_loop fs n = last_opt (List.map_filter frame_book (take n fs))"
proof (induction n)
  case (Suc n)
  then show ?case
    by (cases "fs ! n")
       (auto simp: take_Suc_conv_app_nth List.map_filter_def last_opt_def split: option.splits)
qed (simp add: List.map_filter_def last_opt_def)

lemma lastBatch_loop_spec:
  "n \<le> length fs \<Longrightarrow> lastBatch_loop pred fs n = last_opt (filter pred (batches (take n fs)))"
proof (induction n)
  case (Suc n)
  then show ?case
    by (cases "fs ! n") (auto simp: take_Suc_conv_app_nth last_opt_def)
qed (simp add: last_opt_def)

lemma recent_inner_spec:
  "length out \<le> mx \<Longrightarrow> recent_inner mx f ts out = take mx (out @ map (point f) ts)"
  by (induction mx f ts out rule: recent_inner.induct) auto

lemma take_append_take: "take n (take n xs @ ys) = take n (xs @ ys)"
  by (cases "n \<le> length xs") (simp_all add: min_def)

lemma recent_outer_spec:
  "n \<le> length fs \<Longrightarrow> length out \<le> mx \<Longrightarrow>
   recent_outer mx fs n out = take mx (out @ rev (concat (map batch_points (batches (take n fs)))))"
proof (induction n arbitrary: out)
  case (Suc n)
  have IH: "recent_outer mx fs n out' =
      take mx (out' @ rev (concat (map batch_points (batches (take n fs)))))" if "length out' \<le> mx" for out'
    using Suc.IH that Suc.prems(1) by simp
  show ?case
  proof (cases "fs ! n")
    case (FBatch f)
    have "recent_outer mx fs n (recent_inner mx f (rev (b_trades f)) out) =
        take mx (out @ rev (batch_points f) @ rev (concat (map batch_points (batches (take n fs)))))"
      using Suc.prems(2) by (simp add: recent_inner_spec IH take_append_take batch_points_def rev_map
          del: take_append)
    then show ?thesis
      using FBatch Suc.prems by (simp add: take_Suc_conv_app_nth del: take_append) (simp add: not_less)
  next
    case (FBook a bk)
    then show ?thesis
      using Suc.prems IH [of out] by (auto simp: take_Suc_conv_app_nth)
  qed
qed simp

lemma series_loop_spec:
  "n \<le> length fs \<Longrightarrow>
   series_loop from fs n trades quotes =
     (let w = takeWhile (\<lambda>f. \<not> js_lt (fr_at f) from) (rev (take n fs))
      in (trades @ concat (map batch_points (batches w)),
          quotes @ concat (map batch_quotes (batches w))))"
proof (induction n arbitrary: trades quotes)
  case (Suc n)
  then show ?case
    by (cases "fs ! n")
       (auto simp: take_Suc_conv_app_nth Let_def batch_points_def batch_quotes_def split: option.split)
qed simp

text \<open>
  The book panel shows the latest book at or before the position, whether it came inside a
  batch or on its own; the same for the last batch that satisfies a predicate.
\<close>

lemma lookback_finds_latest:
  "bookAt fs idx = last_opt (List.map_filter frame_book (upto_idx idx fs)) \<and>
   lastBatchBefore fs idx pred = last_opt (filter pred (batches (upto_idx idx fs)))"
  by (simp add: bookAt_def lastBatchBefore_def bookAt_loop_spec lastBatch_loop_spec start_counter_le
      take_start_counter)

text \<open>
  The trade tape is exactly the \<open>mx\<close> most recent trades up to the position, newest first:
  the doubly bounded nested loop equals a reversal and a prefix.
\<close>

lemma recentTrades_most_recent_first:
  "recentTrades fs idx mx =
     take mx (rev (concat (map batch_points (batches (upto_idx idx fs)))))"
  by (simp add: recentTrades_def recent_outer_spec start_counter_le take_start_counter)

lemma rev_batches: "rev (batches fs) = batches (rev fs)"
  by (induction fs rule: batches.induct) auto

lemma sorted_takeWhile_rev:
  assumes "sorted (map g xs)" and "NaN \<notin> g ` set xs" and "c \<noteq> NaN"
  shows "rev (takeWhile (\<lambda>x. \<not> js_lt (g x) c) (rev xs)) = filter (\<lambda>x. js_le c (g x)) xs"
  using assms(1,2)
proof (induction xs rule: rev_induct)
  case (snoc x xs)
  have x: "g x \<noteq> NaN" using snoc.prems(2) by auto
  show ?case
  proof (cases "js_lt (g x) c")
    case True
    have "\<not> js_le c (g y)" if "y \<in> set xs" for y
      using that snoc.prems True by (auto simp: sorted_append js_lt_def js_le_def)
    with True show ?thesis by (auto simp: js_lt_def js_le_def filter_empty_conv)
  next
    case False
    with x assms(3) have "js_le c (g x)" by (auto simp: js_lt_def js_le_def)
    with False snoc show ?thesis by (auto simp: sorted_append)
  qed
qed simp

lemma js_sub_Fin_not_NaN: "a \<noteq> NaN \<Longrightarrow> js_sub a (Fin w) \<noteq> NaN"
  by (cases a) (simp_all add: js_sub_def)

text \<open>
  C29. The chart's window. On frames in time order the backward scan with its early exit
  collects exactly the frames from \<open>to - windowMs\<close> up to the position; quotes come out in
  chronological order, and so do the batches of trades, but the trades inside one batch come
  out last first, because the scan appends them in order and then reverses everything.
\<close>

theorem priceSeries_window:
  assumes "sorted (map fr_at fs)" and "NaN \<notin> fr_at ` set fs" and "0 \<le> idx" and "idx < int (length fs)"
  shows "priceSeries fs idx (Fin w) =
    (let to = fr_at (fs ! nat idx); fm = js_sub to (Fin w);
         win = batches (filter (\<lambda>f. js_le fm (fr_at f)) (upto_idx idx fs))
     in Some \<lparr>ps_trades = concat (map (\<lambda>f. rev (batch_points f)) win),
              ps_quotes = concat (map batch_quotes win), ps_from = fm, ps_to = to\<rparr>)"
proof -
  define to where "to = fr_at (fs ! nat idx)"
  define fm where "fm = js_sub to (Fin w)"
  define ws where "ws = takeWhile (\<lambda>f. \<not> js_lt (fr_at f) fm) (rev (upto_idx idx fs))"
  have upto: "take (Suc (nat idx)) fs = upto_idx idx fs"
    using assms(3) by (simp add: upto_idx_def nat_add_distrib)
  have "fm \<noteq> NaN" using assms unfolding fm_def to_def
    by (intro js_sub_Fin_not_NaN) (metis image_eqI nat_less_iff nth_mem)
  moreover have "sorted (map fr_at (upto_idx idx fs))" "NaN \<notin> fr_at ` set (upto_idx idx fs)"
    using assms(1,2) by (auto simp: upto_idx_def sorted_wrt_take take_map dest: in_set_takeD
        simp flip: take_map)
  ultimately have win: "rev ws = filter (\<lambda>f. js_le fm (fr_at f)) (upto_idx idx fs)"
    unfolding ws_def by (intro sorted_takeWhile_rev)
  have rev: "rev (concat (map g (batches ws))) = concat (map (\<lambda>f. rev (g f)) (batches (rev ws)))" for g :: "wire_batch \<Rightarrow> 'b list"
    by (simp add: rev_concat rev_map comp_def flip: rev_batches)
  have q: "rev (batch_quotes f) = batch_quotes f" for f
    by (simp add: batch_quotes_def split: option.split)
  have "Suc (nat idx) \<le> length fs" using assms by simp
  then have "series_loop fm fs (Suc (nat idx)) [] [] =
      (concat (map batch_points (batches ws)), concat (map batch_quotes (batches ws)))"
    by (simp add: series_loop_spec upto ws_def Let_def del: series_loop.simps)
  then have "priceSeries fs idx (Fin w) =
      Some \<lparr>ps_trades = rev (concat (map batch_points (batches ws))),
            ps_quotes = rev (concat (map batch_quotes (batches ws))), ps_from = fm, ps_to = to\<rparr>"
    using assms(3,4) by (simp add: priceSeries_def Let_def del: series_loop.simps flip: to_def fm_def)
  then show ?thesis by (simp add: rev q win Let_def flip: to_def fm_def)
qed

text \<open>
  A witness, and the reversal inside a batch: two trades of one batch, the first at 10, the
  second at 11, are charted in the opposite order.
\<close>

definition ex_trade :: "string \<Rightarrow> rat \<Rightarrow> rat \<Rightarrow> wire_trade" where
  "ex_trade i p q = \<lparr>t_id = i, t_price = Fin p, t_qty = Fin q, t_aggressorSide = Bid,
     t_aggressor = ''ORD-2'', t_aggressorNode = ''human'', t_resting = ''ORD-1'',
     t_restingNode = ''mm-1''\<rparr>"

definition ex_batch :: "rat \<Rightarrow> wire_trade list \<Rightarrow> wire_batch" where
  "ex_batch a ts = \<lparr>b_at = Fin a, b_seq = Fin 1, b_op = Submit,
     b_order = \<lparr>o_id = ''ORD-2'', o_node = ''human'', o_side = Some Bid, o_type = Some Limit,
       o_price = Fin 11, o_qty = Fin 5, o_status = Some Filled, o_filled = Fin 5, o_avg = Fin 10,
       o_reason = [], o_cancelOk = False\<rparr>,
     b_trace = \<lparr>tr_enqueue = Fin 1, tr_dequeue = Fin 2, tr_matchDone = Fin 3, tr_promiseSet = Fin 4,
       tr_publish = Fin 5\<rparr>,
     b_trades = ts, b_tob = None, b_book = None\<rparr>"

theorem priceSeries_window_witness:
  "map_option (\<lambda>s. map tp_id (ps_trades s)) (priceSeries
      [FBatch (ex_batch 1000 [ex_trade ''A'' 10 2]),
       FBatch (ex_batch 1001 [ex_trade ''B'' 10 2, ex_trade ''C'' 11 3])] 1 (Fin 90000))
   = Some [''A'', ''C'', ''B'']"
  by (subst priceSeries_window)
     (simp_all add: ex_batch_def ex_trade_def js_sub_def js_le_def upto_idx_def Let_def batch_points_def
       point_def)

section \<open>Percentiles are order statistics\<close>

lemma fl_between:
  assumes "0 \<le> x" and "x \<le> of_int n" and "safe_int n"
  obtains y where "fl x = Fin y" "0 \<le> y" "y \<le> of_int n"
proof -
  have "Fin 0 \<le> fl x" "fl x \<le> js_int n"
    using fl_mono [OF assms(1)] fl_mono [OF assms(2)] fl_int [OF assms(3)] by simp_all
  then show thesis using that by (cases "fl x") auto
qed

text \<open>The index \<^verbatim>\<open>Math.floor((p / 100) * n)\<close>, capped at the last element.\<close>

definition rank :: "nat \<Rightarrow> rat \<Rightarrow> nat" where
  "rank n p = nat (min (int n - 1) (num_floor (js_mul (js_div (Fin p) (Fin 100)) (js_int (int n)))))"

lemma percent_scaled:
  assumes "0 \<le> p" and "p \<le> 100" and "int n < 2 ^ 53"
  obtains y z where "fl (p / 100) = Fin y" "0 \<le> y" "y \<le> 1"
    "js_mul (js_div (Fin p) (Fin 100)) (js_int (int n)) = Fin z" "fl (y * of_nat n) = Fin z"
    "0 \<le> z" "z \<le> of_nat n"
proof -
  obtain y where y: "fl (p / 100) = Fin y" "0 \<le> y" "y \<le> of_int 1"
    using assms by (elim fl_between [of "p / 100" 1, rotated -1]) (auto simp: safe_int_def)
  then have "y * of_nat n \<le> of_int (int n)" by (simp add: mult_left_le_one_le)
  then obtain z where "fl (y * of_nat n) = Fin z" "0 \<le> z" "z \<le> of_int (int n)"
    using y assms by (elim fl_between [of "y * of_nat n" "int n", rotated -1]) (auto simp: safe_int_def)
  with y that show thesis by simp
qed

lemma percentile_rank:
  assumes "srt \<noteq> []" and "0 \<le> p" and "p \<le> 100" and "int (length srt) < 2 ^ 53"
  shows "percentile srt (Fin p) = Some (srt ! rank (length srt) p)" and "rank (length srt) p < length srt"
proof -
  let ?n = "length srt"
  obtain y z where z: "js_mul (js_div (Fin p) (Fin 100)) (js_int (int ?n)) = Fin z" "0 \<le> z"
    using percent_scaled [OF assms(2-4)] by metis
  have "0 \<le> min (int ?n - 1) \<lfloor>z\<rfloor>" and lt: "min (int ?n - 1) \<lfloor>z\<rfloor> < int ?n"
    using assms(1) z(2) by (auto simp: Suc_le_eq)
  moreover have "js_min (js_int (int ?n - 1)) (js_floor (Fin z)) = js_int (min (int ?n - 1) \<lfloor>z\<rfloor>)"
    by (auto simp: js_min_def min_def)
  ultimately show "percentile srt (Fin p) = Some (srt ! rank ?n p)"
    using assms(1) z(1) by (simp add: percentile_def rank_def js_index_def del: js_mul.simps js_div.simps)
  show "rank ?n p < ?n"
    using lt \<open>0 \<le> min (int ?n - 1) \<lfloor>z\<rfloor>\<close> unfolding rank_def z(1) num_floor.simps
    by (simp add: nat_less_iff del: of_nat_less_iff)
qed

lemma rank_mono:
  assumes "0 \<le> p" and "p \<le> p'" and "p' \<le> 100" and "int n < 2 ^ 53"
  shows "rank n p \<le> rank n p'"
proof -
  obtain y z where yz: "fl (p / 100) = Fin y" "js_mul (js_div (Fin p) (Fin 100)) (js_int (int n)) = Fin z"
    "fl (y * of_nat n) = Fin z"
    using percent_scaled [of p n] assms by (metis order_trans)
  obtain y' z' where yz': "fl (p' / 100) = Fin y'"
    "js_mul (js_div (Fin p') (Fin 100)) (js_int (int n)) = Fin z'" "fl (y' * of_nat n) = Fin z'"
    using percent_scaled [of p' n] assms by (metis order_trans)
  have "y \<le> y'" using fl_mono [of "p / 100" "p' / 100"] assms(2) yz(1) yz'(1) by simp
  then have "z \<le> z'" using fl_mono [of "y * of_nat n" "y' * of_nat n"] yz(3) yz'(3)
    by (simp add: mult_right_mono)
  then have "\<lfloor>z\<rfloor> \<le> \<lfloor>z'\<rfloor>" by (rule floor_mono)
  then show ?thesis unfolding rank_def yz(2) yz'(2) by (intro nat_mono min.mono) simp_all
qed

text \<open>
  Percentiles are order statistics. On a sorted sample, for percentages between 0 and 100 the
  result is a member of the sample, a larger percentage never gives a smaller value, and 0 and
  100 give the least and the greatest element, whatever the rounding of the index computation.
\<close>

lemma percentile_order_statistic:
  assumes "sorted srt" and "srt \<noteq> []" and "int (length srt) < 2 ^ 53"
    and "0 \<le> p" and "p \<le> p'" and "p' \<le> 100"
  shows "(\<exists>x y. percentile srt (Fin p) = Some x \<and> percentile srt (Fin p') = Some y \<and>
      x \<in> set srt \<and> y \<in> set srt \<and> x \<le> y) \<and>
    percentile srt (Fin 0) = Some (hd srt) \<and> percentile srt (Fin 100) = Some (last srt)"
proof -
  have "0 \<le> p'" "p \<le> 100" using assms by linarith+
  note pr = percentile_rank [OF assms(2,4) this(2) assms(3)]
    percentile_rank [OF assms(2) this(1) assms(6,3)]
  have "srt ! rank (length srt) p \<le> srt ! rank (length srt) p'"
    using sorted_nth_mono [OF assms(1) rank_mono [OF assms(4-6,3)]] pr by simp
  then have mono: "\<exists>x y. percentile srt (Fin p) = Some x \<and> percentile srt (Fin p') = Some y \<and>
      x \<in> set srt \<and> y \<in> set srt \<and> x \<le> y"
    using pr by auto
  have n: "fl (of_nat (length srt)) = Fin (of_nat (length srt))"
    using fl_int [of "int (length srt)"] assms(3) by (simp add: safe_int_def)
  have "rank (length srt) 0 = 0" "rank (length srt) 100 = length srt - 1"
    using n by (simp_all add: rank_def nat_diff_distrib)
  then have "percentile srt (Fin 0) = Some (hd srt)" "percentile srt (Fin 100) = Some (last srt)"
    using percentile_rank(1) [of srt 0] percentile_rank(1) [of srt 100] assms(2,3)
    by (simp_all add: hd_conv_nth last_conv_nth)
  with mono show ?thesis by blast
qed

end
