(* ===== verification/Feed_Safety.thy ===== *)
theory Feed_Safety
  imports Feed Derive
begin

text \<open>
  What holds in every state the feed can reach, whatever the user, the server, the timers and the
  network do and in whatever order: the cursor stays inside the buffer, and every request is
  settled exactly once.
\<close>

section \<open>Reachable states\<close>

lemmas clock_defs = bump_def setFollow_def set_anchor_def togglePlay_def setSpeed_def Let_def
lemmas conn_defs = emit_def set_timer_def clear_timer_def scheduleRetry_def connect_def useReplay_def
  feed_start_def ws_error_def feed_subscribe_def feed_unsubscribe_def setRecording_def

text \<open>The cursor never leaves the buffer.\<close>

lemma bisect_bound:
  assumes "bisect fs vt lo hi ans = Some r" and "ans < int (length fs)"
  shows "r < int (length fs)"
proof -
  have "ans < int (length fs) \<longrightarrow> r < int (length fs)"
  proof (rule bisect.raw_induct [where P = "\<lambda>fs vt lo hi ans r. ans < int (length fs) \<longrightarrow> r < int (length fs)",
        OF _ assms(1)])
    fix bis and fs :: "frame list" and vt lo hi ans r
    assume IH: "\<And>fs vt lo hi ans r. bis fs vt lo hi ans = Some r \<Longrightarrow>
        ans < int (length (fs :: frame list)) \<longrightarrow> r < int (length fs)"
      and eq: "(if lo \<le> hi then let mid = shr1 (lo + hi) in
          if mid < 0 \<or> int (length fs) \<le> mid then None
          else if js_le (fr_at (fs ! nat mid)) vt then bis fs vt (mid + 1) hi mid
          else bis fs vt lo (mid - 1) ans else Some ans) = Some r"
    show "ans < int (length fs) \<longrightarrow> r < int (length fs)"
      using eq by (auto simp: Let_def dest!: IH split: if_splits)
  qed
  with assms(2) show ?thesis by simp
qed

lemma seek_cursor: "seek pn v f = Some f' \<Longrightarrow> cursor_ok f'"
  by (auto simp: seek_def cursor_ok_def indexAt_def clock_defs dest!: bisect_bound
      split: option.splits if_splits)

lemma push_cursor: "cursor_ok f \<Longrightarrow> cursor_ok (push gs f)"
  by (auto simp: cursor_ok_def push_def Let_def)

lemma step_loop_cursor:
  "f_cursor f + length gs \<le> length (f_frames f) \<Longrightarrow> cursor_ok (snd (step_loop gs f))"
  by (induction gs f rule: step_loop.induct) (auto simp: cursor_ok_def)

lemma feed_step_cursor: "cursor_ok f \<Longrightarrow> cursor_ok (snd (feed_step pn f))"
proof -
  assume "cursor_ok f"
  then have "cursor_ok (snd (step_loop (drop (f_cursor f) (f_frames f)) (f\<lparr>f_clockMode := Pause\<rparr>)))"
    by (intro step_loop_cursor) (simp add: cursor_ok_def)
  then show ?thesis by (simp add: feed_step_def split_beta Let_def cursor_ok_def bump_simps)
qed

lemma takeNew_cursor: "cursor_ok f \<Longrightarrow> cursor_ok (snd (takeNew f))"
proof -
  assume "cursor_ok f"
  moreover have "length (takeWhile (reached f) (drop (f_cursor f) (f_frames f))) \<le>
      length (f_frames f) - f_cursor f"
    using length_takeWhile_le [of "reached f" "drop (f_cursor f) (f_frames f)"] by simp
  ultimately show ?thesis by (auto simp: takeNew_def cursor_ok_def Let_def)
qed

lemma tick_cursor: "cursor_ok f \<Longrightarrow> cursor_ok (tick pn now f)"
  by (auto simp: tick_def advance_def cursor_ok_def clock_defs split: clock_mode.splits)

lemma conn_cursor:
  "cursor_ok (emit e f) = cursor_ok f" "cursor_ok (scheduleRetry f) = cursor_ok f"
  "cursor_ok (connect ok f) = cursor_ok f" "cursor_ok (useReplay f) = cursor_ok f"
  "cursor_ok (bump p f) = cursor_ok f" "cursor_ok (settle r res f) = cursor_ok f"
  "cursor_ok (setFollow f)" "cursor_ok (feed_reset src f)"
  by (auto simp: cursor_ok_def conn_defs clock_defs settle_def feed_reset_def split: option.splits)

lemma cursor_ok_update:
  "cursor_ok (f\<lparr>f_dirty := d\<rparr>) = cursor_ok f" "cursor_ok (f\<lparr>f_source := src\<rparr>) = cursor_ok f"
  "cursor_ok (f\<lparr>f_clockMode := cm\<rparr>) = cursor_ok f" "cursor_ok (f\<lparr>f_roster := ro\<rparr>) = cursor_ok f"
  "cursor_ok (f\<lparr>f_speed := sp\<rparr>) = cursor_ok f" "cursor_ok (f\<lparr>f_vt := v\<rparr>) = cursor_ok f"
  "cursor_ok (f\<lparr>f_ws := w\<rparr>) = cursor_ok f" "cursor_ok (f\<lparr>f_exchangeUp := b\<rparr>) = cursor_ok f"
  "cursor_ok (f\<lparr>f_recording := rec\<rparr>) = cursor_ok f" "cursor_ok (f\<lparr>f_openSocks := os\<rparr>) = cursor_ok f"
  "cursor_ok (f\<lparr>f_timers := ts\<rparr>) = cursor_ok f" "cursor_ok (f\<lparr>f_pending := pe\<rparr>) = cursor_ok f"
  "cursor_ok (f\<lparr>f_out := ou\<rparr>) = cursor_ok f" "cursor_ok (f\<lparr>f_reqId := rq\<rparr>) = cursor_ok f"
  "cursor_ok (f\<lparr>f_nextTimer := nt\<rparr>) = cursor_ok f" "cursor_ok (f\<lparr>f_listeners := ls\<rparr>) = cursor_ok f"
  "cursor_ok (f\<lparr>f_nextSock := ns\<rparr>) = cursor_ok f" "cursor_ok (f\<lparr>f_retry := ry\<rparr>) = cursor_ok f"
  "cursor_ok (set_anchor p f) = cursor_ok f"
  by (simp_all add: cursor_ok_def set_anchor_def)

lemmas cursor_simps = conn_cursor cursor_ok_update push_cursor

lemma message_cursor: "cursor_ok f \<Longrightarrow> cursor_ok (onMessage pn m f)"
  by (cases m) (auto simp: onMessage_def switchToLive_def Let_def cursor_simps)

lemma replay_cursor: "cursor_ok f \<Longrightarrow> cursor_ok (useReplay_done pn r f)"
  by (auto simp: useReplay_done_def Let_def cursor_simps split: option.split)

lemma close_cursor: "cursor_ok f \<Longrightarrow> cursor_ok (ws_close pn f)"
  by (auto simp: ws_close_def Let_def cursor_simps)

lemma timer_cursor: "cursor_ok f \<Longrightarrow> cursor_ok (fire_timer ok i f)"
  by (auto simp: fire_timer_def Let_def cursor_simps split: option.split timer.split)

lemma goLive_cursor: "goLive pn f = Some f' \<Longrightarrow> cursor_ok f'"
  by (auto simp: goLive_def Let_def cursor_simps dest!: seek_cursor split: if_splits option.splits)

lemma exec_cursor:
  assumes "feed_exec pn e f = Some f'" and "cursor_ok f"
  shows "cursor_ok f'"
  using assms
  by (cases e)
     (auto intro: tick_cursor takeNew_cursor seek_cursor goLive_cursor feed_step_cursor close_cursor
       message_cursor replay_cursor timer_cursor
       simp: cursor_simps togglePlay_def setSpeed_def Let_def feed_start_def set_timer_def
         placeOrder_def cancelOrder_def request_def ws_error_def setRecording_def
         feed_subscribe_def feed_unsubscribe_def split_beta)


section \<open>Every request is settled exactly once\<close>

fun settles :: "effect \<Rightarrow> nat option" where
  "settles (Settle r res) = Some r"
| "settles _ = None"

definition settled :: "feed \<Rightarrow> nat list" where
  "settled f = List.map_filter settles (f_out f)"

definition req_view :: "feed \<Rightarrow> (nat, nat) omap \<times> (nat, timer) omap \<times> nat \<times> nat \<times> nat option \<times> nat list" where
  "req_view f = (f_pending f, f_timers f, f_nextTimer f, f_reqId f, f_retry f, settled f)"

text \<open>
  A request is pending exactly when its timeout is armed; timer numbers are fresh; the requests
  issued so far are the settled and the pending ones, and no request is both or settled twice;
  the reconnect timer is never a request's.
\<close>

definition req_inv :: "feed \<Rightarrow> bool" where
  "req_inv f \<longleftrightarrow>
     (\<forall>r t. omap_get (f_pending f) r = Some t \<longleftrightarrow> omap_get (f_timers f) t = Some (TRequest r)) \<and>
     (\<forall>t. omap_get (f_timers f) t \<noteq> None \<longrightarrow> t < f_nextTimer f) \<and>
     (\<forall>r. 1 \<le> r \<and> r \<le> f_reqId f \<longleftrightarrow> r \<in> set (settled f) \<or> omap_get (f_pending f) r \<noteq> None) \<and>
     (\<forall>r \<in> set (settled f). omap_get (f_pending f) r = None) \<and> distinct (settled f) \<and>
     (\<forall>i. f_retry f = Some i \<longrightarrow> i < f_nextTimer f \<and> (\<forall>r. omap_get (f_timers f) i \<noteq> Some (TRequest r)))"

lemma req_inv_view: "req_view f' = req_view f \<Longrightarrow> req_inv f' = req_inv f"
  by (simp add: req_view_def req_inv_def)

lemma settled_append: "settled (f\<lparr>f_out := f_out f @ es\<rparr>) = settled f @ List.map_filter settles es"
  by (simp add: settled_def List.map_filter_def)

lemma map_filter_Notify [simp]: "List.map_filter settles (map Notify ls) = []"
  by (induction ls) (simp_all add: List.map_filter_def)

lemma bump_view: "req_view (bump p f) = req_view f"
  by (simp add: req_view_def bump_def settled_def List.map_filter_def filter_empty_conv)

lemma view_update:
  "req_view (f\<lparr>f_dirty := d\<rparr>) = req_view f" "req_view (f\<lparr>f_source := src\<rparr>) = req_view f"
  "req_view (f\<lparr>f_clockMode := cm\<rparr>) = req_view f" "req_view (f\<lparr>f_roster := ro\<rparr>) = req_view f"
  "req_view (f\<lparr>f_speed := sp\<rparr>) = req_view f" "req_view (f\<lparr>f_vt := v\<rparr>) = req_view f"
  "req_view (f\<lparr>f_ws := w\<rparr>) = req_view f" "req_view (f\<lparr>f_exchangeUp := b\<rparr>) = req_view f"
  "req_view (f\<lparr>f_recording := rec\<rparr>) = req_view f" "req_view (f\<lparr>f_openSocks := os\<rparr>) = req_view f"
  "req_view (f\<lparr>f_listeners := ls\<rparr>) = req_view f" "req_view (f\<lparr>f_nextSock := ns\<rparr>) = req_view f"
  "req_view (f\<lparr>f_frames := fs\<rparr>) = req_view f" "req_view (f\<lparr>f_cursor := c\<rparr>) = req_view f"
  "req_view (f\<lparr>f_forced := fo\<rparr>) = req_view f" "req_view (f\<lparr>f_anchorWall := aw\<rparr>) = req_view f"
  "req_view (f\<lparr>f_anchorVt := av\<rparr>) = req_view f"
  by (simp_all add: req_view_def settled_def)

lemma emit_view: "settles e = None \<Longrightarrow> req_view (emit e f) = req_view f"
  by (simp add: req_view_def emit_def settled_def List.map_filter_def)

lemma push_view: "req_view (push gs f) = req_view f"
  by (simp add: push_def Let_def view_update)

lemma setFollow_view: "req_view (setFollow f) = req_view f"
  by (simp add: setFollow_def view_update)

lemma set_anchor_view: "req_view (set_anchor p f) = req_view f"
  by (simp add: set_anchor_def view_update)

lemma useReplay_view: "req_view (useReplay f) = req_view f"
  by (simp add: useReplay_def emit_view)

lemmas view_simps = bump_view view_update emit_view push_view setFollow_view set_anchor_view
  useReplay_view

lemma tick_view: "req_view (tick pn now f) = req_view f"
  by (simp add: tick_def advance_def Let_def view_simps split: clock_mode.split)

lemma takeNew_view: "req_view (snd (takeNew f)) = req_view f"
  by (simp add: takeNew_def Let_def view_simps)

lemma seek_view: "seek pn v f = Some f' \<Longrightarrow> req_view f' = req_view f"
  by (auto simp: seek_def Let_def view_simps split: option.splits)

lemma goLive_view: "goLive pn f = Some f' \<Longrightarrow> req_view f' = req_view f"
  by (auto simp: goLive_def Let_def view_simps dest!: seek_view split: option.splits if_splits)

lemma step_loop_view: "req_view (snd (step_loop gs f)) = req_view f"
  by (induction gs f rule: step_loop.induct) (simp_all add: view_simps)

lemma feed_step_view: "req_view (snd (feed_step pn f)) = req_view f"
  by (simp add: feed_step_def split_beta Let_def view_simps step_loop_view)

lemma replay_view: "req_view (useReplay_done pn r f) = req_view f"
  by (simp add: useReplay_done_def feed_reset_def Let_def view_simps split: option.split)

text \<open>The operations that do touch timers or requests.\<close>

lemma scheduleRetry_inv: "req_inv f \<Longrightarrow> req_inv (scheduleRetry f)"
proof -
  assume inv: "req_inv f"
  then have "omap_get (f_timers f) (f_nextTimer f) = None"
    by (auto simp: req_inv_def)
  with inv show ?thesis
    by (auto simp: req_inv_def scheduleRetry_def set_timer_def clear_timer_def settled_def
        omap.get_put omap.get_del split: option.splits if_splits)
qed

lemma view_inv: "req_inv f \<Longrightarrow> req_view f' = req_view f \<Longrightarrow> req_inv f'"
  using req_inv_view [of f' f] by blast

lemma fresh_timer: "req_inv f \<Longrightarrow> omap_get (f_timers f) (f_nextTimer f) = None"
  by (auto simp: req_inv_def)

lemma timer_inv: "req_inv f \<Longrightarrow> (\<And>r. t \<noteq> TRequest r) \<Longrightarrow> req_inv (snd (set_timer t f))"
  using fresh_timer [of f]
  by (auto simp: req_inv_def set_timer_def settled_def omap.get_put)

lemma connect_inv: "req_inv f \<Longrightarrow> req_inv (connect ok f)"
  by (auto simp: connect_def view_simps scheduleRetry_inv elim!: view_inv)

lemma start_inv: "req_inv f \<Longrightarrow> req_inv (feed_start reachable ok f)"
  by (auto simp: feed_start_def view_simps timer_inv connect_inv elim: view_inv)

lemma close_inv: "req_inv f \<Longrightarrow> req_inv (ws_close pn f)"
  unfolding ws_close_def Let_def
  by (intro scheduleRetry_inv) (auto simp: view_simps elim!: view_inv)

text \<open>What the answer and the timeout have in common: the request and its timer go, and the
  promise is settled.\<close>

definition drop_request :: "nat \<Rightarrow> nat \<Rightarrow> order_result \<Rightarrow> feed \<Rightarrow> feed" where
  "drop_request r t res f = f\<lparr>f_timers := omap_del t (f_timers f), f_pending := omap_del r (f_pending f),
     f_out := f_out f @ [Settle r res]\<rparr>"

lemma drop_request_inv:
  assumes inv: "req_inv f" and "omap_get (f_timers f) t = Some (TRequest r)"
  shows "req_inv (drop_request r t res f)"
proof -
  have p: "omap_get (f_pending f) r = Some t" using assms by (simp add: req_inv_def)
  have ns: "r \<notin> set (settled f)" 
  proof
    assume "r \<in> set (settled f)"
    with inv have "omap_get (f_pending f) r = None" unfolding req_inv_def by blast
    with p show False by simp
  qed
  have s: "settled (drop_request r t res f) = settled f @ [r]"
    by (simp add: drop_request_def settled_def List.map_filter_def)
  have uniq: "omap_get (f_timers f) t' = Some (TRequest r) \<longleftrightarrow> t' = t" for t'
    using inv p unfolding req_inv_def by (metis option.inject)
  note i = inv [unfolded req_inv_def]
  show ?thesis
    unfolding req_inv_def s
  proof (intro conjI)
    show "\<forall>r' t'. omap_get (f_pending (drop_request r t res f)) r' = Some t' \<longleftrightarrow>
        omap_get (f_timers (drop_request r t res f)) t' = Some (TRequest r')"
    proof (intro allI)
      fix r' t'
      have "omap_get (f_pending f) r' = Some t' \<longleftrightarrow> omap_get (f_timers f) t' = Some (TRequest r')"
        using i by blast
      then show "omap_get (f_pending (drop_request r t res f)) r' = Some t' \<longleftrightarrow>
          omap_get (f_timers (drop_request r t res f)) t' = Some (TRequest r')"
        using uniq [of t'] assms(2) by (cases "r' = r"; cases "t' = t") (simp_all add: drop_request_def omap.get_del)
    qed
    show "\<forall>r'. 1 \<le> r' \<and> r' \<le> f_reqId (drop_request r t res f) \<longleftrightarrow>
        r' \<in> set (settled f @ [r]) \<or> omap_get (f_pending (drop_request r t res f)) r' \<noteq> None"
      using i p by (simp add: drop_request_def omap.get_del) (metis option.simps(3))
  qed (use i ns in \<open>auto simp: drop_request_def omap.get_del\<close>)
qed

lemma settle_drop:
  "omap_get (f_pending f) r = Some t \<Longrightarrow> settle r res f = drop_request r t res f"
  by (simp add: settle_def drop_request_def emit_def clear_timer_def)

lemma settle_inv: "req_inv f \<Longrightarrow> req_inv (settle r res f)"
proof (cases "omap_get (f_pending f) r")
  case (Some t)
  moreover assume "req_inv f"
  moreover from this Some have "omap_get (f_timers f) t = Some (TRequest r)" by (simp add: req_inv_def)
  ultimately show ?thesis by (simp add: settle_drop drop_request_inv)
qed (simp add: settle_def)

lemma message_inv: "req_inv f \<Longrightarrow> req_inv (onMessage pn m f)"
proof (cases m)
  case (SResult r res)
  moreover assume "req_inv f"
  ultimately show ?thesis
    using view_inv [OF settle_inv] by (simp add: onMessage_def view_simps)
qed (auto simp: onMessage_def switchToLive_def feed_reset_def view_simps Let_def elim!: view_inv)

lemma fire_drop:
  "omap_get (f_timers f) i = Some (TRequest r) \<Longrightarrow> fire_timer ok i f = drop_request r i (failed MSG_NO_ANSWER) f"
  by (simp add: fire_timer_def drop_request_def emit_def)

lemma disarm_inv:
  "req_inv f \<Longrightarrow> omap_get (f_timers f) i = Some t \<Longrightarrow> (\<And>r. t \<noteq> TRequest r) \<Longrightarrow>
   req_inv (f\<lparr>f_timers := omap_del i (f_timers f)\<rparr>)"
  by (auto simp: req_inv_def omap.get_del settled_def)

lemma fire_inv: "req_inv f \<Longrightarrow> req_inv (fire_timer ok i f)"
proof (cases "omap_get (f_timers f) i")
  case (Some t)
  assume inv: "req_inv f"
  show ?thesis
  proof (cases t)
    case (TRequest r)
    with Some inv show ?thesis by (simp add: fire_drop drop_request_inv)
  qed (use Some disarm_inv [OF inv Some] in
      \<open>auto simp: fire_timer_def Let_def view_simps intro: connect_inv elim: view_inv\<close>)
qed (simp add: fire_timer_def)

lemma request_inv: "req_inv f \<Longrightarrow> req_inv (request msg f)"
proof (cases "canTrade f")
  case True
  assume inv: "req_inv f"
  have no: "Suc (f_reqId f) \<notin> set (settled f)" "omap_get (f_pending f) (Suc (f_reqId f)) = None"
    using inv unfolding req_inv_def by (metis Suc_n_not_le_n option.simps(3))+
  have nt: "omap_get (f_timers f) t \<noteq> Some (TRequest (Suc (f_reqId f)))" for t
    using inv no(2) unfolding req_inv_def by (metis option.simps(3))
  have s: "settled (request msg f) = settled f"
    using True by (simp add: request_def set_timer_def emit_def settled_def List.map_filter_def)
  show ?thesis
    using inv True no nt fresh_timer [OF inv] unfolding req_inv_def s
    by (auto simp: request_def set_timer_def emit_def omap.get_put less_Suc_eq le_Suc_eq split: if_splits)
next
  case False
  assume "req_inv f"
  with False show ?thesis by (auto simp: request_def view_simps elim: view_inv)
qed

lemma sock_close_inv: "req_inv f \<Longrightarrow> req_inv (ws_close pn (f\<lparr>f_openSocks := os\<rparr>))"
  by (intro close_inv) (auto simp: view_simps elim: view_inv)

lemmas inv_intros = start_inv sock_close_inv message_inv fire_inv request_inv

lemma exec_req_inv:
  assumes "feed_exec pn e f = Some f'" and "req_inv f"
  shows "req_inv f'"
  using assms
  by (cases e)
     (auto simp: togglePlay_def setSpeed_def Let_def ws_error_def setRecording_def placeOrder_def
       cancelOrder_def feed_subscribe_def feed_unsubscribe_def view_simps tick_view takeNew_view
       feed_step_view replay_view intro: inv_intros elim: view_inv dest: seek_view goLive_view)

lemma new_feed_inv: "cursor_ok new_feed" "req_inv new_feed"
  by (simp_all add: new_feed_def cursor_ok_def req_inv_def settled_def List.map_filter_def)

interpretation safe: service "feed_exec pn" "\<lambda>f. f = new_feed" "\<lambda>f. cursor_ok f \<and> req_inv f" for pn
  by unfold_locales (auto simp: new_feed_inv intro: exec_cursor exec_req_inv)

lemma reach_inv: "feed_reach f \<Longrightarrow> cursor_ok f \<and> req_inv f"
proof (induction rule: feed_reach.induct)
  case start
  show ?case by (rule safe.initial_inv) (rule refl)
qed (rule safe.exec_inv)

abbreviation feed_run :: "(nat \<Rightarrow> jsnum) \<Rightarrow> feed_event list \<Rightarrow> feed \<Rightarrow> feed option" where
  "feed_run pn \<equiv> prun (feed_exec pn)"

interpretation reached: service "feed_exec pn" "\<lambda>f. f = new_feed" feed_reach for pn
  by unfold_locales (auto intro: feed_reach.intros)

lemmas feed_run_reach = reached.prun_inv

text \<open>A request that still waits: its timeout is armed, and would settle it.\<close>

definition waiting :: "feed \<Rightarrow> nat \<Rightarrow> bool" where
  "waiting f r \<longleftrightarrow>
     (case omap_get (f_pending f) r of
        None \<Rightarrow> False
      | Some t \<Rightarrow>
          omap_get (f_timers f) t = Some (TRequest r) \<and>
          f_out (fire_timer True t f) = f_out f @ [Settle r (failed MSG_NO_ANSWER)] \<and>
          omap_get (f_pending (fire_timer True t f)) r = None)"

lemma request_fate:
  assumes inv: "req_inv f" and r: "1 \<le> r" "r \<le> f_reqId f"
  shows "if waiting f r then count_list (settled f) r = 0
     else count_list (settled f) r = 1 \<and> omap_get (f_pending f) r = None"
proof -
  have d: "distinct (settled f)" using inv unfolding req_inv_def by blast
  show ?thesis
  proof (cases "omap_get (f_pending f) r")
    case None
    then have "r \<in> set (settled f)" using inv r unfolding req_inv_def by blast
    with None show ?thesis by (simp add: waiting_def distinct_count_list [OF d])
  next
    case (Some t)
    then have "omap_get (f_timers f) t = Some (TRequest r)" "r \<notin> set (settled f)"
      using inv unfolding req_inv_def by (blast, metis option.simps(3))
    with Some show ?thesis
      by (simp add: waiting_def fire_drop drop_request_def omap.get_del count_list_0_iff)
  qed
qed

text \<open>
  C14. Every request is answered exactly once. In every reachable state, each request number
  issued so far has either been settled exactly once and is forgotten, or has not been settled
  and is pending with its timeout armed, which settles it if nothing else does first; no other
  promise is ever settled.
\<close>

theorem requests_settled_once:
  assumes "feed_reach f"
  shows "set (settled f) \<subseteq> {1..f_reqId f} \<and>
    (\<forall>r \<in> {1..f_reqId f}. if waiting f r then count_list (settled f) r = 0
       else count_list (settled f) r = 1 \<and> omap_get (f_pending f) r = None)"
proof -
  have inv: "req_inv f" using reach_inv [OF assms] by simp
  then show ?thesis using request_fate [OF inv] by (auto simp: req_inv_def)
qed

definition ex_result :: order_result where
  "ex_result = \<lparr>or_ok = True, or_orderId = Some ''7'', or_status = Some ''filled'', or_filled = Some (Fin 5),
     or_avg = Some (Fin 100), or_reason = None\<rparr>"

definition ex_session :: "feed_event list" where
  "ex_session = [EStart True True, ESockOpen 0, EMessage (SStatus None ''connected''),
     EPlaceOrder Bid Limit (Fin 100) (Fin 5), ECancelOrder ''7'', EMessage (SResult 1 ex_result),
     EMessage (SResult 1 ex_result)]"

text \<open>Two requests: the first is answered twice over but settled once, the second waits.\<close>

theorem requests_settled_once_witness:
  "\<exists>f. feed_run (\<lambda>_. Fin 0) ex_session new_feed = Some f \<and> f_reqId f = 2 \<and> settled f = [1] \<and>
     waiting f 2 \<and> count_list (settled f) 2 = 0"
proof -
  define f where "f = the (feed_run (\<lambda>_. Fin 0) ex_session new_feed)"
  have run: "feed_run (\<lambda>_. Fin 0) ex_session new_feed = Some f" and id: "f_reqId f = 2"
    and "settled f = [1]"
    unfolding f_def by code_simp+
  then have r: "feed_reach f" using feed_run_reach [OF run feed_reach.start] by simp
  have "waiting f 2" unfolding f_def by code_simp
  then show ?thesis using requests_settled_once [OF r] run id \<open>settled f = [1]\<close> by force
qed

section \<open>Progress and bounds\<close>

lemma goLive_returns:
  assumes "length (f_frames f) \<le> 2 ^ 30"
  shows "\<exists>f'. goLive pn f = Some f'"
proof -
  obtain f' where "seek pn (firstAt (f\<lparr>f_clockMode := Play, f_speed := Fin 1\<rparr>))
      (f\<lparr>f_clockMode := Play, f_speed := Fin 1\<rparr>) = Some f'"
    by (rule seek_result [of "f\<lparr>f_clockMode := Play, f_speed := Fin 1\<rparr>"]) (use assms in simp_all)
  then show ?thesis by (simp add: goLive_def Let_def)
qed

lemma exec_returns:
  assumes "length (f_frames f) \<le> 2 ^ 30"
  shows "\<exists>f'. feed_exec pn e f = Some f'"
proof (cases e)
  case (ESeek v)
  then show ?thesis using seek_result [OF assms, of pn v] by (metis feed_exec.simps(6))
qed (simp_all add: goLive_returns [OF assms])

text \<open>
  C24. Nothing that can happen makes the feed throw, and none of it moves the cursor outside the
  buffer: from every reachable state with at most \<open>2 ^ 30\<close> frames every event runs to an end,
  in a state whose cursor is again a position of the buffer.
\<close>

theorem feed_never_stuck:
  assumes "feed_reach f" and "length (f_frames f) \<le> 2 ^ 30"
  shows "\<exists>f'. feed_exec pn e f = Some f' \<and> f_cursor f' \<le> length (f_frames f') \<and> feed_reach f'"
proof -
  obtain f' where "feed_exec pn e f = Some f'" using exec_returns [OF assms(2)] by blast
  moreover from this have "feed_reach f'" using assms(1) by (rule feed_reach.step [rotated])
  moreover have "cursor_ok f'" using reach_inv [OF \<open>feed_reach f'\<close>] by simp
  ultimately show ?thesis by (auto simp: cursor_ok_def)
qed

theorem feed_never_stuck_witness:
  "\<exists>f'. feed_exec (\<lambda>_. Fin 3) (ESeek NaN) new_feed = Some f' \<and> f_cursor f' \<le> length (f_frames f') \<and> feed_reach f'"
  by (rule feed_never_stuck [OF feed_reach.start]) (simp add: new_feed_def)

text \<open>How many frames an event brings at once.\<close>

fun brings :: "feed_event \<Rightarrow> nat" where
  "brings (EMessage (SHistory bs)) = length bs"
| "brings (EFetchDone (Some ms)) = length (recording_frames ms)"
| "brings _ = 0"

lemma step_loop_frames: "f_frames (snd (step_loop gs f)) = f_frames f"
  by (induction gs f rule: step_loop.induct) simp_all

lemma conn_frames:
  "f_frames (emit e f) = f_frames f" "f_frames (scheduleRetry f) = f_frames f"
  "f_frames (connect ok f) = f_frames f" "f_frames (useReplay f) = f_frames f"
  "f_frames (settle r res f) = f_frames f" "f_frames (setFollow f) = f_frames f"
  "f_frames (set_anchor p f) = f_frames f" "f_frames (feed_reset src f) = []"
  "f_frames (request msg f) = f_frames f" "f_frames (snd (set_timer t f)) = f_frames f"
  by (auto simp: conn_defs clock_defs settle_def feed_reset_def request_def split: option.splits)

lemmas frames_simps = conn_frames bump_simps

lemma push_length:
  "length (f_frames f @ gs) \<le> MAX_FRAMES + 2 * TRIM \<Longrightarrow> length (f_frames (push gs f)) \<le> MAX_FRAMES + TRIM"
  by (auto simp: push_def Let_def)

lemma message_length:
  assumes "length (f_frames f) \<le> MAX_FRAMES + TRIM" and "brings (EMessage m) \<le> MAX_FRAMES + 2 * TRIM"
  shows "length (f_frames (onMessage pn m f)) \<le> MAX_FRAMES + TRIM"
proof (cases m)
  case (SBatch b)
  then show ?thesis using assms push_length [of f "[FBatch b]"] by (simp add: onMessage_def TRIM_def)
next
  case (SBook a bk)
  then show ?thesis using assms push_length [of f "[FBook a bk]"] by (simp add: onMessage_def TRIM_def)
next
  case (SHistory bs)
  then show ?thesis using assms push_length [of f "map FBatch bs"] by (simp add: onMessage_def frames_simps)
qed (use assms in \<open>simp_all add: onMessage_def switchToLive_def Let_def frames_simps\<close>)

lemma fetch_length:
  assumes "length (f_frames f) \<le> MAX_FRAMES + TRIM" and "brings (EFetchDone r) \<le> MAX_FRAMES + 2 * TRIM"
  shows "length (f_frames (useReplay_done pn r f)) \<le> MAX_FRAMES + TRIM"
proof (cases r)
  case (Some ms)
  then show ?thesis
    using assms push_length [of "feed_reset Replay (f\<lparr>f_roster := recording_roster (f_roster f) ms\<rparr>)" "recording_frames ms"]
    by (simp add: useReplay_done_def Let_def frames_simps)
qed (use assms in \<open>simp add: useReplay_done_def frames_simps\<close>)

lemma other_frames:
  assumes "feed_exec pn e f = Some f'" and "\<nexists>m. e = EMessage m" and "\<nexists>r. e = EFetchDone r"
  shows "f_frames f' = f_frames f"
  using assms
  by (cases e)
     (auto simp: tick_def advance_def takeNew_def goLive_def togglePlay_def setSpeed_def seek_def
       feed_step_def feed_start_def ws_error_def ws_close_def fire_timer_def placeOrder_def
       cancelOrder_def setRecording_def feed_subscribe_def feed_unsubscribe_def Let_def split_beta
       step_loop_frames frames_simps
       split: option.splits if_splits clock_mode.splits timer.splits)

text \<open>
  C32. The frame buffer is bounded: as long as no history and no recording brings more than
  \<open>MAX_FRAMES + 2 * TRIM\<close> frames at once, no event makes it longer than \<open>MAX_FRAMES + TRIM\<close>.
\<close>

theorem buffer_bounded:
  assumes "length (f_frames f) \<le> MAX_FRAMES + TRIM" and "brings e \<le> MAX_FRAMES + 2 * TRIM"
    and "feed_exec pn e f = Some f'"
  shows "length (f_frames f') \<le> MAX_FRAMES + TRIM"
proof (cases "(\<exists>m. e = EMessage m) \<or> (\<exists>r. e = EFetchDone r)")
  case True
  then show ?thesis using assms message_length fetch_length by auto
next
  case False
  then show ?thesis using other_frames [OF assms(3)] assms(1) by auto
qed

theorem buffer_bounded_witness:
  "length (f_frames (the (feed_exec (\<lambda>_. Fin 0) (EMessage (SHistory [ex_batch 1 [], ex_batch 2 []])) (new_feed\<lparr>f_source := Live\<rparr>))))
     \<le> MAX_FRAMES + TRIM"
  by (rule buffer_bounded [of "new_feed\<lparr>f_source := Live\<rparr>" "EMessage (SHistory [ex_batch 1 [], ex_batch 2 []])" "\<lambda>_. Fin 0"])
     (simp_all add: new_feed_def MAX_FRAMES_def)

section \<open>Falling back to the recording\<close>

text \<open>
  What the messages of the gateway do to the buffer: a live feed that has frames appends every
  batch and book it is sent; a replaying feed takes in nothing until a status says the exchange
  is connected.
\<close>

lemma push_frames:
  "length (f_frames f @ gs) \<le> MAX_FRAMES + TRIM \<Longrightarrow> f_frames (push gs f) = f_frames f @ gs"
  by (simp add: push_def)

lemma push_keeps_source: "f_source (push gs f) = f_source f"
  by (simp add: push_def Let_def)

lemma settle_source: "f_source (settle r res f) = f_source f"
  by (auto simp: settle_def emit_def clear_timer_def split: option.split)

lemma message_live:
  assumes "f_source f = Live" and "f_frames f \<noteq> []"
    and "length (f_frames f) + length (recording_frames [m]) \<le> MAX_FRAMES + TRIM"
  shows "f_frames (onMessage pn m f) = f_frames f @ recording_frames [m] \<and> f_source (onMessage pn m f) = Live"
  using assms
  by (cases m) (simp_all add: onMessage_def push_frames push_keeps_source settle_source conn_frames Let_def)

lemma message_replay:
  assumes "f_source f = Replay" and "\<nexists>rec. m = SStatus rec ''connected''"
  shows "f_frames (onMessage pn m f) = f_frames f \<and> f_source (onMessage pn m f) = Replay"
  using assms
  by (cases m) (auto simp: onMessage_def settle_source conn_frames Let_def)

abbreviation take_in :: "(nat \<Rightarrow> jsnum) \<Rightarrow> server_msg list \<Rightarrow> feed \<Rightarrow> feed option" where
  "take_in pn ms \<equiv> feed_run pn (map EMessage ms)"

lemma recording_frames_Cons: "recording_frames (m # ms) = recording_frames [m] @ recording_frames ms"
  by (cases m) simp_all

lemma receive_live:
  assumes "f_source f = Live" and "f_frames f \<noteq> []"
    and "length (f_frames f) + length (recording_frames ms) \<le> MAX_FRAMES + TRIM"
  shows "\<exists>g. take_in pn ms f = Some g \<and> f_frames g = f_frames f @ recording_frames ms \<and> f_source g = Live"
  using assms
proof (induction ms arbitrary: f)
  case (Cons m ms)
  have len: "length (f_frames f) + length (recording_frames [m]) + length (recording_frames ms) \<le> MAX_FRAMES + TRIM"
    using Cons.prems(3) by (simp only: recording_frames_Cons [of m ms] length_append ac_simps)
  then have m: "f_frames (onMessage pn m f) = f_frames f @ recording_frames [m]" "f_source (onMessage pn m f) = Live"
    using message_live [OF Cons.prems(1,2), of m pn] by simp_all
  obtain g where "take_in pn ms (onMessage pn m f) = Some g"
    "f_frames g = f_frames (onMessage pn m f) @ recording_frames ms" "f_source g = Live"
    using Cons.IH [of "onMessage pn m f"] Cons.prems(2) m len by auto
  then show ?case using m by (simp add: recording_frames_Cons [of m ms])
qed simp

lemma receive_replay:
  assumes "f_source f = Replay" and "\<forall>rec. SStatus rec ''connected'' \<notin> set ms"
  shows "\<exists>g. take_in pn ms f = Some g \<and> f_frames g = f_frames f \<and> f_source g = Replay"
  using assms
proof (induction ms arbitrary: f)
  case (Cons m ms)
  then have "f_frames (onMessage pn m f) = f_frames f" "f_source (onMessage pn m f) = Replay"
    using message_replay [of f m pn] by auto
  then show ?case using Cons.IH [of "onMessage pn m f"] Cons.prems(2) by simp
qed simp

lemma receive_connected:
  assumes "f_source f = Replay"
  shows "\<exists>g. feed_exec pn (EMessage (SStatus rec ''connected'')) f = Some g \<and> f_source g = Live \<and> f_frames g = []"
  using assms by (simp add: onMessage_def switchToLive_def feed_reset_def bump_simps)

text \<open>
  C33. A recording that fails to load takes a live feed down with it. The fallback fetch may still
  be under way when the exchange connects. Without the failure a live feed with frames in its
  buffer appends every batch and book of the messages it receives (until it is trimmed). If the fetch now fails, the feed claims to replay: the same
  messages are all dropped, as long as no status announces the exchange again, an order placed
  then is refused on the spot without being sent, and when that status comes the frames
  gathered before the failure are thrown away with it.
\<close>

theorem late_fetch_failure_drops_live:
  assumes "f_source f = Live" and "f_frames f \<noteq> []"
    and "length (f_frames f) + length (recording_frames ms) \<le> MAX_FRAMES + TRIM"
    and "\<forall>rec. SStatus rec ''connected'' \<notin> set ms"
  shows "(\<exists>g. take_in pn ms f = Some g \<and> f_frames g = f_frames f @ recording_frames ms \<and> f_source g = Live) \<and>
    (\<exists>h k. feed_run pn (EFetchDone None # map EMessage ms) f = Some h \<and>
      f_frames h = f_frames f \<and> f_source h = Replay \<and>
      f_out (placeOrder sd ty p q h) = f_out h @ [SettleNow (failed MSG_NOT_RUNNING)] \<and>
      feed_exec pn (EMessage (SStatus rec ''connected'')) h = Some k \<and> f_source k = Live \<and> f_frames k = [])"
proof -
  let ?f = "useReplay_done pn None f"
  have "f_source ?f = Replay" "f_frames ?f = f_frames f" by (simp_all add: useReplay_done_def bump_simps)
  then obtain h where h: "take_in pn ms ?f = Some h" "f_frames h = f_frames f" "f_source h = Replay"
    using receive_replay [of ?f ms pn] assms(4) by auto
  moreover from h(3) have "f_out (placeOrder sd ty p q h) = f_out h @ [SettleNow (failed MSG_NOT_RUNNING)]"
    by (simp add: placeOrder_def request_def canTrade_def emit_def)
  ultimately show ?thesis
    using receive_live [OF assms(1-3), of pn] receive_connected [OF h(3), of pn rec] by auto
qed

text \<open>The run of events: start, fallback timer, socket open, status, a first batch; then the fetch
  fails, and the second batch is lost.\<close>

definition ex_late :: "feed option" where
  "ex_late = feed_run (\<lambda>_. Fin 0) [EStart True True, ETimer True 1, ESockOpen 0,
      EMessage (SStatus None ''connected''), EMessage (SBatch (ex_batch 1 []))] new_feed"

theorem late_fetch_failure_drops_live_witness:
  "\<exists>f g h. ex_late = Some f \<and> FetchRecording \<in> set (f_out f) \<and> canTrade f \<and>
    take_in (\<lambda>_. Fin 0) [SBatch (ex_batch 2 [])] f = Some g \<and>
    f_frames g = [FBatch (ex_batch 1 []), FBatch (ex_batch 2 [])] \<and>
    feed_run (\<lambda>_. Fin 0) [EFetchDone None, EMessage (SBatch (ex_batch 2 []))] f = Some h \<and>
    f_frames h = [FBatch (ex_batch 1 [])] \<and> f_source h = Replay"
proof -
  define f where "f = the ex_late"
  define g where "g = the (feed_run (\<lambda>_. Fin 0) [EStart True True, ETimer True 1, ESockOpen 0,
      EMessage (SStatus None ''connected'')] new_feed)"
  have "feed_run (\<lambda>_. Fin 0) [EStart True True, ETimer True 1, ESockOpen 0,
      EMessage (SStatus None ''connected'')] new_feed = Some g"
    and "f_source g = Live" "f_frames g = []" "FetchRecording \<in> set (f_out g)" "canTrade g"
    unfolding g_def by code_simp+
  then have "ex_late = Some f" and live: "f_source f = Live"
    and frames: "f_frames f = [FBatch (ex_batch 1 [])]" and "FetchRecording \<in> set (f_out f) \<and> canTrade f"
    using prun_append [of "feed_exec (\<lambda>_. Fin 0)" "[EStart True True, ETimer True 1, ESockOpen 0,
      EMessage (SStatus None ''connected'')]" "[EMessage (SBatch (ex_batch 1 []))]" new_feed]
    by (simp_all add: f_def ex_late_def onMessage_def push_def MAX_FRAMES_def TRIM_def canTrade_def
         del: feed_exec.simps(8-11) split: option.splits)
  moreover obtain g h where "take_in (\<lambda>_. Fin 0) [SBatch (ex_batch 2 [])] f = Some g"
    "f_frames g = f_frames f @ recording_frames [SBatch (ex_batch 2 [])]"
    "feed_run (\<lambda>_. Fin 0) (EFetchDone None # map EMessage [SBatch (ex_batch 2 [])]) f = Some h"
    "f_frames h = f_frames f" "f_source h = Replay"
    using late_fetch_failure_drops_live [OF live, of "[SBatch (ex_batch 2 [])]" "\<lambda>_. Fin 0" Bid Limit NaN NaN None]
    by (auto simp: frames MAX_FRAMES_def TRIM_def simp del: prun.simps)
  ultimately show ?thesis by (intro exI [of _ f] exI [of _ g] exI [of _ h]) (simp add: frames del: prun.simps)
qed

text \<open>
  When the gateway reports the exchange gone before any frame arrived, the handler asks for
  the recording, but the request is dropped because the feed is still live: nothing is fetched,
  and the feed stays live with an empty buffer.
\<close>

lemma empty_live_feed_has_no_fallback:
  assumes "f_source f = Live" and "f_frames f = []" and "ex \<noteq> ''connected''"
  shows "let f' = onMessage pn (SStatus rec ex) f in
    f_out f' = f_out f \<and> f_source f' = Live \<and> f_frames f' = [] \<and> \<not> f_exchangeUp f'"
  using assms by (simp add: onMessage_def useReplay_def Let_def)

end
