(* ===== verification/Accounts.thy ===== *)
theory Accounts
  imports Derive
begin

text \<open>
  The accounts of the bots and the human trader (\<^verbatim>\<open>computeStats\<close> in \<^verbatim>\<open>web/src/derive.ts\<close>): orders,
  cancels, fills, volume, position, cash and marked profit, recomputed from the frames up to the
  playback position, and the human trader's open orders. The mutable objects of the source are
  only reachable through the table, so writing one is updating its entry. Shown: the columns are
  ledgers (locale \<open>ledger\<close>) that balance exactly as long as binary64 is exact, and the
  counters tally with the stream (locale \<open>tally\<close>).
\<close>

section \<open>Accounts\<close>

record bot_stat =
  bs_id :: string
  bs_strategy :: string
  bs_orders :: nat
  bs_cancels :: nat
  bs_fills :: nat
  bs_volume :: jsnum
  bs_position :: jsnum
  bs_cash :: jsnum
  bs_pnl :: jsnum

record open_order =
  oo_id :: string
  oo_side :: side
  oo_price :: jsnum
  oo_remaining :: jsnum

type_synonym stats = "(string, bot_stat) omap"

definition new_stat :: "roster_entry list \<Rightarrow> string \<Rightarrow> bot_stat" where
  "new_stat roster nid =
     \<lparr>bs_id = nid,
      bs_strategy = (case find (\<lambda>r. re_id r = nid) roster of
          Some r \<Rightarrow> re_strategy r
        | None \<Rightarrow> if nid = ''human'' then ''you'' else nid),
      bs_orders = 0, bs_cancels = 0, bs_fills = 0,
      bs_volume = Fin 0, bs_position = Fin 0, bs_cash = Fin 0, bs_pnl = Fin 0\<rparr>"

text \<open>The closure \<^verbatim>\<open>get\<close>: the account of \<open>nid\<close>, entered into the table when it is new.\<close>

definition get_stat :: "roster_entry list \<Rightarrow> string \<Rightarrow> stats \<Rightarrow> stats" where
  "get_stat roster nid m = (case omap_get m nid of Some s \<Rightarrow> m | None \<Rightarrow> omap_set nid (new_stat roster nid) m)"

text \<open>\<^verbatim>\<open>const s = get(id)\<close> followed by writes to \<^verbatim>\<open>s\<close>.\<close>

definition with_stat :: "roster_entry list \<Rightarrow> string \<Rightarrow> (bot_stat \<Rightarrow> bot_stat) \<Rightarrow> stats \<Rightarrow> stats" where
  "with_stat roster nid f m =
     (let m' = get_stat roster nid m
      in case omap_get m' nid of Some s \<Rightarrow> omap_set nid (f s) m' | None \<Rightarrow> m')"

record stats_state =
  cs_stats :: stats
  cs_open :: "(string, open_order) omap"
  cs_lastPrice :: jsnum

definition dir_of :: "wire_trade \<Rightarrow> jsnum" where
  "dir_of t = (if t_aggressorSide t = Bid then Fin 1 else Fin (- 1))"

definition agg_leg :: "wire_trade \<Rightarrow> bot_stat \<Rightarrow> bot_stat" where
  "agg_leg t s = s\<lparr>bs_fills := Suc (bs_fills s),
     bs_volume := js_add (bs_volume s) (t_qty t),
     bs_position := js_add (bs_position s) (js_mul (dir_of t) (t_qty t)),
     bs_cash := js_sub (bs_cash s) (js_mul (js_mul (dir_of t) (t_qty t)) (t_price t))\<rparr>"

definition rest_leg :: "wire_trade \<Rightarrow> bot_stat \<Rightarrow> bot_stat" where
  "rest_leg t s = s\<lparr>bs_fills := Suc (bs_fills s),
     bs_volume := js_add (bs_volume s) (t_qty t),
     bs_position := js_sub (bs_position s) (js_mul (dir_of t) (t_qty t)),
     bs_cash := js_add (bs_cash s) (js_mul (js_mul (dir_of t) (t_qty t)) (t_price t))\<rparr>"

definition fill_open :: "wire_trade \<Rightarrow> (string, open_order) omap \<Rightarrow> (string, open_order) omap" where
  "fill_open t m =
     (case omap_get m (t_resting t) of
        None \<Rightarrow> m
      | Some oo \<Rightarrow>
          let rem = js_sub (oo_remaining oo) (t_qty t)
          in if js_le rem (Fin 0) then omap_del (t_resting t) m
             else omap_set (t_resting t) (oo\<lparr>oo_remaining := rem\<rparr>) m)"

definition apply_trade :: "roster_entry list \<Rightarrow> stats_state \<Rightarrow> wire_trade \<Rightarrow> stats_state" where
  "apply_trade roster s t =
     \<lparr>cs_stats = with_stat roster (t_restingNode t) (rest_leg t)
        (with_stat roster (t_aggressorNode t) (agg_leg t) (cs_stats s)),
      cs_open = fill_open t (cs_open s),
      cs_lastPrice = t_price t\<rparr>"

definition count_op :: "wire_batch \<Rightarrow> bot_stat \<Rightarrow> bot_stat" where
  "count_op f s =
     (if b_op f = Submit then s\<lparr>bs_orders := Suc (bs_orders s)\<rparr>
      else if o_cancelOk (b_order f) then s\<lparr>bs_cancels := Suc (bs_cancels s)\<rparr> else s)"

definition track_open ::
  "wire_batch \<Rightarrow> (string, open_order) omap \<Rightarrow> (string, open_order) omap" where
  "track_open f m =
     (let od = b_order f in
      if o_node od = ''human'' then
        (case o_side od of
           Some sd \<Rightarrow>
             if b_op f = Submit \<and> (o_status od = Some Queued \<or> o_status od = Some Partial)
             then omap_set (o_id od) \<lparr>oo_id = o_id od, oo_side = sd, oo_price = o_price od,
                    oo_remaining = js_sub (o_qty od) (o_filled od)\<rparr> m
             else if b_op f = Cancel \<and> o_cancelOk od then omap_del (o_id od) m else m
         | None \<Rightarrow> if b_op f = Cancel \<and> o_cancelOk od then omap_del (o_id od) m else m)
      else m)"

definition apply_batch :: "roster_entry list \<Rightarrow> stats_state \<Rightarrow> wire_batch \<Rightarrow> stats_state" where
  "apply_batch roster s f =
     (let s1 = s\<lparr>cs_stats := with_stat roster (o_node (b_order f)) (count_op f) (cs_stats s)\<rparr>;
          s2 = foldl (apply_trade roster) s1 (b_trades f)
      in s2\<lparr>cs_open := track_open f (cs_open s2)\<rparr>)"

fun apply_frame :: "roster_entry list \<Rightarrow> stats_state \<Rightarrow> frame \<Rightarrow> stats_state" where
  "apply_frame roster s (FBatch f) = apply_batch roster s f"
| "apply_frame roster s (FBook a bk) = s"

definition init_stats :: "roster_entry list \<Rightarrow> stats_state" where
  "init_stats roster =
     \<lparr>cs_stats = foldl (\<lambda>m r. get_stat roster (re_id r) m) [] roster, cs_open = [], cs_lastPrice = Fin 0\<rparr>"

definition mark :: "jsnum \<Rightarrow> bot_stat \<Rightarrow> bot_stat" where
  "mark lastPrice s = s\<lparr>bs_pnl := js_add (bs_cash s) (js_mul (bs_position s) lastPrice)\<rparr>"

text \<open>The main loop runs \<open>i\<close> from 0 while \<open>i \<le> idx\<close> and \<open>i < frames.length\<close>.\<close>

definition computeStats ::
  "frame list \<Rightarrow> int \<Rightarrow> roster_entry list \<Rightarrow> stats \<times> open_order list \<times> jsnum" where
  "computeStats fs idx roster =
     (let s = foldl (apply_frame roster) (init_stats roster) (upto_idx idx fs)
      in (map (\<lambda>(k, v). (k, mark (cs_lastPrice s) v)) (cs_stats s),
          omap_values (cs_open s), cs_lastPrice s))"

section \<open>Double-entry bookkeeping\<close>

text \<open>
  \<open>balanced bal k m S A\<close>: the balances of the table are whole numbers of units \<open>2 ^ -k\<close>, they
  add up to \<open>S\<close>, and their absolute values to at most \<open>A\<close>.
\<close>

definition balanced :: "(bot_stat \<Rightarrow> jsnum) \<Rightarrow> nat \<Rightarrow> stats \<Rightarrow> int \<Rightarrow> int \<Rightarrow> bool" where
  "balanced bal k m S A \<longleftrightarrow>
     (\<exists>xs. map bal (omap_values m) = map (sc k) xs \<and> sum_list xs = S \<and> sum_list (map abs xs) \<le> A)"

lemma with_stat_simps [simp]:
  "with_stat roster nid f [] = [(nid, f (new_stat roster nid))]"
  "with_stat roster nid f ((k, s) # m) =
     (if k = nid then (k, f s) # m else (k, s) # with_stat roster nid f m)"
  by (auto simp: with_stat_def get_stat_def Let_def split: option.split)

lemma balanced_Nil: "balanced bal k [] 0 0"
  by (simp add: balanced_def)

lemma balanced_Cons:
  "balanced bal k ((i, s) # m) S A \<longleftrightarrow>
     (\<exists>x. bal s = sc k x \<and> balanced bal k m (S - x) (A - \<bar>x\<bar>))"
proof
  assume "balanced bal k ((i, s) # m) S A"
  then obtain xs where xs: "map bal (omap_values ((i, s) # m)) = map (sc k) xs" "sum_list xs = S"
    "sum_list (map abs xs) \<le> A" unfolding balanced_def by blast
  then obtain x ys where "xs = x # ys" by (cases xs) auto
  with xs show "\<exists>x. bal s = sc k x \<and> balanced bal k m (S - x) (A - \<bar>x\<bar>)"
    unfolding balanced_def by (intro exI [of _ x] conjI exI [of _ ys]) auto
next
  assume "\<exists>x. bal s = sc k x \<and> balanced bal k m (S - x) (A - \<bar>x\<bar>)"
  then obtain x ys where "bal s = sc k x" "map bal (omap_values m) = map (sc k) ys"
    "sum_list ys = S - x" "sum_list (map abs ys) \<le> A - \<bar>x\<bar>" by (auto simp: balanced_def)
  then show "balanced bal k ((i, s) # m) S A"
    unfolding balanced_def by (intro exI [of _ "x # ys"]) auto
qed

lemma balanced_nonneg: "balanced bal k m S A \<Longrightarrow> 0 \<le> A"
proof -
  assume "balanced bal k m S A"
  then obtain xs where "sum_list (map abs xs) \<le> A" by (auto simp: balanced_def)
  moreover have "0 \<le> sum_list (map abs (xs :: int list))" by (intro sum_list_nonneg) auto
  ultimately show ?thesis by linarith
qed

lemma balanced_weaken: "balanced bal k m S A \<Longrightarrow> A \<le> B \<Longrightarrow> balanced bal k m S B"
  by (auto simp: balanced_def intro: order_trans)

text \<open>Posting one amount to one account.\<close>

lemma balanced_with_stat:
  assumes "balanced bal k m S A" and "A \<le> B" and "bal (new_stat roster nid) = sc k 0"
    and post: "\<And>s x. bal s = sc k x \<Longrightarrow> \<bar>x\<bar> \<le> B \<Longrightarrow> bal (f s) = sc k (x + d)"
  shows "balanced bal k (with_stat roster nid f m) (S + d) (A + \<bar>d\<bar>)"
  using assms(1,2)
proof (induction m arbitrary: S A)
  case Nil
  then have "S = 0" "0 \<le> A" by (auto simp: balanced_def)
  moreover have "bal (f (new_stat roster nid)) = sc k (0 + d)"
    using assms(3) Nil calculation by (intro post) auto
  ultimately show ?case unfolding balanced_def by (intro exI [of _ "[d]"]) auto
next
  case (Cons p m)
  obtain i s where p: "p = (i, s)" by (cases p)
  from Cons.prems(1) obtain x where x: "bal s = sc k x" and m: "balanced bal k m (S - x) (A - \<bar>x\<bar>)"
    by (auto simp: p balanced_Cons)
  show ?case
  proof (cases "i = nid")
    case True
    have "\<bar>x\<bar> \<le> B" using balanced_nonneg [OF m] Cons.prems(2) by linarith
    then have "bal (f s) = sc k (x + d)" using post x by simp
    moreover have "balanced bal k m (S + d - (x + d)) (A + \<bar>d\<bar> - \<bar>x + d\<bar>)"
      using balanced_weaken [OF m, of "A + \<bar>d\<bar> - \<bar>x + d\<bar>"] by simp
    ultimately show ?thesis using True by (auto simp: p balanced_Cons)
  next
    case False
    have "balanced bal k (with_stat roster nid f m) (S - x + d) (A - \<bar>x\<bar> + \<bar>d\<bar>)"
      using Cons.IH [OF m] Cons.prems(2) by simp
    then show ?thesis using False x by (auto simp: p balanced_Cons algebra_simps)
  qed
qed

text \<open>
  What a balance column must do to be a ledger: a new account starts at zero, counting orders
  does not move it, and the two legs of a trade post the amounts \<open>agg\<close> and \<open>rst\<close>, exactly as
  long as everything stays below \<open>2 ^ 53\<close> units. Then whole runs add up.
\<close>

locale ledger =
  fixes bal :: "bot_stat \<Rightarrow> jsnum"
    and k :: nat
    and agg rst :: "wire_trade \<Rightarrow> int"
    and ok :: "wire_trade \<Rightarrow> bool"
  assumes fresh: "bal (new_stat roster nid) = sc k 0"
    and count: "bal (count_op f s) = bal s"
    and agg_post: "ok t \<Longrightarrow> bal s = sc k x \<Longrightarrow> \<bar>x\<bar> + \<bar>agg t\<bar> < 2 ^ 53 \<Longrightarrow>
      bal (agg_leg t s) = sc k (x + agg t)"
    and rst_post: "ok t \<Longrightarrow> bal s = sc k x \<Longrightarrow> \<bar>x\<bar> + \<bar>rst t\<bar> < 2 ^ 53 \<Longrightarrow>
      bal (rest_leg t s) = sc k (x + rst t)"
begin

definition turnover :: "wire_trade list \<Rightarrow> int" where
  "turnover ts = sum_list (map (\<lambda>t. \<bar>agg t\<bar> + \<bar>rst t\<bar>) ts)"

definition net :: "wire_trade list \<Rightarrow> int" where
  "net ts = sum_list (map (\<lambda>t. agg t + rst t) ts)"

lemma turnover_simps [simp]:
  "turnover [] = 0" "turnover (t # ts) = \<bar>agg t\<bar> + \<bar>rst t\<bar> + turnover ts"
  "turnover (ts @ us) = turnover ts + turnover us" "net [] = 0"
  "net (t # ts) = agg t + rst t + net ts" "net (ts @ us) = net ts + net us"
  by (simp_all add: turnover_def net_def)

lemma turnover_nonneg: "0 \<le> turnover ts"
  unfolding turnover_def by (intro sum_list_nonneg) auto

lemma trade_balanced:
  assumes "balanced bal k (cs_stats s) S A" and "ok t" and "A + \<bar>agg t\<bar> + \<bar>rst t\<bar> < 2 ^ 53"
  shows "balanced bal k (cs_stats (apply_trade roster s t)) (S + (agg t + rst t))
    (A + (\<bar>agg t\<bar> + \<bar>rst t\<bar>))"
proof -
  have "balanced bal k (with_stat roster (t_aggressorNode t) (agg_leg t) (cs_stats s))
      (S + agg t) (A + \<bar>agg t\<bar>)"
    using assms by (intro balanced_with_stat [where B = A] fresh agg_post) auto
  then have "balanced bal k (cs_stats (apply_trade roster s t)) (S + agg t + rst t)
      (A + \<bar>agg t\<bar> + \<bar>rst t\<bar>)"
    using assms(2,3) unfolding apply_trade_def
    by (auto intro!: balanced_with_stat [where B = "A + \<bar>agg t\<bar>"] fresh rst_post)
  then show ?thesis by (simp add: add.assoc)
qed

lemma trades_balanced:
  assumes "balanced bal k (cs_stats s) S A" and "\<forall>t \<in> set ts. ok t" and "A + turnover ts < 2 ^ 53"
  shows "balanced bal k (cs_stats (foldl (apply_trade roster) s ts)) (S + net ts) (A + turnover ts)"
  using assms
proof (induction ts arbitrary: s S A)
  case (Cons t ts)
  have "balanced bal k (cs_stats (apply_trade roster s t)) (S + (agg t + rst t))
      (A + (\<bar>agg t\<bar> + \<bar>rst t\<bar>))"
    using Cons.prems turnover_nonneg [of ts] by (intro trade_balanced) auto
  from Cons.IH [OF this] show ?case using Cons.prems by (simp add: add.assoc)
qed simp

lemma count_balanced:
  assumes "balanced bal k m S A"
  shows "balanced bal k (with_stat roster nid (count_op f) m) S A"
  using balanced_with_stat [OF assms order_refl fresh, of "count_op f" 0] by (simp add: count)

lemma frames_balanced:
  assumes "balanced bal k (cs_stats s) S A"
    and "\<forall>t \<in> set (concat (map b_trades (batches fs))). ok t"
    and "A + turnover (concat (map b_trades (batches fs))) < 2 ^ 53"
  shows "balanced bal k (cs_stats (foldl (apply_frame roster) s fs))
    (S + net (concat (map b_trades (batches fs)))) (A + turnover (concat (map b_trades (batches fs))))"
  using assms
proof (induction fs arbitrary: s S A)
  case (Cons f fs)
  show ?case
  proof (cases f)
    case (FBatch b)
    have "balanced bal k (cs_stats (apply_frame roster s f)) (S + net (b_trades b))
        (A + turnover (b_trades b))"
      using Cons.prems FBatch turnover_nonneg [of "concat (map b_trades (batches fs))"]
      by (auto simp: apply_batch_def Let_def intro!: trades_balanced count_balanced)
    from Cons.IH [OF this] show ?thesis using Cons.prems FBatch by (simp add: add.assoc)
  next
    case (FBook a bk)
    with Cons show ?thesis by simp
  qed
qed simp

lemma init_balanced: "balanced bal k (cs_stats (init_stats roster)) 0 0"
proof -
  have get: "get_stat roster nid m = with_stat roster nid (\<lambda>s. s) m" for nid m
    by (induction m) (auto simp: get_stat_def split: option.split)
  have "balanced bal k (foldl (\<lambda>m r. get_stat roster (re_id r) m) m rs) 0 0"
    if "balanced bal k m 0 0" for m and rs :: "roster_entry list"
    using that
  proof (induction rs arbitrary: m)
    case (Cons r rs)
    have "balanced bal k (get_stat roster (re_id r) m) (0 + 0) (0 + \<bar>0\<bar>)"
      unfolding get by (rule balanced_with_stat [OF Cons.prems order_refl fresh]) simp
    with Cons.IH show ?case by simp
  qed simp
  then show ?thesis using balanced_Nil by (simp add: init_stats_def)
qed

lemma stats_balanced:
  assumes "\<forall>t \<in> set (concat (map b_trades (batches fs))). ok t"
    and "turnover (concat (map b_trades (batches fs))) < 2 ^ 53"
  shows "balanced bal k (cs_stats (foldl (apply_frame roster) (init_stats roster) fs))
    (net (concat (map b_trades (batches fs)))) (turnover (concat (map b_trades (batches fs))))"
  using frames_balanced [OF init_balanced, of fs] assms by simp

end


text \<open>The amounts of a trade as integers: quantity, direction, and price in ticks of \<open>2 ^ -k\<close>.\<close>

definition q_of :: "wire_trade \<Rightarrow> int" where
  "q_of t = num_floor (t_qty t)"

definition sgn_of :: "wire_trade \<Rightarrow> int" where
  "sgn_of t = (if t_aggressorSide t = Bid then 1 else - 1)"

definition ticks :: "nat \<Rightarrow> wire_trade \<Rightarrow> int" where
  "ticks k t = (case t_price t of Fin x \<Rightarrow> \<lfloor>x * 2 ^ k\<rfloor> | _ \<Rightarrow> 0)"

definition whole :: "wire_trade \<Rightarrow> bool" where
  "whole t \<longleftrightarrow> t_qty t = js_int (q_of t)"

definition on_tick :: "nat \<Rightarrow> wire_trade \<Rightarrow> bool" where
  "on_tick k t \<longleftrightarrow> k \<le> 1074 \<and> whole t \<and> \<bar>q_of t\<bar> < 2 ^ 53 \<and> t_price t = sc k (ticks k t)"

lemma abs_sgn_of [simp]: "\<bar>sgn_of t * x\<bar> = \<bar>x\<bar>"
  by (simp add: sgn_of_def)

lemma signed_qty:
  assumes "whole t" and "\<bar>q_of t\<bar> < 2 ^ 53"
  shows "js_mul (dir_of t) (t_qty t) = sc 0 (sgn_of t * q_of t)"
proof -
  have "dir_of t = sc 0 (sgn_of t)" by (simp add: dir_of_def sgn_of_def sc_def)
  moreover have "t_qty t = sc 0 (q_of t)" using assms(1) by (simp add: whole_def sc_zero_scale)
  ultimately show ?thesis using js_mul_sc [of "sgn_of t" "q_of t" 0] assms(2) by simp
qed

lemma signed_notional:
  assumes "on_tick k t" and "\<bar>q_of t * ticks k t\<bar> < 2 ^ 53"
  shows "js_mul (js_mul (dir_of t) (t_qty t)) (t_price t) = sc k (sgn_of t * q_of t * ticks k t)"
  using assms js_mul_sc [of "sgn_of t * q_of t" "ticks k t" k]
  by (simp add: on_tick_def signed_qty mult.assoc)

interpretation position: ledger bs_position 0 "\<lambda>t. sgn_of t * q_of t" "\<lambda>t. - (sgn_of t * q_of t)" whole
proof unfold_locales
  fix t and s :: bot_stat and x
  assume t: "whole t" and s: "bs_position s = sc 0 x"
  {
    assume b: "\<bar>x\<bar> + \<bar>sgn_of t * q_of t\<bar> < 2 ^ 53"
    then have "\<bar>x + sgn_of t * q_of t\<bar> < 2 ^ 53" by linarith
    with b t s show "bs_position (agg_leg t s) = sc 0 (x + sgn_of t * q_of t)"
      by (simp add: agg_leg_def signed_qty js_add_sc)
  next
    assume b: "\<bar>x\<bar> + \<bar>- (sgn_of t * q_of t)\<bar> < 2 ^ 53"
    then have "\<bar>x - sgn_of t * q_of t\<bar> < 2 ^ 53" by linarith
    with b t s show "bs_position (rest_leg t s) = sc 0 (x + - (sgn_of t * q_of t))"
      by (simp add: rest_leg_def signed_qty js_sub_sc)
  }
qed (simp_all add: new_stat_def count_op_def sc_def)

interpretation volume: ledger bs_volume 0 q_of q_of whole
proof unfold_locales
  fix t and s :: bot_stat and x
  assume t: "whole t" and s: "bs_volume s = sc 0 x" and b: "\<bar>x\<bar> + \<bar>q_of t\<bar> < 2 ^ 53"
  have q: "t_qty t = sc 0 (q_of t)" using t by (simp add: whole_def sc_zero_scale)
  have "\<bar>x + q_of t\<bar> < 2 ^ 53" using b by linarith
  with s q show "bs_volume (agg_leg t s) = sc 0 (x + q_of t)"
    and "bs_volume (rest_leg t s) = sc 0 (x + q_of t)"
    by (simp_all add: agg_leg_def rest_leg_def js_add_sc)
qed (simp_all add: new_stat_def count_op_def sc_def)

interpretation cash: ledger bs_cash k "\<lambda>t. - (sgn_of t * q_of t * ticks k t)"
  "\<lambda>t. sgn_of t * q_of t * ticks k t" "on_tick k" for k
proof unfold_locales
  fix t and s :: bot_stat and x
  assume t: "on_tick k t" and s: "bs_cash s = sc k x"
  let ?n = "sgn_of t * q_of t * ticks k t"
  have n: "\<bar>?n\<bar> = \<bar>q_of t * ticks k t\<bar>" by (simp add: mult.assoc)
  have k: "k \<le> 1074" using t by (simp add: on_tick_def)
  {
    assume b: "\<bar>x\<bar> + \<bar>- ?n\<bar> < 2 ^ 53"
    then have "\<bar>x - ?n\<bar> < 2 ^ 53" "\<bar>q_of t * ticks k t\<bar> < 2 ^ 53" using n by linarith+
    with t s k show "bs_cash (agg_leg t s) = sc k (x + - ?n)"
      by (simp add: agg_leg_def signed_notional js_sub_sc)
  next
    assume b: "\<bar>x\<bar> + \<bar>?n\<bar> < 2 ^ 53"
    then have "\<bar>x + ?n\<bar> < 2 ^ 53" "\<bar>q_of t * ticks k t\<bar> < 2 ^ 53" using n by linarith+
    with t s k show "bs_cash (rest_leg t s) = sc k (x + ?n)"
      by (simp add: rest_leg_def signed_notional js_add_sc)
  }
qed (simp_all add: new_stat_def count_op_def sc_def)

definition trades_upto :: "frame list \<Rightarrow> int \<Rightarrow> wire_trade list" where
  "trades_upto fs idx = concat (map b_trades (batches (upto_idx idx fs)))"

definition final_stats :: "roster_entry list \<Rightarrow> frame list \<Rightarrow> int \<Rightarrow> stats_state" where
  "final_stats roster fs idx = foldl (apply_frame roster) (init_stats roster) (upto_idx idx fs)"

lemma computeStats_columns:
  "map bs_position (omap_values (fst (computeStats fs idx roster))) =
     map bs_position (omap_values (cs_stats (final_stats roster fs idx)))"
  "map bs_volume (omap_values (fst (computeStats fs idx roster))) =
     map bs_volume (omap_values (cs_stats (final_stats roster fs idx)))"
  "map bs_cash (omap_values (fst (computeStats fs idx roster))) =
     map bs_cash (omap_values (cs_stats (final_stats roster fs idx)))"
  "map bs_pnl (omap_values (fst (computeStats fs idx roster))) =
     map (\<lambda>s. js_add (bs_cash s) (js_mul (bs_position s) (cs_lastPrice (final_stats roster fs idx))))
       (omap_values (cs_stats (final_stats roster fs idx)))"
  by (auto simp: computeStats_def final_stats_def Let_def mark_def split_beta)

lemma columns_balance:
  assumes "\<forall>t \<in> set (trades_upto fs idx). whole t"
    and "2 * sum_list (map (\<lambda>t. \<bar>q_of t\<bar>) (trades_upto fs idx)) < 2 ^ 53"
  shows "\<exists>ps vs. map bs_position (omap_values (fst (computeStats fs idx roster))) = map js_int ps \<and>
      sum_list ps = 0 \<and>
    map bs_volume (omap_values (fst (computeStats fs idx roster))) = map js_int vs \<and>
      sum_list vs = 2 * sum_list (map q_of (trades_upto fs idx))"
proof -
  let ?ts = "trades_upto fs idx"
  have turn: "position.turnover ts = 2 * sum_list (map (\<lambda>t. \<bar>q_of t\<bar>) ts)"
    "volume.turnover ts = 2 * sum_list (map (\<lambda>t. \<bar>q_of t\<bar>) ts)"
    "position.net ts = 0" "volume.net ts = 2 * sum_list (map q_of ts)" for ts
    by (induction ts) simp_all
  have "balanced bs_position 0 (cs_stats (final_stats roster fs idx)) 0 (position.turnover ?ts)"
    and "balanced bs_volume 0 (cs_stats (final_stats roster fs idx)) (volume.net ?ts) (volume.turnover ?ts)"
    using position.stats_balanced [of "upto_idx idx fs" roster]
      volume.stats_balanced [of "upto_idx idx fs" roster] assms turn
    by (simp_all add: trades_upto_def final_stats_def)
  then show ?thesis
    unfolding balanced_def computeStats_columns turn(4) sc_zero_scale by blast
qed

text \<open>
  C9. Positions are zero-sum. If the traded quantities are whole numbers and the traded volume
  stays below \<open>2 ^ 52\<close>, the positions of all accounts are integers that add up to exactly
  zero, and the volumes to exactly twice the traded volume, despite the floating-point
  accumulators and whoever trades with whom (an account may trade with itself).
\<close>

theorem positions_sum_to_zero:
  assumes "\<forall>t \<in> set (trades_upto fs idx). whole t"
    and "2 * sum_list (map (\<lambda>t. \<bar>q_of t\<bar>) (trades_upto fs idx)) < 2 ^ 53"
  shows "\<exists>ps vs. map bs_position (omap_values (fst (computeStats fs idx roster))) = map js_int ps \<and>
      sum_list ps = 0 \<and>
    map bs_volume (omap_values (fst (computeStats fs idx roster))) = map js_int vs \<and>
      sum_list vs = 2 * sum_list (map q_of (trades_upto fs idx))"
  using assms by (rule columns_balance)


definition ex_frames :: "frame list" where
  "ex_frames = [FBatch (ex_batch 1000 [ex_trade ''A'' 10 2]),
     FBook (Fin 1001) \<lparr>bk_bids = [], bk_asks = []\<rparr>,
     FBatch (ex_batch 1002 [ex_trade ''B'' 10 2, ex_trade ''C'' (21 / 2) 3])]"

lemma ex_frames_trades: "trades_upto ex_frames 2 = [ex_trade ''A'' 10 2, ex_trade ''B'' 10 2, ex_trade ''C'' (21 / 2) 3]"
  by (simp add: trades_upto_def ex_frames_def upto_idx_def ex_batch_def)

theorem positions_sum_to_zero_witness:
  "\<exists>ps vs. map bs_position (omap_values (fst (computeStats ex_frames 2 []))) = map js_int ps \<and>
      sum_list ps = 0 \<and>
    map bs_volume (omap_values (fst (computeStats ex_frames 2 []))) = map js_int vs \<and>
      sum_list vs = 14"
  using positions_sum_to_zero [of ex_frames 2 "[]"]
  by (simp add: ex_frames_trades ex_trade_def whole_def q_of_def)

lemma final_lastPrice:
  "cs_lastPrice (final_stats roster fs idx) =
     (if trades_upto fs idx = [] then Fin 0 else t_price (last (trades_upto fs idx)))"
proof -
  have trades: "cs_lastPrice (foldl (apply_trade roster) s ts) =
      (if ts = [] then cs_lastPrice s else t_price (last ts))" for s ts
    by (induction ts arbitrary: s) (auto simp: apply_trade_def)
  have frames: "cs_lastPrice (foldl (apply_frame roster) s gs) =
      (let ts = concat (map b_trades (batches gs))
       in if ts = [] then cs_lastPrice s else t_price (last ts))" for s gs
  proof (induction gs arbitrary: s)
    case (Cons g gs)
    then show ?case by (cases g) (auto simp: apply_batch_def Let_def trades)
  qed simp
  show ?thesis by (simp add: final_stats_def frames trades_upto_def Let_def init_stats_def)
qed

lemma balanced_pointwise:
  assumes "balanced bal k m S A"
  obtains xs where "map bal (omap_values m) = map (sc k) xs" "sum_list xs = S" "\<forall>x \<in> set xs. \<bar>x\<bar> \<le> A"
proof -
  obtain xs where xs: "map bal (omap_values m) = map (sc k) xs" "sum_list xs = S"
    "sum_list (map abs xs) \<le> A" using assms unfolding balanced_def by blast
  have "\<bar>x\<bar> \<le> sum_list (map abs xs)" if "x \<in> set xs" for x
    using that by (intro member_le_sum_list) auto
  with xs(3) have "\<forall>x \<in> set xs. \<bar>x\<bar> \<le> A" by (meson order_trans)
  with xs(1,2) that show thesis by blast
qed

lemma cash_turnover_le:
  assumes "\<forall>t \<in> set ts. \<bar>ticks k t\<bar> \<le> M"
  shows "cash.turnover k ts \<le> 2 * M * sum_list (map (\<lambda>t. \<bar>q_of t\<bar>) ts)"
  using assms
proof (induction ts)
  case (Cons t ts)
  have "\<bar>sgn_of t * q_of t * ticks k t\<bar> = \<bar>q_of t\<bar> * \<bar>ticks k t\<bar>"
    by (simp only: mult.assoc abs_sgn_of) (simp add: abs_mult)
  also have "\<dots> \<le> M * \<bar>q_of t\<bar>"
    using Cons.prems by (subst mult.commute) (intro mult_right_mono; simp)
  finally show ?case using Cons by (simp add: distrib_left)
qed simp

text \<open>Marking a column of balances at a price \<open>L\<close>, exactly.\<close>

lemma marked_column:
  assumes "\<forall>c \<in> set cs. \<bar>c\<bar> \<le> C" and "\<forall>p \<in> set ps. \<bar>p\<bar> \<le> P" and "\<bar>L\<bar> \<le> M"
    and "C + P * M < 2 ^ 53 \<and> 0 \<le> C \<and> 0 \<le> P" and "k \<le> 1074" and "length cs = length ps"
  shows "map (\<lambda>(c, p). js_add (sc k c) (js_mul (sc 0 p) (sc k L))) (zip cs ps) =
    map (sc k) (map (\<lambda>(c, p). c + p * L) (zip cs ps))"
proof -
  have "js_add (sc k c) (js_mul (sc 0 p) (sc k L)) = sc k (c + p * L)" if "(c, p) \<in> set (zip cs ps)" for c p
  proof -
    have cp: "\<bar>c\<bar> \<le> C" "\<bar>p\<bar> \<le> P"
      using assms(1,2) that by (auto dest: set_zip_leftD set_zip_rightD)
    then have "\<bar>p * L\<bar> \<le> P * M"
      using mult_mono [of "\<bar>p\<bar>" P "\<bar>L\<bar>" M] assms(3,4) by (simp add: abs_mult)
    then have "\<bar>p * L\<bar> < 2 ^ 53" "\<bar>c + p * L\<bar> < 2 ^ 53" using cp(1) assms(4) by linarith+
    then show ?thesis using assms(5) by (simp add: js_mul_sc js_add_sc)
  qed
  then show ?thesis by auto
qed

lemma marked_sum:
  "length cs = length ps \<Longrightarrow>
   sum_list (map (\<lambda>(c, p). c + p * L) (zip cs ps)) = sum_list cs + sum_list ps * (L :: int)"
  by (induction cs ps rule: list_induct2) (simp_all add: algebra_simps)

text \<open>
  C25. Cash and profit are zero-sum too. If in addition every price is a whole number of ticks of
  \<open>2 ^ -k\<close>, at most \<open>M\<close> of them, and \<open>4 M\<close> times the volume is below \<open>2 ^ 53\<close>, the cash
  columns and the marked profit-and-loss column add up to exactly zero.
\<close>

theorem profit_and_loss_zero_sum:
  assumes "\<forall>t \<in> set (trades_upto fs idx). on_tick k t \<and> \<bar>ticks k t\<bar> \<le> M" and "1 \<le> M"
    and "4 * M * sum_list (map (\<lambda>t. \<bar>q_of t\<bar>) (trades_upto fs idx)) < 2 ^ 53" and "k \<le> 1074"
  shows "\<exists>cs xs. map bs_cash (omap_values (fst (computeStats fs idx roster))) = map (sc k) cs \<and>
      sum_list cs = 0 \<and>
    map bs_pnl (omap_values (fst (computeStats fs idx roster))) = map (sc k) xs \<and> sum_list xs = 0"
proof -
  let ?ts = "trades_upto fs idx" and ?m = "omap_values (cs_stats (final_stats roster fs idx))"
  define Q where "Q = sum_list (map (\<lambda>t. \<bar>q_of t\<bar>) ?ts)"
  have Q: "0 \<le> Q" unfolding Q_def by (intro sum_list_nonneg) auto
  have small: "2 * Q \<le> 4 * M * Q" "2 * M * Q < 2 ^ 53"
    using mult_mono [of 2 "4 * M" Q Q] assms(2,3) Q by (auto simp: Q_def)
  have turn: "position.turnover ts = 2 * sum_list (map (\<lambda>t. \<bar>q_of t\<bar>) ts)" "position.net ts = 0"
    "cash.net k ts = 0" for ts
    by (induction ts) simp_all
  have "balanced bs_position 0 (cs_stats (final_stats roster fs idx)) 0 (2 * Q)"
    using position.stats_balanced [of "upto_idx idx fs" roster] assms(1,3) small turn
    by (simp add: trades_upto_def final_stats_def Q_def on_tick_def)
  then obtain ps where ps: "map bs_position ?m = map (sc 0) ps" "sum_list ps = 0" "\<forall>p \<in> set ps. \<bar>p\<bar> \<le> 2 * Q"
    by (rule balanced_pointwise)
  have ct: "cash.turnover k ?ts \<le> 2 * M * Q" unfolding Q_def using assms(1) by (intro cash_turnover_le) simp
  then have "balanced bs_cash k (cs_stats (final_stats roster fs idx)) 0 (cash.turnover k ?ts)"
    using cash.stats_balanced [of "upto_idx idx fs" k roster] assms(1) small turn
    by (simp add: trades_upto_def final_stats_def)
  from balanced_weaken [OF this ct] obtain cs
    where cs: "map bs_cash ?m = map (sc k) cs" "sum_list cs = 0" "\<forall>c \<in> set cs. \<bar>c\<bar> \<le> 2 * M * Q"
    by (rule balanced_pointwise)
  define L where "L = (if ?ts = [] then 0 else ticks k (last ?ts))"
  have L: "cs_lastPrice (final_stats roster fs idx) = sc k L" and "\<bar>L\<bar> \<le> M"
    using assms(1,2) by (auto simp: L_def final_lastPrice on_tick_def sc_def)
  have len: "length cs = length ps" using ps(1) cs(1) by (metis length_map)
  have "map bs_pnl (omap_values (fst (computeStats fs idx roster))) =
      map (\<lambda>(c, p). js_add c (js_mul p (sc k L))) (zip (map bs_cash ?m) (map bs_position ?m))"
    unfolding computeStats_columns L by (simp add: zip_map_map zip_same_conv_map comp_def)
  also have "\<dots> = map (sc k) (map (\<lambda>(c, p). c + p * L) (zip cs ps))"
    unfolding ps(1) cs(1) using assms(3,4) \<open>\<bar>L\<bar> \<le> M\<close> Q
    by (subst marked_column [OF cs(3) ps(3) _ _ _ len, symmetric])
       (auto simp: zip_map_map Q_def mult.commute mult.left_commute)
  finally have pnl: "map bs_pnl (omap_values (fst (computeStats fs idx roster))) =
      map (sc k) (map (\<lambda>(c, p). c + p * L) (zip cs ps))" .
  have "sum_list (map (\<lambda>(c, p). c + p * L) (zip cs ps)) = sum_list cs + sum_list ps * L"
    using len by (rule marked_sum)
  then have "sum_list (map (\<lambda>(c, p). c + p * L) (zip cs ps)) = 0" using cs(2) ps(2) by simp
  with pnl cs(1,2) show ?thesis unfolding computeStats_columns(3) by blast
qed


text \<open>A witness with prices on half ticks.\<close>

theorem profit_and_loss_zero_sum_witness:
  "\<exists>cs xs. map bs_cash (omap_values (fst (computeStats ex_frames 2 []))) = map (sc 1) cs \<and>
      sum_list cs = 0 \<and>
    map bs_pnl (omap_values (fst (computeStats ex_frames 2 []))) = map (sc 1) xs \<and> sum_list xs = 0"
  using profit_and_loss_zero_sum [of ex_frames 2 1 21 "[]"]
  by (simp add: ex_frames_trades ex_trade_def on_tick_def whole_def q_of_def ticks_def sc_def)

section \<open>Counters\<close>

text \<open>A column that only counts: \<open>per f\<close> for a batch, \<open>leg\<close> for each leg of a trade.\<close>

locale tally =
  fixes cnt :: "bot_stat \<Rightarrow> nat"
    and per :: "wire_batch \<Rightarrow> nat"
    and leg :: nat
  assumes cnt_new: "cnt (new_stat roster nid) = 0"
    and cnt_op: "cnt (count_op f s) = cnt s + per f"
    and cnt_agg: "cnt (agg_leg t s) = cnt s + leg"
    and cnt_rest: "cnt (rest_leg t s) = cnt s + leg"
begin

lemma with_stat_cnt:
  assumes "\<And>s. cnt (f s) = cnt s + d"
  shows "sum_list (map cnt (omap_values (with_stat roster nid f m))) =
    sum_list (map cnt (omap_values m)) + d"
  using assms by (induction m) (auto simp: cnt_new)

lemma trades_cnt:
  "sum_list (map cnt (omap_values (cs_stats (foldl (apply_trade roster) s ts)))) =
     sum_list (map cnt (omap_values (cs_stats s))) + 2 * leg * length ts"
  by (induction ts arbitrary: s)
     (simp_all add: apply_trade_def with_stat_cnt [OF cnt_agg] with_stat_cnt [OF cnt_rest] del: map_map)

lemma frames_cnt:
  "sum_list (map cnt (omap_values (cs_stats (foldl (apply_frame roster) s fs)))) =
     sum_list (map cnt (omap_values (cs_stats s))) + sum_list (map per (batches fs)) +
     2 * leg * length (concat (map b_trades (batches fs)))"
proof (induction fs arbitrary: s)
  case (Cons f fs)
  then show ?case
    by (cases f) (simp_all add: apply_batch_def Let_def trades_cnt with_stat_cnt [OF cnt_op]
        algebra_simps del: map_map)
qed simp

lemma init_cnt: "sum_list (map cnt (omap_values (cs_stats (init_stats roster)))) = 0"
proof -
  have get: "get_stat roster nid m = with_stat roster nid (\<lambda>s. s) m" for nid m
    by (induction m) (auto simp: get_stat_def split: option.split)
  have "sum_list (map cnt (omap_values (foldl (\<lambda>m r. get_stat roster (re_id r) m) m rs))) =
      sum_list (map cnt (omap_values m))" for m and rs :: "roster_entry list"
    by (induction rs arbitrary: m) (simp_all add: get with_stat_cnt [where d = 0] del: map_map)
  then show ?thesis by (simp add: init_stats_def)
qed

lemma total_cnt:
  "sum_list (map cnt (omap_values (cs_stats (final_stats roster fs idx)))) =
     sum_list (map per (batches (upto_idx idx fs))) + 2 * leg * length (trades_upto fs idx)"
  by (simp add: final_stats_def trades_upto_def frames_cnt init_cnt del: map_map)

end

definition submits :: "wire_batch \<Rightarrow> nat" where
  "submits f = (if b_op f = Submit then 1 else 0)"

definition cancels :: "wire_batch \<Rightarrow> nat" where
  "cancels f = (if b_op f \<noteq> Submit \<and> o_cancelOk (b_order f) then 1 else 0)"

interpretation orders: tally bs_orders submits 0
  by unfold_locales (simp_all add: new_stat_def count_op_def submits_def agg_leg_def rest_leg_def)

interpretation cancelled: tally bs_cancels cancels 0
  by unfold_locales (simp_all add: new_stat_def count_op_def cancels_def agg_leg_def rest_leg_def)

interpretation fillcount: tally bs_fills "\<lambda>_. 0" 1
  by unfold_locales (simp_all add: new_stat_def count_op_def agg_leg_def rest_leg_def)

lemma sum_indicator: "sum_list (map (\<lambda>x. if P x then 1 else 0) xs) = length (filter P xs)"
  by (induction xs) auto

text \<open>
  The counters add up: over all accounts, the orders are the submitted orders of the
  stream, the cancels its successful cancels, and the fills twice its trades.
\<close>

lemma counters_add_up:
  "let m = omap_values (fst (computeStats fs idx roster)); bs = batches (upto_idx idx fs) in
   sum_list (map bs_orders m) = length (filter (\<lambda>f. b_op f = Submit) bs) \<and>
   sum_list (map bs_cancels m) = length (filter (\<lambda>f. b_op f = Cancel \<and> o_cancelOk (b_order f)) bs) \<and>
   sum_list (map bs_fills m) = 2 * length (concat (map b_trades bs))"
proof -
  have cols: "map g (omap_values (fst (computeStats fs idx roster))) =
      map g (omap_values (cs_stats (final_stats roster fs idx)))"
    if "\<And>p s. g (mark p s) = g s" for g :: "bot_stat \<Rightarrow> nat"
    using that by (auto simp: computeStats_def final_stats_def Let_def split_beta)
  have op: "(b_op f \<noteq> Submit) = (b_op f = Cancel)" for f by (cases "b_op f") auto
  show ?thesis
    using orders.total_cnt [of roster fs idx] cancelled.total_cnt [of roster fs idx]
      fillcount.total_cnt [of roster fs idx]
    unfolding submits_def [abs_def] cancels_def [abs_def] op sum_indicator trades_upto_def Let_def
    by (simp add: cols mark_def del: map_map)
qed

end
