(* ===== verification/System.thy ===== *)
theory System
  imports Gateway Feed_Safety Accounts
begin

text \<open>
  The browser and the gateway together: what a feed makes of the messages the gateway sent it, and
  how the gateway reads the messages of a feed. The socket between them delivers what was sent,
  in order.
\<close>

section \<open>A browser behind the gateway\<close>

text \<open>The feed of a browser that handles some messages of its socket.\<close>

definition receive :: "(nat \<Rightarrow> jsnum) \<Rightarrow> server_msg list \<Rightarrow> feed \<Rightarrow> feed" where
  "receive pn ms f = foldl (\<lambda>f m. onMessage pn m f) f ms"

lemma receive_simps [simp]:
  "receive pn [] f = f" "receive pn (m # ms) f = receive pn ms (onMessage pn m f)"
  "receive pn (ms @ ms') f = receive pn ms' (receive pn ms f)"
  by (simp_all add: receive_def)

text \<open>The buffer holds the end of the stream, and all of it that it has room for.\<close>

definition mirrors :: "frame list \<Rightarrow> feed \<Rightarrow> bool" where
  "mirrors tot f \<longleftrightarrow> f_source f = Live \<and> suffix (f_frames f) tot \<and>
     length (f_frames f) \<le> MAX_FRAMES + TRIM \<and>
     (if length tot \<le> MAX_FRAMES + TRIM then f_frames f = tot else MAX_FRAMES \<le> length (f_frames f))"

lemma push_source [simp]: "f_source (push gs f) = f_source f"
  by (simp add: push_def Let_def)

lemma push_mirrors:
  assumes "mirrors tot f" and "length gs \<le> 1"
  shows "mirrors (tot @ gs) (push gs f)"
proof -
  obtain pre where pre: "tot = pre @ f_frames f" using assms(1) by (auto simp: mirrors_def suffix_def)
  have b: "length (f_frames f) \<le> MAX_FRAMES + TRIM" using assms(1) by (simp add: mirrors_def)
  have "suffix (drop TRIM (f_frames f @ gs)) (tot @ gs)"
    using pre by (metis append_assoc suffix_appendI suffix_drop)
  moreover have "suffix (f_frames f @ gs) (tot @ gs)" using pre by (simp add: suffix_def)
  ultimately show ?thesis
    using assms b by (auto simp: mirrors_def push_def Let_def MAX_FRAMES_def TRIM_def pre split: if_splits)
qed

lemma message_mirrors:
  assumes "mirrors tot f" and "is_frame m \<or> is_note m"
  shows "mirrors (tot @ recording_frames [m]) (onMessage pn m f)"
proof (cases m)
  case (SBatch b)
  then show ?thesis
    using assms push_mirrors [OF assms(1), of "[FBatch b]"] by (simp add: onMessage_def mirrors_def)
next
  case (SBook a bk)
  then show ?thesis
    using assms push_mirrors [OF assms(1), of "[FBook a bk]"] by (simp add: onMessage_def mirrors_def)
qed (use assms in \<open>auto simp: mirrors_def onMessage_def useReplay_def settle_def emit_def clear_timer_def Let_def
       split: option.splits\<close>)

lemma receive_mirrors:
  assumes "mirrors tot f" and "\<forall>m \<in> set ms. is_frame m \<or> is_note m"
  shows "mirrors (tot @ recording_frames ms) (receive pn ms f)"
  using assms
proof (induction ms arbitrary: tot f)
  case (Cons m ms)
  have "mirrors (tot @ recording_frames [m]) (onMessage pn m f)"
    using Cons.prems by (intro message_mirrors) auto
  from Cons.IH [OF this] Cons.prems(2)
  have "mirrors ((tot @ recording_frames [m]) @ recording_frames ms) (receive pn (m # ms) f)" by simp
  then show ?case using recording_frames_append [of "[m]" ms] by simp
qed simp

lemma recording_frames_filter: "recording_frames (filter is_frame ms) = recording_frames ms"
  by (induction ms rule: recording_frames.induct) simp_all

lemma join_mirrors:
  assumes "f_source f \<noteq> Live" and "length h \<le> MAX_FRAMES + TRIM"
  shows "mirrors (map FBatch h) (receive pn [hello, SStatus r ''connected'', SHistory h] f)"
  using assms
  by (simp add: mirrors_def onMessage_def hello_def switchToLive_def feed_reset_def setFollow_def push_def
      Let_def bump_simps)

text \<open>What the browser believes of the exchange and the recorder is the last status it was sent.\<close>

lemma message_told:
  "f_exchangeUp (onMessage pn m f) = (case m of SStatus r x \<Rightarrow> x = ''connected'' | _ \<Rightarrow> f_exchangeUp f)"
  "f_recording (onMessage pn m f) = (case m of SStatus r x \<Rightarrow> r | _ \<Rightarrow> f_recording f)"
  by (cases m; auto simp: onMessage_def switchToLive_def feed_reset_def useReplay_def setFollow_def push_def
      bump_def settle_def emit_def clear_timer_def Let_def split: option.splits)+

lemma receive_told:
  assumes "last_opt (filter is_status ms) = Some (SStatus r x)"
  shows "f_exchangeUp (receive pn ms f) = (x = ''connected'') \<and> f_recording (receive pn ms f) = r"
  using assms
proof (induction ms rule: rev_induct)
  case (snoc m ms)
  then show ?case
    by (cases m) (simp_all add: message_told last_opt_single)
qed (simp add: last_opt_def)


section \<open>A browser that joins\<close>

lemma run_joined: "gw_run es g = Some g' \<Longrightarrow> joined ws g \<Longrightarrow> stays ws es \<Longrightarrow> joined ws g'"
proof (induction es arbitrary: g)
  case (Cons e es)
  then obtain g1 where "gw_exec e g = Some g1" "gw_run es g1 = Some g'" by (auto split: option.splits)
  then show ?case
    using Cons exec_joined [of e g g1 ws] by (auto simp: stays_def)
qed simp

lemma exec_history: "gw_exec e g = Some g' \<Longrightarrow> length (g_history g) \<le> HISTORY_MAX \<Longrightarrow> length (g_history g') \<le> HISTORY_MAX"
  using norm_refinement [of "[e]" g g'] by (simp add: length_last_n)

text \<open>Nothing is sent to a socket before it exists.\<close>

definition silent :: "gateway \<Rightarrow> bool" where
  "silent g \<longleftrightarrow> clients_ok g \<and> (\<forall>ws \<ge> g_nextSock g. sent ws g = [])"

lemma silent_broadcast: "silent g \<Longrightarrow> silent (broadcast m g)"
  by (auto simp: silent_def sent_broadcast clients_ok_def Ball_def)

lemma silent_send: "silent g \<Longrightarrow> silent (gw_send w m g)"
  by (auto simp: silent_def sent_send clients_ok_def Ball_def)

lemma silent_emit: "silent g \<Longrightarrow> (\<And>ws. sent_to ws e = None) \<Longrightarrow> silent (gw_emit e g)"
  by (simp add: silent_def)

lemma silent_update:
  "silent (g\<lparr>g_history := b\<rparr>) = silent g" "silent (g\<lparr>g_norm := c\<rparr>) = silent g"
  "silent (g\<lparr>g_exchangeUp := d\<rparr>) = silent g" "silent (g\<lparr>g_recorder := e\<rparr>) = silent g"
  "silent (g\<lparr>g_subs := ss\<rparr>) = silent g" "silent (g\<lparr>g_nextSub := j\<rparr>) = silent g"
  "silent (g\<lparr>g_retries := k\<rparr>) = silent g" "silent (g\<lparr>g_calls := l\<rparr>) = silent g"
  "silent (g\<lparr>g_nextCall := nc\<rparr>) = silent g"
  by (simp_all add: silent_def)

lemma silent_record: "silent g \<Longrightarrow> silent (gw_record m t g)"
  by (simp add: gw_record_def silent_emit silent_update split: option.split)

lemmas silent_intros = silent_broadcast silent_send silent_emit silent_record

lemma exec_silent:
  assumes "gw_exec e g = Some g'" and "silent g"
  shows "silent g'"
proof (cases e)
  case GConnection
  have "silent (g\<lparr>g_nextSock := Suc (g_nextSock g), g_open := g_nextSock g # g_open g,
      g_clients := g_clients g @ [g_nextSock g]\<rparr>)"
    using assms(2) by (auto simp: silent_def clients_ok_def less_SucI)
  then show ?thesis using GConnection assms(1) by (auto simp: on_connection_def Let_def intro: silent_intros)
next
  case (GMessage ws fn m)
  then show ?thesis
    using assms
    by (auto simp: on_message_def startRecording_def stopRecording_def grpcUnary_def Let_def silent_update
        intro!: silent_intros split: inbound.splits if_splits option.splits sum.splits)
next
  case (GClosing ws)
  then show ?thesis using assms by (auto simp: silent_def clients_ok_def)
next
  case (GClosed ws)
  then show ?thesis using assms by (auto simp: silent_def clients_ok_def on_close_def distinct_removeAll)
qed (use assms in \<open>auto simp: on_data_def flush_interval_def split_beta order_done_def cancel_done_def on_metadata_def
       once_def down_def subscribeTelemetry_def Let_def silent_update intro!: silent_intros
       split: option.splits call.splits\<close>)

lemma gw_start_silent: "silent (gw_start fo)" "length (g_history (gw_start fo)) \<le> HISTORY_MAX"
proof -
  have new: "silent new_gateway" by (simp add: silent_def new_gateway_def picked_def clients_ok_def List.map_filter_def)
  then show "silent (gw_start fo)"
    by (cases fo) (auto simp: gw_start_def subscribeTelemetry_def startRecording_def Let_def silent_update
        intro!: silent_intros)
  have "core (gw_start fo) = core new_gateway" by (cases fo) (simp_all add: gw_start_def)
  then show "length (g_history (gw_start fo)) \<le> HISTORY_MAX" by (simp add: core_def new_gateway_def)
qed

interpretation quiet: service gw_exec "\<lambda>g. \<exists>fo. g = gw_start fo" "\<lambda>g. silent g \<and> length (g_history g) \<le> HISTORY_MAX"
  by unfold_locales (auto simp: gw_start_silent intro: exec_silent exec_history)

lemma gw_reach_silent: "gw_reach g \<Longrightarrow> silent g \<and> length (g_history g) \<le> HISTORY_MAX"
proof (induction rule: gw_reach.induct)
  case (start fo)
  show ?case by (rule quiet.initial_inv) blast
qed (rule quiet.exec_inv)

section \<open>Messages of the browser at the gateway\<close>

text \<open>
  A message of the feed as the gateway reads it: the JSON text of a number that is not finite is
  \<^verbatim>\<open>null\<close>, which \<^verbatim>\<open>Number\<close> reads as 0.
\<close>

fun json_num :: "jsnum \<Rightarrow> jsnum" where
  "json_num (Fin q) = Fin q"
| "json_num _ = Fin 0"

definition blank :: in_msg where
  "blank = \<lparr>im_t = Undefined, im_reqId = 0, im_side = Undefined, im_type = Undefined, im_price = NaN,
     im_qty = NaN, im_orderId = [], im_on = False\<rparr>"

fun over_socket :: "client_msg \<Rightarrow> in_msg" where
  "over_socket (MOrder sd ty p q r) =
     blank\<lparr>im_t := Val ''order'', im_reqId := r, im_side := Val (if sd = Bid then ''bid'' else ''ask''),
       im_type := Val (if ty = Market then ''market'' else ''limit''), im_price := json_num p, im_qty := json_num q\<rparr>"
| "over_socket (MCancel oid r) = blank\<lparr>im_t := Val ''cancel'', im_reqId := r, im_orderId := oid\<rparr>"
| "over_socket (MRecord on) = blank\<lparr>im_t := Val ''record'', im_on := on\<rparr>"

end
