(* ===== verification/Rounding.thy ===== *)
theory Rounding
  imports Js_Number
begin

text \<open>
  Error bounds for binary64 arithmetic. On numbers below \<open>2 ^ 40\<close> a single rounding moves a value
  by at most \<open>2 ^ -12\<close>, a crude bound that is enough for everything the page draws; the rules
  \<open>near_add\<close>, \<open>near_sub\<close> and \<open>near_mul\<close> carry it through a computation.
\<close>

section \<open>Rounding as a small error\<close>

definition eps :: rat where
  "eps = 1 / 4096"

text \<open>\<open>near v x e\<close>: the number \<open>v\<close> is finite and within \<open>e\<close> of the rational \<open>x\<close>.\<close>

definition near :: "jsnum \<Rightarrow> rat \<Rightarrow> rat \<Rightarrow> bool" where
  "near v x e \<longleftrightarrow> (case v of Fin y \<Rightarrow> x - e \<le> y \<and> y \<le> x + e | _ \<Rightarrow> False)"

lemma nearE:
  assumes "near v x e"
  obtains y where "v = Fin y" "x - e \<le> y" "y \<le> x + e"
  using assms by (auto simp: near_def split: jsnum.splits)

lemma near_Fin [simp]: "near (Fin y) x e \<longleftrightarrow> x - e \<le> y \<and> y \<le> x + e"
  by (simp add: near_def)

lemma near_weaken: "near v x d \<Longrightarrow> d \<le> e \<Longrightarrow> near v x e"
  by (auto simp: near_def split: jsnum.splits)

lemma near_fl_exact:
  assumes "\<bar>x\<bar> < 2 ^ 40"
  shows "near (fl x) x eps"
proof -
  define m where "m = \<lfloor>x * 4096\<rfloor>"
  have m: "of_int m \<le> x * 4096" "x * 4096 < of_int m + 1" unfolding m_def by linarith+
  have "x * 4096 < 2 ^ 52" "- (2 ^ 52) < x * 4096" using assms by (simp_all add: abs_less_iff)
  then have "(of_int m :: rat) < of_int (2 ^ 52)" "of_int (- (2 ^ 52) - 1) < (of_int m :: rat)" using m by simp_all
  then have "m < 2 ^ 52" "- (2 ^ 52) - 1 < m" by (simp_all only: of_int_less_iff)
  then have b: "\<bar>m\<bar> < 2 ^ 53" "\<bar>m + 1\<bar> < 2 ^ 53" by simp_all
  have "fl (of_int m / 2 ^ 12) \<le> fl x" "fl x \<le> fl (of_int (m + 1) / 2 ^ 12)"
    using m by (intro fl_mono; simp)+
  then have le: "Fin (of_int m / 4096) \<le> fl x" "fl x \<le> Fin ((of_int m + 1) / 4096)"
    using fl_sc [OF b(1), of 12] fl_sc [OF b(2), of 12] by (simp_all add: sc_def)
  then obtain y where y: "fl x = Fin y" by (cases "fl x") auto
  then show ?thesis using le m by (simp add: eps_def field_simps)
qed

lemma near_fl:
  assumes "x - e \<le> z" and "z \<le> x + e" and "\<bar>x\<bar> + e < 2 ^ 40"
  shows "near (fl z) x (e + eps)"
proof -
  have "\<bar>z\<bar> < 2 ^ 40" using assms by linarith
  from near_fl_exact [OF this] show ?thesis using assms(1,2) by (auto elim!: nearE)
qed

lemma near_add:
  assumes "near u a d" and "near v b e" and "\<bar>a + b\<bar> + (d + e) < 2 ^ 40"
  shows "near (js_add u v) (a + b) (d + e + eps)"
  using assms by (auto elim!: nearE intro!: near_fl)

lemma near_sub:
  assumes "near u a d" and "near v b e" and "\<bar>a - b\<bar> + (d + e) < 2 ^ 40"
  shows "near (js_sub u v) (a - b) (d + e + eps)"
  using assms by (auto elim!: nearE intro!: near_fl simp: js_sub_def)

text \<open>A product of bounded factors.\<close>

lemma near_mul:
  assumes "near u a d" and "near v b e" and "\<bar>a\<bar> \<le> A" and "\<bar>b\<bar> \<le> B" and "0 \<le> d" and "0 \<le> e"
    and "\<bar>a * b\<bar> + (A * e + B * d + d * e) < 2 ^ 40"
  shows "near (js_mul u v) (a * b) (A * e + B * d + d * e + eps)"
proof -
  obtain x y where x: "u = Fin x" "\<bar>x - a\<bar> \<le> d" and y: "v = Fin y" "\<bar>y - b\<bar> \<le> e"
    using assms(1,2) by (auto elim!: nearE simp: abs_le_iff)
  have "x * y - a * b = a * (y - b) + b * (x - a) + (x - a) * (y - b)" by (simp add: algebra_simps)
  then have "\<bar>x * y - a * b\<bar> \<le> \<bar>a\<bar> * \<bar>y - b\<bar> + \<bar>b\<bar> * \<bar>x - a\<bar> + \<bar>x - a\<bar> * \<bar>y - b\<bar>"
    by (simp only: abs_mult [symmetric])
  also have "\<dots> \<le> A * e + B * d + d * e"
    using x(2) y(2) assms(3-6) by (intro add_mono mult_mono) auto
  finally have "\<bar>x * y - a * b\<bar> \<le> A * e + B * d + d * e" .
  then have "a * b - (A * e + B * d + d * e) \<le> x * y" "x * y \<le> a * b + (A * e + B * d + d * e)"
    by (simp_all add: abs_le_iff)
  from near_fl [OF this assms(7)] show ?thesis by (simp add: x y)
qed

section \<open>Values that stay between bounds\<close>

lemma fl_in:
  assumes "of_int a \<le> x" and "x \<le> of_int b" and "safe_int a" and "safe_int b"
  obtains y where "fl x = Fin y" "of_int a \<le> y" "y \<le> of_int b"
proof -
  have "js_int a \<le> fl x" "fl x \<le> js_int b"
    using fl_mono [OF assms(1)] fl_mono [OF assms(2)] fl_int assms(3,4) by simp_all
  then show thesis by (cases "fl x") (auto intro: that)
qed

text \<open>Fractions: the numbers between 0 and 1.\<close>

definition unit :: "jsnum \<Rightarrow> bool" where
  "unit t \<longleftrightarrow> Fin 0 \<le> t \<and> t \<le> Fin 1"

lemma unitE: "unit t \<Longrightarrow> (\<And>y. t = Fin y \<Longrightarrow> 0 \<le> y \<Longrightarrow> y \<le> 1 \<Longrightarrow> thesis) \<Longrightarrow> thesis"
  by (cases t) (auto simp: unit_def)

lemma fl_unit: "0 \<le> x \<Longrightarrow> x \<le> 1 \<Longrightarrow> unit (fl x)"
  using fl_mono [of 0 x] fl_mono [of x 1] by (simp add: unit_def)

lemma ratio_unit:
  assumes "0 \<le> n" and "n \<le> d" and "0 < d"
  shows "unit (js_div (Fin n) (Fin d))"
  using assms fl_unit [of "n / d"] by simp

lemma segment_unit:
  assumes "a \<le> x" and "x \<le> b" and "a + 1 / 20 < b" and "b - a < 2 ^ 40"
  shows "unit (js_div (js_sub (Fin x) (Fin a)) (js_sub (Fin b) (Fin a)))"
proof -
  have "fl (1 / 2 ^ 5) = Fin (1 / 2 ^ 5)" using fl_sc [of 1 5] by (simp add: sc_def)
  then have lo: "Fin (1 / 32) \<le> fl (b - a)" using fl_mono [of "1 / 2 ^ 5" "b - a"] assms(3) by simp
  obtain d where d: "fl (b - a) = Fin d"
    using assms fl_in [of 0 "b - a" "2 ^ 40"] by (auto simp: safe_int_def)
  obtain n where n: "fl (x - a) = Fin n" "0 \<le> n"
    using assms fl_in [of 0 "x - a" "2 ^ 40"] by (auto simp: safe_int_def)
  have "n \<le> d" using fl_mono [of "x - a" "b - a"] assms(2) by (simp add: d n)
  then have "unit (js_div (Fin n) (Fin d))" using lo d n by (intro ratio_unit) auto
  then show ?thesis using d n by (simp add: js_sub_def)
qed

lemma unit_complement: "unit u \<Longrightarrow> unit (js_sub (Fin 1) u)"
  by (elim unitE) (simp add: js_sub_def fl_unit)

lemma scaled_unit:
  assumes "unit u" and "0 \<le> k" and "0 \<le> c" and "k + c < 2 ^ 40"
  obtains y where "js_add (js_int c) (js_mul u (js_int k)) = Fin y" "of_int c \<le> y" "y \<le> of_int (c + k)"
proof -
  obtain x where x: "u = Fin x" "0 \<le> x" "x \<le> 1" using assms(1) by (rule unitE)
  have "0 \<le> x * of_int k" "x * of_int k \<le> of_int k" using x assms(2) by (simp_all add: mult_left_le_one_le)
  then obtain z where z: "fl (x * of_int k) = Fin z" "0 \<le> z" "z \<le> of_int k"
    using fl_in [of 0 "x * of_int k" k] assms(2-4) by (auto simp: safe_int_def)
  then obtain y where "fl (of_int c + z) = Fin y" "of_int c \<le> y" "y \<le> of_int (c + k)"
    using fl_in [of c "of_int c + z" "c + k"] assms(2-4) by (auto simp: safe_int_def)
  with z x show thesis by (intro that [of y]) simp_all
qed

end
