(* ===== verification/Scope.thy ===== *)
theory Scope
  imports Rounding Derive Feed
begin

text \<open>
  The animated diagram, \<^verbatim>\<open>web/src/components/Scope.tsx\<close>: how a batch becomes a dot that travels
  through the stages of the engine, which dots are alive, where they are drawn, the slow-motion
  spotlight and the click on a dot. The canvas calls are left out; the coordinates they are
  given are not. \<^verbatim>\<open>Math.hypot\<close> is the argument \<open>hypot\<close>: the language leaves its rounding open.
\<close>

section \<open>Geometry\<close>

type_synonym pt = "jsnum \<times> jsnum"

record box =
  bx :: jsnum
  by' :: jsnum
  bw :: jsnum
  bh :: jsnum

definition W :: jsnum where "W = Fin 1200"
definition H :: jsnum where "H = Fin 440"
definition BOT_X :: jsnum where "BOT_X = Fin 24"
definition BOT_W :: jsnum where "BOT_W = Fin 104"
definition GRPC :: box where "GRPC = \<lparr>bx = Fin 270, by' = Fin 170, bw = Fin 120, bh = Fin 100\<rparr>"
definition QUEUE :: box where "QUEUE = \<lparr>bx = Fin 450, by' = Fin 205, bw = Fin 240, bh = Fin 30\<rparr>"
definition QUEUE_slots :: nat where "QUEUE_slots = 20"
definition ENGINE :: box where "ENGINE = \<lparr>bx = Fin 770, by' = Fin 170, bw = Fin 120, bh = Fin 100\<rparr>"

text \<open>A decimal literal of the source.\<close>

abbreviation lit :: "rat \<Rightarrow> jsnum" where
  "lit q \<equiv> fl q"

definition lerp1 :: "jsnum \<Rightarrow> jsnum \<Rightarrow> jsnum \<Rightarrow> jsnum" where
  "lerp1 a b t = js_add a (js_mul (js_sub b a) t)"

definition lerp :: "pt \<Rightarrow> pt \<Rightarrow> jsnum \<Rightarrow> pt" where
  "lerp a b t = (lerp1 (fst a) (fst b) t, lerp1 (snd a) (snd b) t)"

definition clamp01 :: "jsnum \<Rightarrow> jsnum" where
  "clamp01 v = js_min (Fin 1) (js_max (Fin 0) v)"

definition ease :: "jsnum \<Rightarrow> jsnum" where
  "ease t = js_mul (js_mul t t) (js_sub (Fin 3) (js_mul (Fin 2) t))"

text \<open>\<^verbatim>\<open>polyAt\<close>: the point a fraction \<open>t\<close> along a polyline.\<close>

fun seg_lengths :: "(jsnum \<Rightarrow> jsnum \<Rightarrow> jsnum) \<Rightarrow> pt list \<Rightarrow> jsnum list" where
  "seg_lengths hypot (a # b # ps) =
     hypot (js_sub (fst b) (fst a)) (js_sub (snd b) (snd a)) # seg_lengths hypot (b # ps)"
| "seg_lengths hypot _ = []"

fun poly_walk :: "pt list \<Rightarrow> jsnum list \<Rightarrow> jsnum \<Rightarrow> pt option" where
  "poly_walk (a # b # ps) (l # ls) d =
     (if js_le d l \<or> ls = [] then Some (lerp a b (if l = Fin 0 \<or> l = NaN then Fin 0 else js_div d l))
      else poly_walk (b # ps) ls (js_sub d l))"
| "poly_walk ps _ d = last_opt ps"

definition polyAt :: "(jsnum \<Rightarrow> jsnum \<Rightarrow> jsnum) \<Rightarrow> pt list \<Rightarrow> jsnum \<Rightarrow> pt option" where
  "polyAt hypot pts t =
     (let ls = seg_lengths hypot pts; tot = foldl js_add (Fin 0) ls
      in poly_walk pts ls (js_mul (clamp01 t) tot))"

section \<open>Stages\<close>

type_synonym bounds = "jsnum \<times> jsnum \<times> jsnum \<times> jsnum"

definition boundaries :: "wire_batch \<Rightarrow> bounds" where
  "boundaries f =
     (let tr = b_trace f;
          d1 = js_max (tr_enqueue tr) (Fin 1);
          d2 = js_max (js_sub (tr_dequeue tr) (tr_enqueue tr)) (Fin 1);
          d3 = js_max (js_sub (tr_matchDone tr) (tr_dequeue tr)) (Fin 1);
          tot = js_add (js_add d1 d2) d3;
          s0 = lit (12 / 100);
          s1 = js_add (js_add s0 (lit (8 / 100))) (js_mul (lit (26 / 100)) (js_div d1 tot));
          s2 = js_add (js_add s1 (lit (8 / 100))) (js_mul (lit (26 / 100)) (js_div d2 tot));
          s3 = js_add (js_add s2 (lit (8 / 100))) (js_mul (lit (26 / 100)) (js_div d3 tot))
      in (s0, s1, s2, s3))"

definition STAGES :: "string list" where
  "STAGES = [''gRPC handler'', ''Queue'', ''Matching'', ''Reply and publish'']"

definition stageAt :: "bounds \<Rightarrow> jsnum \<Rightarrow> int" where
  "stageAt s p =
     (case s of (s0, s1, s2, s3) \<Rightarrow>
        if js_lt p s0 then - 1 else if js_lt p s1 then 0 else if js_lt p s2 then 1
        else if js_lt p s3 then 2 else 3)"

record packet =
  p_f :: wire_batch
  p_start :: jsnum
  p_dur :: jsnum
  p_s :: bounds

datatype spot_msg = SpotAt wire_batch jsnum | SpotNull

text \<open>The refs of the component.\<close>

record scope =
  s_packets :: "packet list"
  s_botGlow :: "(string, jsnum) omap"
  s_bookFlash :: jsnum
  s_spot :: "packet option"
  s_lastSpot :: "(jsnum \<times> int) option"
  s_hits :: "(wire_batch \<times> pt) list"

definition new_scope :: scope where
  "new_scope = \<lparr>s_packets = [], s_botGlow = [], s_bookFlash = Fin 0, s_spot = None, s_lastSpot = None, s_hits = []\<rparr>"

section \<open>The bots' column\<close>

definition botSlots :: "roster_entry list \<Rightarrow> (string, nat) omap" where
  "botSlots roster =
     omap_set ''human'' (length roster)
       (foldl (\<lambda>m (i, r). omap_set (re_id r) i m) [] (enumerate 0 roster))"

definition botY :: "(string, nat) omap \<Rightarrow> string \<Rightarrow> jsnum" where
  "botY slots node =
     (let n = (if length slots = 0 then 1 else length slots);
          i = (case omap_get slots node of Some i \<Rightarrow> i | None \<Rightarrow>
                 (case omap_get slots ''human'' of Some i \<Rightarrow> i | None \<Rightarrow> 0))
      in js_add (Fin 36) (js_div (js_mul (js_int (int i)) (js_sub H (Fin 78))) (js_int (int (max (n - 1) 1)))))"

section \<open>One animation frame\<close>

definition MAX_PACKETS :: nat where
  "MAX_PACKETS = 140"

definition progress :: "jsnum \<Rightarrow> packet \<Rightarrow> jsnum" where
  "progress now p = js_div (js_sub now (p_start p)) (p_dur p)"

fun admit :: "jsnum \<Rightarrow> jsnum \<Rightarrow> frame \<Rightarrow> scope \<Rightarrow> scope" where
  "admit now journey (FBook a bk) s = s"
| "admit now journey (FBatch b) s =
     s\<lparr>s_botGlow := omap_set (o_node (b_order b)) now (s_botGlow s),
       s_bookFlash := (if b_trades b \<noteq> [] then now else s_bookFlash s),
       s_packets := (if length (s_packets s) < MAX_PACKETS
          then s_packets s @ [\<lparr>p_f = b, p_start = now, p_dur = journey, p_s = boundaries b\<rparr>]
          else s_packets s)\<rparr>"

definition expire :: "jsnum \<Rightarrow> scope \<Rightarrow> scope" where
  "expire now s = s\<lparr>s_packets :=
     filter (\<lambda>p. js_lt (js_sub now (p_start p)) (js_add (p_dur p) (Fin 60))) (s_packets s)\<rparr>"

definition inQueue :: "jsnum \<Rightarrow> scope \<Rightarrow> nat" where
  "inQueue now s = length (filter (\<lambda>p. let e = progress now p in
     case p_s p of (s0, s1, s2, s3) \<Rightarrow> js_ge e s1 \<and> js_lt e s2) (s_packets s))"

definition slot_filled :: "nat \<Rightarrow> nat \<Rightarrow> bool" where
  "slot_filled q i \<longleftrightarrow> QUEUE_slots - min q QUEUE_slots \<le> i"

definition engineBusy :: "jsnum \<Rightarrow> scope \<Rightarrow> bool" where
  "engineBusy now s = list_ex (\<lambda>p. let e = progress now p in
     case p_s p of (s0, s1, s2, s3) \<Rightarrow> js_ge e s2 \<and> js_lt e s3) (s_packets s)"

text \<open>Where \<^verbatim>\<open>drawPacket\<close> puts the head of a packet; past the last boundary there is none.\<close>

definition packet_head :: "(string, nat) omap \<Rightarrow> packet \<Rightarrow> jsnum \<Rightarrow> pt option" where
  "packet_head slots p prog =
     (let B = (js_add BOT_X BOT_W, botY slots (o_node (b_order (p_f p))));
          m1 = (bx GRPC, Fin 220); m3 = (bx QUEUE, Fin 220);
          m4 = (js_add (bx QUEUE) (bw QUEUE), Fin 220);
          m6 = (js_add (bx ENGINE) (js_div (bw ENGINE) (Fin 2)), Fin 220)
      in case p_s p of (s0, s1, s2, s3) \<Rightarrow>
        if js_lt prog s0 then Some (lerp B m1 (ease (js_div prog s0)))
        else if js_lt prog s1 then Some (lerp m1 m3 (js_div (js_sub prog s0) (js_sub s1 s0)))
        else if js_lt prog s2 then Some (lerp m3 m4 (js_div (js_sub prog s1) (js_sub s2 s1)))
        else if js_lt prog s3 then Some (lerp m4 m6 (js_div (js_sub prog s2) (js_sub s3 s2)))
        else None)"

definition packet_hits :: "(string, nat) omap \<Rightarrow> jsnum \<Rightarrow> packet list \<Rightarrow> (wire_batch \<times> pt) list" where
  "packet_hits slots now ps =
     List.map_filter (\<lambda>p. map_option (\<lambda>h. (p_f p, h)) (packet_head slots p (clamp01 (progress now p)))) ps"

definition spot_step :: "jsnum \<Rightarrow> scope \<Rightarrow> spot_msg list \<times> scope" where
  "spot_step now s =
     (case s_spot s of
        None \<Rightarrow> ([], s)
      | Some p \<Rightarrow>
          let prog = progress now p
          in if js_ge prog (lit (102 / 100)) then ([SpotNull], s\<lparr>s_spot := None, s_lastSpot := None\<rparr>)
             else let key = (b_seq (p_f p), stageAt (p_s p) prog)
                  in if s_lastSpot s \<noteq> Some key then ([SpotAt (p_f p) prog], s\<lparr>s_lastSpot := Some key\<rparr>)
                     else ([], s))"

text \<open>The callback \<^verbatim>\<open>draw\<close>: the clock ticks, new frames become packets, old ones go, the heads are
  noted for clicks, and the spotlight reports its stage.\<close>

definition draw :: "(nat \<Rightarrow> jsnum) \<Rightarrow> jsnum \<Rightarrow> scope \<times> feed \<Rightarrow> spot_msg list \<times> scope \<times> feed" where
  "draw pn now sf =
     (let s = fst sf;
          f1 = tick pn now (snd sf);
          (fresh, f2) = takeNew f1;
          journey = js_div (Fin 2600) (f_speed f2);
          s1 = foldl (\<lambda>s fr. admit now journey fr s) s fresh;
          s2 = expire now s1;
          s3 = s2\<lparr>s_hits := packet_hits (botSlots (f_roster f2)) now (s_packets s2)\<rparr>;
          (out, s4) = spot_step now s3
      in (out, s4, f2))"

text \<open>The effect that starts the spotlight, and the click.\<close>

definition start_spotlight :: "jsnum \<Rightarrow> wire_batch option \<Rightarrow> nat \<Rightarrow> scope \<Rightarrow> scope" where
  "start_spotlight p selected token s =
     (case selected of
        None \<Rightarrow> s
      | Some b \<Rightarrow> if token = 0 then s
          else s\<lparr>s_spot := Some \<lparr>p_f = b, p_start = p, p_dur = Fin 9000, p_s = boundaries b\<rparr>\<rparr>)"

fun nearest ::
  "(jsnum \<Rightarrow> jsnum \<Rightarrow> jsnum) \<Rightarrow> pt \<Rightarrow> (wire_batch \<times> pt) list \<Rightarrow> (wire_batch \<times> jsnum) option \<Rightarrow> (wire_batch \<times> jsnum) option"
where
  "nearest hypot c [] best = best"
| "nearest hypot c ((f, h) # hs) best =
     (let d = hypot (js_sub (fst h) (fst c)) (js_sub (snd h) (snd c))
      in nearest hypot c hs
           (if js_lt d (Fin 22) \<and> (case best of None \<Rightarrow> True | Some (_, bd) \<Rightarrow> js_lt d bd)
            then Some (f, d) else best))"

definition canvas_pt :: "jsnum \<Rightarrow> jsnum \<Rightarrow> jsnum \<Rightarrow> jsnum \<Rightarrow> jsnum \<Rightarrow> jsnum \<Rightarrow> pt" where
  "canvas_pt clientX clientY rl rt rw rh =
     (js_mul (js_div (js_sub clientX rl) rw) W, js_mul (js_div (js_sub clientY rt) rh) H)"

definition on_click :: "(jsnum \<Rightarrow> jsnum \<Rightarrow> jsnum) \<Rightarrow> pt \<Rightarrow> scope \<Rightarrow> wire_batch option" where
  "on_click hypot c s = map_option fst (nearest hypot c (s_hits s) None)"

section \<open>The stages partition the journey\<close>

text \<open>The engine stamps whole microseconds; a day is below \<open>2 ^ 37\<close> of them.\<close>

definition whole_trace :: "wire_trace \<Rightarrow> int \<Rightarrow> int \<Rightarrow> int \<Rightarrow> bool" where
  "whole_trace tr a b c \<longleftrightarrow> tr_enqueue tr = js_int a \<and> tr_dequeue tr = js_int b \<and> tr_matchDone tr = js_int c \<and>
     \<bar>a\<bar> < 2 ^ 37 \<and> \<bar>b\<bar> < 2 ^ 37 \<and> \<bar>c\<bar> < 2 ^ 37"

definition share :: "int \<Rightarrow> int \<Rightarrow> rat" where
  "share d t = of_int d / of_int t"

lemma next_boundary:
  assumes s: "near s x e" and r: "0 \<le> r" "r \<le> 1" and x: "0 \<le> x" "x \<le> 1" and e: "0 \<le> e" "e \<le> 1"
  shows "near (js_add (js_add s (lit (8 / 100))) (js_mul (lit (26 / 100)) (fl r)))
    (x + 8 / 100 + 26 / 100 * r) (e + 6 * eps)"
proof -
  have c: "near (lit (8 / 100)) (8 / 100) eps" "near (lit (26 / 100)) (26 / 100) eps" "near (fl r) r eps"
    using r by (auto intro!: near_fl_exact simp: abs_le_iff)
  have "near (js_mul (lit (26 / 100)) (fl r)) (26 / 100 * r) (26 / 100 * eps + 1 * eps + eps * eps + eps)"
    using r by (intro near_mul [OF c(2,3)]) (auto simp: eps_def abs_mult)
  then have m: "near (js_mul (lit (26 / 100)) (fl r)) (26 / 100 * r) (3 * eps)"
    by (rule near_weaken) (simp add: eps_def)
  have "near (js_add s (lit (8 / 100))) (x + 8 / 100) (e + eps + eps)"
    using x e by (intro near_add [OF s c(1)]) (simp add: eps_def)
  from near_add [OF this m] show ?thesis
    using x e r by (simp add: algebra_simps) (simp add: eps_def)
qed

lemma boundaries_near:
  assumes "whole_trace (b_trace f) a b c"
  obtains r1 r2 r3 s0 s1 s2 s3 where
    "boundaries f = (s0, s1, s2, s3)" "0 \<le> r1" "0 \<le> r2" "0 \<le> r3" "r1 + r2 + r3 = 1"
    "near s0 (12 / 100) eps" "near s1 (20 / 100 + 26 / 100 * r1) (7 * eps)"
    "near s2 (28 / 100 + 26 / 100 * r1 + 26 / 100 * r2) (13 * eps)" "near s3 (62 / 100) (19 * eps)"
proof -
  define d1 d2 d3 where "d1 = max a 1" and "d2 = max (b - a) 1" and "d3 = max (c - b) 1"
  define t where "t = d1 + d2 + d3"
  have d: "1 \<le> d1" "1 \<le> d2" "1 \<le> d3" "d1 < 2 ^ 37" "d2 < 2 ^ 38" "d3 < 2 ^ 38"
    using assms by (auto simp: d1_def d2_def d3_def whole_trace_def)
  have "\<bar>a\<bar> < 2 ^ 37" "\<bar>b\<bar> < 2 ^ 37" "\<bar>c\<bar> < 2 ^ 37" using assms by (simp_all add: whole_trace_def)
  then have "safe_int (b - a)" "safe_int (c - b)" unfolding safe_int_def by (simp_all add: abs_less_iff)
  then have sub: "js_sub (js_int b) (js_int a) = js_int (b - a)" "js_sub (js_int c) (js_int b) = js_int (c - b)"
    using js_sub_int by blast+
  have j: "js_max (tr_enqueue (b_trace f)) (Fin 1) = js_int d1"
    "js_max (js_sub (tr_dequeue (b_trace f)) (tr_enqueue (b_trace f))) (Fin 1) = js_int d2"
    "js_max (js_sub (tr_matchDone (b_trace f)) (tr_dequeue (b_trace f))) (Fin 1) = js_int d3"
    using assms sub
    by (auto simp: whole_trace_def safe_int_def js_max_def max_def d1_def d2_def d3_def)
  have tot: "js_add (js_add (js_int d1) (js_int d2)) (js_int d3) = js_int t"
    using d js_add_int [of d1 d2] js_add_int [of "d1 + d2" d3] by (simp add: safe_int_def t_def)
  define r1 r2 r3 where "r1 = share d1 t" and "r2 = share d2 t" and "r3 = share d3 t"
  have t0: "0 < t" using d by (simp add: t_def)
  have r: "0 \<le> r1" "0 \<le> r2" "0 \<le> r3" "r1 + r2 + r3 = 1"
    using d t0 by (simp_all add: r1_def r2_def r3_def share_def t_def add_divide_distrib [symmetric])
  let ?n = "\<lambda>s r. js_add (js_add s (lit (8 / 100))) (js_mul (lit (26 / 100)) (fl r))"
  define s0 where "s0 = lit (12 / 100)"
  define s1 where "s1 = ?n s0 r1"
  define s2 where "s2 = ?n s1 r2"
  define s3 where "s3 = ?n s2 r3"
  have dv: "js_div (js_int d1) (js_int t) = fl r1" "js_div (js_int d2) (js_int t) = fl r2"
    "js_div (js_int d3) (js_int t) = fl r3"
    using t0 by (simp_all add: r1_def r2_def r3_def share_def)
  have bd: "boundaries f = (s0, s1, s2, s3)"
    unfolding boundaries_def Let_def j tot dv s3_def s2_def s1_def s0_def by (rule refl)
  have n0: "near s0 (12 / 100) eps" unfolding s0_def by (rule near_fl_exact) simp
  have n1: "near s1 (20 / 100 + 26 / 100 * r1) (7 * eps)"
    using next_boundary [OF n0, of r1] r unfolding s1_def by (simp add: eps_def)
  have n2: "near s2 (28 / 100 + 26 / 100 * r1 + 26 / 100 * r2) (13 * eps)"
    using next_boundary [OF n1, of r2] r unfolding s2_def by (simp add: eps_def algebra_simps)
  have "near s3 (36 / 100 + 26 / 100 * r1 + 26 / 100 * r2 + 26 / 100 * r3) (19 * eps)"
    using next_boundary [OF n2, of r3] r unfolding s3_def by (simp add: eps_def algebra_simps)
  moreover have "36 / 100 + 26 / 100 * r1 + 26 / 100 * r2 + 26 / 100 * r3 = 62 / 100" using r(4) by simp
  ultimately have "near s3 (62 / 100) (19 * eps)" by (simp only:)
  from that [OF bd r n0 n1 n2 this] show thesis .
qed


text \<open>Boundaries in order, with room between them.\<close>

fun ordered :: "bounds \<Rightarrow> bool" where
  "ordered (Fin x0, Fin x1, Fin x2, Fin x3) \<longleftrightarrow>
     1 / 10 < x0 \<and> x0 + 1 / 20 < x1 \<and> x1 + 1 / 20 < x2 \<and> x2 + 1 / 20 < x3 \<and> x3 < 7 / 10"
| "ordered _ \<longleftrightarrow> False"

lemma orderedE:
  assumes "ordered s"
  obtains x0 x1 x2 x3 where "s = (Fin x0, Fin x1, Fin x2, Fin x3)" "1 / 10 < x0" "x0 + 1 / 20 < x1"
    "x1 + 1 / 20 < x2" "x2 + 1 / 20 < x3" "x3 < 7 / 10"
  using assms by (cases s rule: ordered.cases) simp_all

lemma boundaries_ordered:
  assumes "whole_trace (b_trace f) a b c"
  shows "ordered (boundaries f)"
proof -
  obtain r1 r2 r3 s0 s1 s2 s3 where b: "boundaries f = (s0, s1, s2, s3)" and r: "0 \<le> r1" "0 \<le> r2" "0 \<le> r3" "r1 + r2 + r3 = 1"
    and n: "near s0 (12 / 100) eps" "near s1 (20 / 100 + 26 / 100 * r1) (7 * eps)"
    "near s2 (28 / 100 + 26 / 100 * r1 + 26 / 100 * r2) (13 * eps)" "near s3 (62 / 100) (19 * eps)"
    by (rule boundaries_near [OF assms])
  obtain x0 x1 x2 x3 where x: "s0 = Fin x0" "s1 = Fin x1" "s2 = Fin x2" "s3 = Fin x3"
    using n by (auto elim!: nearE)
  show ?thesis
    using n r unfolding b x by (auto simp: eps_def)
qed

lemma stageAt_mono:
  assumes "ordered s" and "js_le p q"
  shows "stageAt s p \<le> stageAt s q"
proof -
  obtain x0 x1 x2 x3 where "s = (Fin x0, Fin x1, Fin x2, Fin x3)" "1 / 10 < x0" "x0 + 1 / 20 < x1"
    "x1 + 1 / 20 < x2" "x2 + 1 / 20 < x3" "x3 < 7 / 10" by (rule orderedE [OF assms(1)])
  with assms(2) show ?thesis by (auto simp: stageAt_def js_lt_def js_le_def)
qed

section \<open>Every dot is on the canvas\<close>

text \<open>Easing overshoots by rounding only.\<close>

lemma ease_bounds:
  assumes "unit t"
  obtains e where "ease t = Fin e" "0 \<le> e" "e \<le> 101 / 100"
proof -
  obtain x where x: "t = Fin x" "0 \<le> x" "x \<le> 1" using assms by (rule unitE)
  have xx: "x * x \<le> 1" "0 \<le> x * x" using x by (simp_all add: mult_le_one)
  have sq: "near (js_mul t t) (x * x) eps" using xx x by (simp add: near_fl_exact del: near_Fin)
  have tw: "near (js_mul (Fin 2) t) (2 * x) eps" using x by (simp add: near_fl_exact del: near_Fin)
  have "near (js_sub (Fin 3) (js_mul (Fin 2) t)) (3 - 2 * x) (0 + eps + eps)"
    using x by (intro near_sub [OF _ tw]) (auto simp: eps_def)
  then have li: "near (js_sub (Fin 3) (js_mul (Fin 2) t)) (3 - 2 * x) (2 * eps)" by simp
  have cub: "x * x * (3 - 2 * x) \<le> 1"
  proof -
    have "0 \<le> (1 - x) * (1 - x) * (1 + 2 * x)" using x by simp
    then show ?thesis by (simp add: algebra_simps)
  qed
  moreover have pos: "0 \<le> x * x * (3 - 2 * x)" using x by simp
  ultimately have ab: "\<bar>x * x * (3 - 2 * x)\<bar> \<le> 1" by simp
  have "near (ease t) (x * x * (3 - 2 * x)) (1 * (2 * eps) + 3 * eps + eps * (2 * eps) + eps)"
    unfolding ease_def using xx x ab by (intro near_mul [OF sq li]) (auto simp: eps_def)
  then obtain e where e: "ease t = Fin e" "e \<le> 1 + 7 * eps"
    using cub by (auto elim!: nearE simp: eps_def)
  have "Fin 0 \<le> ease t"
  proof -
    obtain s l where sl: "js_mul t t = Fin s" "js_sub (Fin 3) (js_mul (Fin 2) t) = Fin l" using sq li by (auto elim!: nearE)
    have "0 \<le> s" using fl_mono [OF xx(2)] sl(1) x(1) by simp
    moreover have "0 \<le> l" using li x unfolding sl(2) by (simp add: eps_def)
    ultimately show ?thesis using fl_mono [of 0 "s * l"] by (simp add: ease_def sl)
  qed
  with e show thesis by (intro that [of e]) (auto simp: eps_def)
qed


lemma lerp1_between:
  assumes "\<bar>x\<bar> \<le> 2000" and yx: "\<bar>y - x\<bar> \<le> D" "D \<le> 2000" and "0 \<le> t" and "t \<le> 101 / 100"
  obtains z where "lerp1 (Fin x) (Fin y) (Fin t) = Fin z"
    "min x y - (D / 100 + 1) \<le> z" "z \<le> max x y + (D / 100 + 1)"
proof -
  have dist: "\<bar>y - x\<bar> \<le> 2000" using yx by simp
  have "near (js_sub (Fin y) (Fin x)) (y - x) (0 + 0 + eps)" using assms dist by (intro near_sub) auto
  then have d: "near (js_sub (Fin y) (Fin x)) (y - x) eps" by simp
  have ab: "\<bar>(y - x) * t\<bar> \<le> 2000 * (101 / 100)"
    unfolding abs_mult using assms dist by (intro mult_mono) auto
  have "near (js_mul (js_sub (Fin y) (Fin x)) (Fin t)) ((y - x) * t) (2000 * 0 + 101 / 100 * eps + eps * 0 + eps)"
    using assms dist ab by (intro near_mul [OF d]) (auto simp: eps_def)
  then have m: "near (js_mul (js_sub (Fin y) (Fin x)) (Fin t)) ((y - x) * t) (3 * eps)"
    by (rule near_weaken) (simp add: eps_def)
  have "near (lerp1 (Fin x) (Fin y) (Fin t)) (x + (y - x) * t) (0 + 3 * eps + eps)"
    unfolding lerp1_def using assms dist ab by (intro near_add [OF _ m]) (auto simp: eps_def)
  then obtain z where z: "lerp1 (Fin x) (Fin y) (Fin t) = Fin z" "x + (y - x) * t - 4 * eps \<le> z"
    "z \<le> x + (y - x) * t + 4 * eps" by (auto elim!: nearE)
  define u where "u = (y - x) * t"
  have "min x y - D / 100 \<le> x + u \<and> x + u \<le> max x y + D / 100"
  proof (cases "x \<le> y")
    case True
    have "0 \<le> u" using True assms(4) by (simp add: u_def)
    moreover have "u \<le> (y - x) * (101 / 100)" unfolding u_def using True assms(5) by (intro mult_left_mono) auto
    ultimately show ?thesis using True assms(1,2) by (auto simp: abs_le_iff)
  next
    case False
    have "u \<le> 0" using False assms(4) by (simp add: u_def mult_le_0_iff)
    moreover have "(y - x) * (101 / 100) \<le> u" unfolding u_def using False assms(5) by (intro mult_left_mono_neg) auto
    ultimately show ?thesis using False assms(1,2) by (auto simp: abs_le_iff)
  qed
  with z show thesis by (intro that [of z]) (auto simp: eps_def simp flip: u_def)
qed


definition on_canvas :: "pt \<Rightarrow> bool" where
  "on_canvas c \<longleftrightarrow> js_le (Fin 0) (fst c) \<and> js_le (fst c) W \<and> js_le (Fin 0) (snd c) \<and> js_le (snd c) H"

text \<open>So far from the edges that a disc of radius 19 around the point lies on the canvas.\<close>

definition well_inside :: "pt \<Rightarrow> bool" where
  "well_inside c \<longleftrightarrow>
     (case c of (Fin x, Fin y) \<Rightarrow> 19 \<le> x \<and> x \<le> 1181 \<and> 19 \<le> y \<and> y \<le> 421 | _ \<Rightarrow> False)"

lemma well_inside_Fin [simp]: "well_inside (Fin x, Fin y) \<longleftrightarrow> 19 \<le> x \<and> x \<le> 1181 \<and> 19 \<le> y \<and> y \<le> 421"
  by (simp add: well_inside_def)

lemma well_insideE:
  assumes "well_inside c"
  obtains x y where "c = (Fin x, Fin y)" "19 \<le> x" "x \<le> 1181" "19 \<le> y" "y \<le> 421"
  using assms by (cases c; cases "fst c"; cases "snd c") (auto simp: well_inside_def)

lemma well_inside_on_canvas: "well_inside c \<Longrightarrow> on_canvas c"
  by (elim well_insideE) (simp add: on_canvas_def js_le_def W_def H_def)

lemma lerp_well_inside:
  assumes "40 \<le> x" "x \<le> 1160" "36 \<le> y" "y \<le> 404" "40 \<le> x'" "x' \<le> 1160" "36 \<le> y'" "y' \<le> 404"
    and "0 \<le> t" "t \<le> 101 / 100"
  shows "well_inside (lerp (Fin x, Fin y) (Fin x', Fin y') (Fin t))"
proof -
  obtain z where z: "lerp1 (Fin x) (Fin x') (Fin t) = Fin z" "min x x' - (1120 / 100 + 1) \<le> z"
    "z \<le> max x x' + (1120 / 100 + 1)"
    by (rule lerp1_between [of x x' 1120 t]) (use assms in \<open>auto simp: abs_le_iff\<close>)
  obtain w where w: "lerp1 (Fin y) (Fin y') (Fin t) = Fin w" "min y y' - (368 / 100 + 1) \<le> w"
    "w \<le> max y y' + (368 / 100 + 1)"
    by (rule lerp1_between [of y y' 368 t]) (use assms in \<open>auto simp: abs_le_iff\<close>)
  show ?thesis using z w assms by (auto simp: lerp_def min_def max_def split: if_splits)
qed

text \<open>The bots' column, for a roster without duplicates.\<close>

definition roster_ok :: "roster_entry list \<Rightarrow> bool" where
  "roster_ok r \<longleftrightarrow> distinct (map re_id r) \<and> ''human'' \<notin> set (map re_id r) \<and> length r < 2 ^ 40"

lemma slots_fold:
  assumes "distinct (map re_id r)"
  shows "foldl (\<lambda>m (i, x). omap_set (re_id x) i m) [] (enumerate 0 r) = map (\<lambda>(i, x). (re_id x, i)) (enumerate 0 r)"
  using assms
proof (induction r rule: rev_induct)
  case (snoc x r)
  have new: "omap_set k v m = m @ [(k, v)]" if "k \<notin> set (map fst m)" for k v and m :: "(string \<times> nat) list"
    using that by (induction m) auto
  have "map fst (map (\<lambda>(i, x). (re_id x, i)) (enumerate 0 r)) = map re_id r"
    by (simp add: comp_def split_beta flip: map_map [of re_id snd, unfolded comp_def])
  then show ?case using snoc by (simp add: enumerate_append_eq new del: map_map)
qed simp

lemma slots_bounds:
  assumes "roster_ok r"
  shows "length (botSlots r) = Suc (length r)" and "omap_get (botSlots r) node = Some i \<Longrightarrow> i \<le> length r"
    and "omap_get (botSlots r) ''human'' = Some (length r)"
proof -
  let ?m = "map (\<lambda>(i, x). (re_id x, i)) (enumerate 0 r)"
  have k: "map fst ?m = map re_id r"
    by (simp add: comp_def split_beta flip: map_map [of re_id snd, unfolded comp_def])
  have s: "botSlots r = omap_set ''human'' (length r) ?m"
    using assms by (simp add: botSlots_def slots_fold roster_ok_def)
  have "length (map fst (omap_set ''human'' (length r) ?m)) = Suc (length r)"
    using assms k by (simp add: omap.keys_put roster_ok_def del: map_map)
  then show "length (botSlots r) = Suc (length r)" by (simp add: s)
  show "omap_get (botSlots r) ''human'' = Some (length r)" by (simp add: s omap.get_put)
  show "i \<le> length r" if "omap_get (botSlots r) node = Some i"
    using that by (auto simp: s omap.get_put dest!: map_of_SomeD simp: in_set_enumerate_eq split: if_splits)
qed

lemma botY_bounds:
  assumes "roster_ok r"
  obtains y where "botY (botSlots r) node = Fin y" "36 \<le> y" "y \<le> 398"
proof -
  define m where "m = max (length r) 1"
  obtain i where i: "i \<le> length r"
    and bY: "botY (botSlots r) node = js_add (Fin 36) (js_div (js_mul (js_int (int i)) (js_sub H (Fin 78))) (js_int (int m)))"
  proof (cases "omap_get (botSlots r) node")
    case None
    then show thesis
      using that [of "length r"] slots_bounds(1,3) [OF assms] by (simp add: botY_def Let_def m_def)
  next
    case (Some i)
    then show thesis
      using that [of i] slots_bounds(1,2) [OF assms] by (simp add: botY_def Let_def m_def)
  qed
  have im: "i \<le> m" "1 \<le> m" "length r < 2 ^ 40" using i assms by (auto simp: m_def roster_ok_def)
  have "js_sub H (Fin 78) = Fin 362" by (simp add: js_sub_def H_def)
  moreover have "safe_int (int i * 362)" using i im(3) by (simp add: safe_int_def)
  then have "js_mul (js_int (int i)) (js_int 362) = js_int (int i * 362)" by (rule js_mul_int)
  ultimately have mul: "js_mul (js_int (int i)) (js_sub H (Fin 78)) = js_int (int i * 362)" by simp
  have "(of_nat i :: rat) \<le> of_nat m" using im(1) by simp
  then have "0 \<le> (of_int (int i * 362) / of_int (int m) :: rat)" "(of_int (int i * 362) / of_int (int m) :: rat) \<le> 362"
    using im(2) by (simp_all add: divide_le_eq)
  then obtain q where q: "fl (of_int (int i * 362) / of_int (int m)) = Fin q" "0 \<le> q" "q \<le> 362"
    using fl_in [of 0 "of_int (int i * 362) / of_int (int m)" 362] by (auto simp: safe_int_def)
  obtain y where y: "fl (36 + q) = Fin y" "36 \<le> y" "y \<le> 398"
    using q(2,3) fl_in [of 36 "36 + q" 398] by (auto simp: safe_int_def)
  have "botY (botSlots r) node = Fin y"
    unfolding bY mul using q(1) y(1) im(2) by simp
  with y(2,3) show thesis by (intro that)
qed

lemma head_well_inside:
  assumes "roster_ok r" and "ordered (p_s p)" and "unit prog" and "packet_head (botSlots r) p prog = Some h"
  shows "well_inside h"
proof -
  obtain y where y: "botY (botSlots r) (o_node (b_order (p_f p))) = Fin y" "36 \<le> y" "y \<le> 398"
    by (rule botY_bounds [OF assms(1)])
  obtain x0 x1 x2 x3 where s: "p_s p = (Fin x0, Fin x1, Fin x2, Fin x3)" "1 / 10 < x0" "x0 + 1 / 20 < x1"
    "x1 + 1 / 20 < x2" "x2 + 1 / 20 < x3" "x3 < 7 / 10" by (rule orderedE [OF assms(2)])
  obtain x where x: "prog = Fin x" "0 \<le> x" "x \<le> 1" using assms(3) by (rule unitE)
  have seg: "well_inside (lerp (Fin a, Fin 220) (Fin b, Fin 220) t)" if "unit t" "40 \<le> a" "a \<le> 979" "40 \<le> b" "b \<le> 979" for a b t
    using that by (elim unitE) (auto intro!: lerp_well_inside)
  have first: "well_inside (lerp (Fin 128, Fin y) (Fin 270, Fin 220) (ease t))" if "unit t" for t
    using that y by (elim ease_bounds) (auto intro!: lerp_well_inside)
  note hd = assms(4) [unfolded packet_head_def Let_def s(1) y(1) prod.case x(1)]
  have c: "js_add BOT_X BOT_W = Fin 128" "bx GRPC = Fin 270" "bx QUEUE = Fin 450"
    "bw QUEUE = Fin 240" "bx ENGINE = Fin 770" "bw ENGINE = Fin 120"
    by (simp_all add: BOT_X_def BOT_W_def GRPC_def QUEUE_def ENGINE_def)
  consider "x < x0" | "x0 \<le> x" "x < x1" | "x1 \<le> x" "x < x2" | "x2 \<le> x" "x < x3" | "x3 \<le> x" by linarith
  then show ?thesis
  proof cases
    case 1
    then have "unit (js_div (Fin x) (Fin x0))" using x s(2) by (intro ratio_unit) auto
    from first [OF this] show ?thesis using hd 1 by (simp add: js_lt_def c)
  next
    case 2
    then have "unit (js_div (js_sub (Fin x) (Fin x0)) (js_sub (Fin x1) (Fin x0)))" using s by (intro segment_unit) auto
    from seg [OF this, of 270 450] show ?thesis using hd 2 by (simp add: js_lt_def c)
  next
    case 3
    then have "unit (js_div (js_sub (Fin x) (Fin x1)) (js_sub (Fin x2) (Fin x1)))" using s by (intro segment_unit) auto
    from seg [OF this, of 450 690] show ?thesis using hd 3 s by (simp add: js_lt_def c)
  next
    case 4
    then have "unit (js_div (js_sub (Fin x) (Fin x2)) (js_sub (Fin x3) (Fin x2)))" using s by (intro segment_unit) auto
    from seg [OF this, of 690 830] show ?thesis using hd 4 s by (simp add: js_lt_def c)
  next
    case 5
    then show ?thesis using hd s by (simp add: js_lt_def)
  qed
qed


text \<open>
  The stages of the animation are in order. For every trace in whole microseconds, however
  uneven, and with all rounding, the boundaries are strictly increasing inside the journey; so a
  dot starts before the first stage, passes the stages one after the other without going back,
  and is in the last one when its journey ends.
\<close>

lemma stages_in_order:
  assumes "whole_trace (b_trace f) a b c"
  shows "(case boundaries f of (s0, s1, s2, s3) \<Rightarrow>
      js_lt (Fin 0) s0 \<and> js_lt s0 s1 \<and> js_lt s1 s2 \<and> js_lt s2 s3 \<and> js_lt s3 (Fin 1)) \<and>
    stageAt (boundaries f) (Fin 0) = - 1 \<and> stageAt (boundaries f) (Fin 1) = 3 \<and>
    (\<forall>p q. js_le p q \<longrightarrow> stageAt (boundaries f) p \<le> stageAt (boundaries f) q)"
proof -
  have o: "ordered (boundaries f)" using assms by (rule boundaries_ordered)
  then obtain x0 x1 x2 x3 where "boundaries f = (Fin x0, Fin x1, Fin x2, Fin x3)" "1 / 10 < x0" "x0 + 1 / 20 < x1"
    "x1 + 1 / 20 < x2" "x2 + 1 / 20 < x3" "x3 < 7 / 10" by (rule orderedE)
  then show ?thesis using stageAt_mono [OF o] by (auto simp: stageAt_def js_lt_def)
qed

definition ex_timed :: wire_batch where
  "ex_timed = (ex_batch 1000 [])\<lparr>b_trace := \<lparr>tr_enqueue = Fin 12, tr_dequeue = Fin 15, tr_matchDone = Fin 240,
     tr_promiseSet = Fin 250, tr_publish = Fin 260\<rparr>\<rparr>"

lemma ex_timed_whole: "whole_trace (b_trace ex_timed) 12 15 240"
  by (simp add: ex_timed_def whole_trace_def)

theorem stages_in_order_witness:
  "stageAt (boundaries ex_timed) (Fin 0) = - 1 \<and> stageAt (boundaries ex_timed) (Fin (1 / 2)) \<le> 3"
proof -
  have "js_le (Fin (1 / 2)) (Fin 1)" by (simp add: js_le_def)
  then show ?thesis using stages_in_order [OF ex_timed_whole] by fastforce
qed

lemma clamp01_unit: "v \<noteq> NaN \<Longrightarrow> unit (clamp01 v)"
  by (cases v) (auto simp: clamp01_def unit_def js_min_def js_max_def min_def max_def)

text \<open>
  Every dot is on the canvas: for a roster without duplicates and traces in whole
  microseconds, the point at which any packet is drawn, and can be clicked, lies inside the
  diagram, whatever its progress.
\<close>

lemma dots_stay_on_canvas:
  assumes "roster_ok r" and "\<forall>p \<in> set ps. progress now p \<noteq> NaN \<and> p_s p = boundaries (p_f p) \<and>
      (\<exists>a b c. whole_trace (b_trace (p_f p)) a b c)"
    and "(f, h) \<in> set (packet_hits (botSlots r) now ps)"
  shows "on_canvas h"
proof -
  obtain p where p: "p \<in> set ps" "packet_head (botSlots r) p (clamp01 (progress now p)) = Some h"
    using assms(3) by (auto simp: packet_hits_def List.map_filter_def)
  then have "ordered (p_s p)" "unit (clamp01 (progress now p))"
    using assms(2) boundaries_ordered by (metis, metis clamp01_unit)
  then show ?thesis using head_well_inside [OF assms(1) _ _ p(2)] well_inside_on_canvas by simp
qed

definition hit_dist :: "(jsnum \<Rightarrow> jsnum \<Rightarrow> jsnum) \<Rightarrow> pt \<Rightarrow> pt \<Rightarrow> jsnum" where
  "hit_dist hypot c h = hypot (js_sub (fst h) (fst c)) (js_sub (snd h) (snd c))"

lemma nearest_none:
  "nearest hypot c hs best = None \<longleftrightarrow> best = None \<and> (\<forall>(f, h) \<in> set hs. \<not> js_lt (hit_dist hypot c h) (Fin 22))"
  by (induction hypot c hs best rule: nearest.induct) (auto simp: hit_dist_def Let_def)

lemma nearest_some:
  assumes "nearest hypot c hs best = Some (f, d)" and "\<forall>f' d'. best = Some (f', d') \<longrightarrow> js_lt d' (Fin 22)"
  shows "js_lt d (Fin 22) \<and> (best = Some (f, d) \<or> (\<exists>h. (f, h) \<in> set hs \<and> d = hit_dist hypot c h)) \<and>
    (\<forall>f' d'. best = Some (f', d') \<longrightarrow> \<not> js_lt d' d) \<and> (\<forall>(f', h') \<in> set hs. \<not> js_lt (hit_dist hypot c h') d)"
  using assms
proof (induction hs arbitrary: best)
  case Nil
  then show ?case by (auto simp: js_lt_def)
next
  case (Cons gh hs)
  obtain g h where gh: "gh = (g, h)" by (cases gh)
  let ?d = "hit_dist hypot c h"
  let ?take = "js_lt ?d (Fin 22) \<and> (case best of None \<Rightarrow> True | Some (_, bd) \<Rightarrow> js_lt ?d bd)"
  let ?best = "if ?take then Some (g, ?d) else best"
  have eq: "nearest hypot c (gh # hs) best = nearest hypot c hs ?best"
    by (simp only: gh nearest.simps hit_dist_def Let_def)
  have IH: "js_lt d (Fin 22) \<and> (?best = Some (f, d) \<or> (\<exists>h. (f, h) \<in> set hs \<and> d = hit_dist hypot c h)) \<and>
    (\<forall>f' d'. ?best = Some (f', d') \<longrightarrow> \<not> js_lt d' d) \<and> (\<forall>(f', h') \<in> set hs. \<not> js_lt (hit_dist hypot c h') d)"
  proof (rule Cons.IH)
    show "nearest hypot c hs ?best = Some (f, d)" using Cons.prems(1) eq by simp
    show "\<forall>f' d'. ?best = Some (f', d') \<longrightarrow> js_lt d' (Fin 22)" using Cons.prems(2) by simp
  qed
  have new: "\<not> js_lt ?d d"
  proof (cases ?take)
    case False
    show ?thesis
    proof
      assume lt: "js_lt ?d d"
      then have "js_lt ?d (Fin 22)" using IH by (auto simp: js_lt_def)
      with False obtain f' bd where bd: "best = Some (f', bd)" "\<not> js_lt ?d bd" by (auto split: option.splits)
      then have "js_lt bd (Fin 22)" using Cons.prems(2) by simp
      with bd(2) lt have "js_lt bd d" by (auto simp: js_lt_def)
      then show False using IH False bd(1) by (simp split: if_splits)
    qed
  qed (use IH in auto)
  have old: "\<forall>f' d'. best = Some (f', d') \<longrightarrow> \<not> js_lt d' d"
    using IH by (auto simp: js_lt_def split: if_splits)
  have src: "best = Some (f, d) \<or> (\<exists>h'. (f, h') \<in> set (gh # hs) \<and> d = hit_dist hypot c h')"
    using IH unfolding gh by (auto simp del: split_paired_Ex split: if_splits)
  show ?case using IH new old src unfolding gh by simp
qed

text \<open>
  A click selects the nearest dot within 22 units, and nothing when there is none: a dot is
  selected exactly when some dot is that close, and no dot is closer than the selected one.
\<close>

lemma click_selects_nearest:
  "case on_click hypot c s of
     None \<Rightarrow> \<forall>(f, h) \<in> set (s_hits s). \<not> js_lt (hit_dist hypot c h) (Fin 22)
   | Some f \<Rightarrow> \<exists>h. (f, h) \<in> set (s_hits s) \<and> js_lt (hit_dist hypot c h) (Fin 22) \<and>
       (\<forall>(f', h') \<in> set (s_hits s). \<not> js_lt (hit_dist hypot c h') (hit_dist hypot c h))"
proof (cases "nearest hypot c (s_hits s) None")
  case None
  then show ?thesis using nearest_none [of hypot c "s_hits s" None] by (simp add: on_click_def)
next
  case (Some fd)
  obtain f d where fd: "fd = (f, d)" by (cases fd)
  from nearest_some [of hypot c "s_hits s" None f d] show ?thesis
    using Some by (auto simp: on_click_def fd)
qed

theorem click_selects_nearest_witness:
  "on_click (\<lambda>x y. js_max (js_abs x) (js_abs y)) (Fin 12, Fin 10) (new_scope\<lparr>s_hits := [(ex_timed, (Fin 10, Fin 10))]\<rparr>) =
     Some ex_timed"
proof -
  let ?h = "\<lambda>x y. js_max (js_abs x) (js_abs y)" and ?s = "new_scope\<lparr>s_hits := [(ex_timed, (Fin 10, Fin 10))]\<rparr>"
  have "js_lt (hit_dist ?h (Fin 12, Fin 10) (Fin 10, Fin 10)) (Fin 22)"
    by (simp add: hit_dist_def js_sub_def js_max_def js_lt_def)
  then show ?thesis
    using click_selects_nearest [where hypot = ?h and c = "(Fin 12, Fin 10)" and s = ?s] by (auto split: option.splits)
qed

section \<open>The packets\<close>

lemma admit_packets:
  "length (s_packets s) \<le> MAX_PACKETS \<Longrightarrow> length (s_packets (admit now j fr s)) \<le> MAX_PACKETS"
  by (cases fr) simp_all

lemma admit_all:
  assumes "length (s_packets s) \<le> MAX_PACKETS"
  shows "length (s_packets (foldl (\<lambda>s fr. admit now j fr s) s frs)) \<le> MAX_PACKETS \<and>
    (\<forall>p \<in> set (s_packets (foldl (\<lambda>s fr. admit now j fr s) s frs)). p \<in> set (s_packets s) \<or>
      (\<exists>b. FBatch b \<in> set frs \<and> p = \<lparr>p_f = b, p_start = now, p_dur = j, p_s = boundaries b\<rparr>))"
  using assms
proof (induction frs arbitrary: s)
  case (Cons fr frs)
  have one: "\<forall>p \<in> set (s_packets (admit now j fr s)). p \<in> set (s_packets s) \<or>
      (\<exists>b. fr = FBatch b \<and> p = \<lparr>p_f = b, p_start = now, p_dur = j, p_s = boundaries b\<rparr>)"
    by (cases fr) auto
  let ?r = "foldl (\<lambda>s fr. admit now j fr s) (admit now j fr s) frs"
  have IH: "length (s_packets ?r) \<le> MAX_PACKETS" "\<forall>p \<in> set (s_packets ?r). p \<in> set (s_packets (admit now j fr s)) \<or>
      (\<exists>b. FBatch b \<in> set frs \<and> p = \<lparr>p_f = b, p_start = now, p_dur = j, p_s = boundaries b\<rparr>)"
    using Cons.IH [OF admit_packets [OF Cons.prems]] by blast+
  have "p \<in> set (s_packets s) \<or>
      (\<exists>b. FBatch b \<in> set (fr # frs) \<and> p = \<lparr>p_f = b, p_start = now, p_dur = j, p_s = boundaries b\<rparr>)"
    if "p \<in> set (s_packets ?r)" for p
    using IH(2) one that by (metis list.set_intros)
  with IH(1) show ?case by simp
qed simp

lemma draw_packets:
  "s_packets (fst (snd (draw pn now (s, f)))) =
     s_packets (expire now (foldl (\<lambda>s fr. admit now (js_div (Fin 2600) (f_speed (snd (takeNew (tick pn now f))))) fr s) s
       (fst (takeNew (tick pn now f)))))"
  by (simp add: draw_def split_beta Let_def spot_step_def split: option.split)

text \<open>
  The animation stays bounded and current. After every animation frame there are at most 140
  dots; none of them is older than its journey and 60 milliseconds; and each is either one that
  was there before or a batch that the feed delivered in this very frame, starting now with the
  stage boundaries of its own trace.
\<close>

lemma packets_bounded_and_current:
  assumes "length (s_packets s) \<le> 140"
  shows "let s' = fst (snd (draw pn now (s, f))) in
    length (s_packets s') \<le> 140 \<and>
    (\<forall>p \<in> set (s_packets s'). js_lt (js_sub now (p_start p)) (js_add (p_dur p) (Fin 60)) \<and>
       (p \<in> set (s_packets s) \<or>
        (\<exists>b. FBatch b \<in> set (fst (takeNew (tick pn now f))) \<and> p_f p = b \<and> p_start p = now \<and> p_s p = boundaries b)))"
proof -
  let ?j = "js_div (Fin 2600) (f_speed (snd (takeNew (tick pn now f))))"
  let ?s = "foldl (\<lambda>s fr. admit now ?j fr s) s (fst (takeNew (tick pn now f)))"
  have s: "length (s_packets ?s) \<le> 140" "\<forall>p \<in> set (s_packets ?s). p \<in> set (s_packets s) \<or>
      (\<exists>b. FBatch b \<in> set (fst (takeNew (tick pn now f))) \<and> p = \<lparr>p_f = b, p_start = now, p_dur = ?j, p_s = boundaries b\<rparr>)"
    using admit_all [of s now ?j "fst (takeNew (tick pn now f))"] assms by (simp_all add: MAX_PACKETS_def)
  have e: "length (s_packets (expire now ?s)) \<le> 140"
    using s(1) by (simp add: expire_def le_trans [OF length_filter_le])
  have "js_lt (js_sub now (p_start p)) (js_add (p_dur p) (Fin 60)) \<and> p \<in> set (s_packets ?s)"
    if "p \<in> set (s_packets (expire now ?s))" for p using that by (simp add: expire_def)
  with e s(2) show ?thesis unfolding Let_def draw_packets by (metis packet.select_convs)
qed

section \<open>The spotlight\<close>

fun spot_run :: "jsnum list \<Rightarrow> scope \<Rightarrow> spot_msg list \<times> scope" where
  "spot_run [] s = ([], s)"
| "spot_run (now # ns) s =
     (let (o1, s1) = spot_step now s; (o2, s2) = spot_run ns s1 in (o1 @ o2, s2))"

fun spot_stage :: "packet \<Rightarrow> spot_msg \<Rightarrow> int option" where
  "spot_stage p (SpotAt f pr) = Some (stageAt (p_s p) pr)"
| "spot_stage p SpotNull = None"

definition announced :: "packet \<Rightarrow> spot_msg list \<Rightarrow> int list" where
  "announced p out = List.map_filter (spot_stage p) out"

definition over :: "packet \<Rightarrow> jsnum \<Rightarrow> bool" where
  "over p now \<longleftrightarrow> js_ge (progress now p) (lit (102 / 100))"

lemma spot_run_none: "s_spot s = None \<Longrightarrow> spot_run ns s = ([], s)"
  by (induction ns) (simp_all add: spot_step_def)

lemma spot_step_cases:
  assumes "s_spot s = Some p"
  obtains (over) "over p now" "spot_step now s = ([SpotNull], s\<lparr>s_spot := None, s_lastSpot := None\<rparr>)"
  | (same) "\<not> over p now" "s_lastSpot s = Some (b_seq (p_f p), stageAt (p_s p) (progress now p))"
      "spot_step now s = ([], s)"
  | (new) "\<not> over p now" "s_lastSpot s \<noteq> Some (b_seq (p_f p), stageAt (p_s p) (progress now p))"
      "spot_step now s = ([SpotAt (p_f p) (progress now p)],
         s\<lparr>s_lastSpot := Some (b_seq (p_f p), stageAt (p_s p) (progress now p))\<rparr>)"
  using assms by (auto simp: spot_step_def over_def Let_def)

definition last_stage :: "packet \<Rightarrow> scope \<Rightarrow> int \<Rightarrow> bool" where
  "last_stage p s k \<longleftrightarrow> s_lastSpot s = None \<and> k = - 2 \<or> s_lastSpot s = Some (b_seq (p_f p), k)"

lemma spot_run_stages:
  assumes "s_spot s = Some p" and "last_stage p s k"
    and "sorted (map (\<lambda>now. stageAt (p_s p) (progress now p)) ns)"
    and "\<forall>now \<in> set ns. k \<le> stageAt (p_s p) (progress now p)" and "- 2 \<le> k"
  shows "sorted_wrt (<) (announced p (fst (spot_run ns s))) \<and> (\<forall>j \<in> set (announced p (fst (spot_run ns s))). k < j) \<and>
    (if \<exists>now \<in> set ns. over p now
     then \<exists>out. fst (spot_run ns s) = out @ [SpotNull] \<and> SpotNull \<notin> set out \<and> s_spot (snd (spot_run ns s)) = None
     else SpotNull \<notin> set (fst (spot_run ns s)) \<and> s_spot (snd (spot_run ns s)) = Some p)"
  using assms
proof (induction ns arbitrary: s k)
  case Nil
  then show ?case by (simp add: announced_def List.map_filter_def)
next
  case (Cons now ns)
  let ?k = "stageAt (p_s p) (progress now p)"
  have ns: "sorted (map (\<lambda>now. stageAt (p_s p) (progress now p)) ns)" "k \<le> ?k"
    "\<forall>n \<in> set ns. ?k \<le> stageAt (p_s p) (progress n p)" using Cons.prems(3,4) by auto
  from Cons.prems(1) show ?case
  proof (cases rule: spot_step_cases [of s p now])
    case over
    then show ?thesis
      using spot_run_none [of "s\<lparr>s_spot := None, s_lastSpot := None\<rparr>" ns]
      by (simp add: announced_def List.map_filter_def)
  next
    case same
    then have "last_stage p s ?k" by (simp add: last_stage_def)
    from Cons.IH [OF Cons.prems(1) this ns(1,3)] same ns(2) Cons.prems(5) show ?thesis by (auto simp: split_beta)
  next
    case new
    then have lt: "k < ?k"
      using Cons.prems(2) ns(2) by (auto simp: last_stage_def stageAt_def split: prod.splits if_splits)
    let ?s = "s\<lparr>s_lastSpot := Some (b_seq (p_f p), ?k)\<rparr>"
    have "s_spot ?s = Some p" "last_stage p ?s ?k" using Cons.prems(1) by (simp_all add: last_stage_def)
    from Cons.IH [OF this ns(1,3)] lt Cons.prems(5)
    have IH: "sorted_wrt (<) (announced p (fst (spot_run ns ?s))) \<and> (\<forall>j \<in> set (announced p (fst (spot_run ns ?s))). ?k < j) \<and>
      (if \<exists>now \<in> set ns. over p now
       then \<exists>out. fst (spot_run ns ?s) = out @ [SpotNull] \<and> SpotNull \<notin> set out \<and> s_spot (snd (spot_run ns ?s)) = None
       else SpotNull \<notin> set (fst (spot_run ns ?s)) \<and> s_spot (snd (spot_run ns ?s)) = Some p)" by simp
    have run: "fst (spot_run (now # ns) s) = SpotAt (p_f p) (progress now p) # fst (spot_run ns ?s)"
      "snd (spot_run (now # ns) s) = snd (spot_run ns ?s)" using new(3) by (simp_all add: split_beta)
    have an: "announced p (SpotAt (p_f p) (progress now p) # out) = ?k # announced p out" for out
      by (simp add: announced_def List.map_filter_def)
    have tl: "(\<exists>out. fst (spot_run ns ?s) = out @ [SpotNull] \<and> SpotNull \<notin> set out \<and> Q) \<Longrightarrow>
      (\<exists>out. SpotAt (p_f p) (progress now p) # fst (spot_run ns ?s) = out @ [SpotNull] \<and> SpotNull \<notin> set out \<and> Q)" for Q
      by (auto intro: exI [of _ "SpotAt (p_f p) (progress now p) # out" for out])
    show ?thesis unfolding run an using IH lt new(1) tl by auto
  qed
qed


lemma js_div_mono:
  assumes "a \<le> b" and "a \<noteq> NaN" and "b \<noteq> NaN" and "0 < d"
  shows "js_le (js_div a (Fin d)) (js_div b (Fin d))"
  using assms by (cases a; cases b)
    (auto simp: js_inf_def js_le_def le_PosInf intro!: fl_mono divide_right_mono)

lemma progress_mono:
  assumes "p_start p = Fin st" and "p_dur p = Fin d" and "0 < d" and "t \<le> t'"
  shows "js_le (progress (Fin t) p) (progress (Fin t') p)"
  unfolding progress_def assms(1,2)
  by (rule js_div_mono [OF _ _ _ assms(3)]) (use assms(4) in \<open>auto simp: js_sub_def intro!: fl_mono\<close>)

text \<open>
  The slow-motion spotlight tells its story once and ends. Over any frames in time order, the
  stages it announces are strictly increasing, so none is announced twice or out of order; and as
  soon as a frame is past the end of the journey it reports the end, exactly once, as the last
  thing it says, and is switched off.
\<close>

lemma spotlight_tells_stages_once:
  assumes "s_spot s = Some p" and "s_lastSpot s = None" and "p_s p = boundaries (p_f p)"
    and "whole_trace (b_trace (p_f p)) a b c" and "p_start p = Fin st" and "p_dur p = Fin 9000" and "sorted ts"
  shows "let (out, s') = spot_run (map Fin ts) s in
    sorted_wrt (<) (announced p out) \<and>
    (if \<exists>t \<in> set ts. over p (Fin t)
     then \<exists>out'. out = out' @ [SpotNull] \<and> SpotNull \<notin> set out' \<and> s_spot s' = None
     else SpotNull \<notin> set out \<and> s_spot s' = Some p)"
proof -
  have o: "ordered (p_s p)" using boundaries_ordered [OF assms(4)] assms(3) by simp
  have "sorted (map (\<lambda>now. stageAt (p_s p) (progress now p)) (map Fin ts))"
    using assms(7) stageAt_mono [OF o] progress_mono [OF assms(5,6)]
    by (auto simp: sorted_map comp_def elim!: sorted_wrt_mono_rel [rotated])
  moreover have "- 2 \<le> stageAt (p_s p) x" for x by (auto simp: stageAt_def split: prod.splits)
  ultimately show ?thesis
    using spot_run_stages [of s p "- 2" "map Fin ts"] assms(1,2) by (auto simp: last_stage_def split_beta)
qed

definition ex_spot :: packet where
  "ex_spot = \<lparr>p_f = ex_timed, p_start = Fin 0, p_dur = Fin 9000, p_s = boundaries ex_timed\<rparr>"

theorem spotlight_tells_stages_once_witness:
  "\<exists>out s'. spot_run (map Fin [0, 18000]) (new_scope\<lparr>s_spot := Some ex_spot\<rparr>) = (out @ [SpotNull], s') \<and> s_spot s' = None"
proof -
  let ?s = "new_scope\<lparr>s_spot := Some ex_spot\<rparr>"
  obtain out s' where r: "spot_run (map Fin [0, 18000]) ?s = (out, s')" by (cases "spot_run (map Fin [0, 18000]) ?s")
  have "fl (102 / 100) \<le> fl 2" by (rule fl_mono) simp
  then have "over ex_spot (Fin 18000)"
    by (simp add: over_def progress_def ex_spot_def js_sub_def js_le_def)
  then have ov: "\<exists>t \<in> set [0, 18000]. over ex_spot (Fin t)" by simp
  have "let (out, s') = spot_run (map Fin [0, 18000]) ?s in
    sorted_wrt (<) (announced ex_spot out) \<and>
    (if \<exists>t \<in> set [0, 18000]. over ex_spot (Fin t)
     then \<exists>out'. out = out' @ [SpotNull] \<and> SpotNull \<notin> set out' \<and> s_spot s' = None
     else SpotNull \<notin> set out \<and> s_spot s' = Some ex_spot)"
    by (rule spotlight_tells_stages_once [where a = 12 and b = 15 and c = 240 and st = 0])
       (simp_all add: new_scope_def ex_spot_def ex_timed_whole)
  with ov r show ?thesis by (simp only: Let_def split_beta fst_conv snd_conv if_True) blast
qed

end
