(* ===== verification/Format.thy ===== *)
theory Format
  imports Js_Number
begin

text \<open>
  Numbers as text: the display formats of \<^verbatim>\<open>web/src/derive.ts\<close> (\<^verbatim>\<open>fmtPrice\<close>, \<^verbatim>\<open>fmtSigned\<close>,
  \<^verbatim>\<open>fmtUs\<close>) over \<^verbatim>\<open>toFixed\<close>, and \<^verbatim>\<open>Number\<close> on the text of an input field. A printed price
  reads back as the number it came from whenever that number is a whole number of cents as
  binary64 holds it (\<open>Number_fmtPrice\<close>).
\<close>

section \<open>Decimal digits\<close>

definition digit :: "nat \<Rightarrow> char" where
  "digit d = char_of (48 + d)"

definition is_digit :: "char \<Rightarrow> bool" where
  "is_digit c \<longleftrightarrow> 48 \<le> (of_char c :: nat) \<and> (of_char c :: nat) \<le> 57"

fun digits :: "nat \<Rightarrow> string" where
  "digits n = (if n < 10 then [digit n] else digits (n div 10) @ [digit (n mod 10)])"

declare digits.simps [simp del]

definition dec_value :: "string \<Rightarrow> nat" where
  "dec_value s = foldl (\<lambda>n c. 10 * n + (of_char c - 48)) 0 s"

definition pad_start :: "nat \<Rightarrow> char \<Rightarrow> string \<Rightarrow> string" where
  "pad_start k c s = replicate (k - length s) c @ s"

section \<open>Printing\<close>

text \<open>
  \<^verbatim>\<open>toFixed(d)\<close>: the closest integer to \<open>x * 10 ^ d\<close>, the larger one of two,
  computed from the exact value; \<^verbatim>\<open>Math.round\<close> is the same rule for \<open>d = 0\<close>. From
  \<open>10 ^ 21\<close> on the language switches to exponents, which no price or time here reaches.
\<close>

definition round_up :: "rat \<Rightarrow> int" where
  "round_up x = \<lfloor>x + 1 / 2\<rfloor>"

definition fixed_pos :: "nat \<Rightarrow> rat \<Rightarrow> string" where
  "fixed_pos d x =
     (let n = nat (round_up (x * 10 ^ d))
      in if d = 0 then digits n
         else digits (n div 10 ^ d) @ CHR ''.'' # pad_start d (CHR ''0'') (digits (n mod 10 ^ d)))"

fun toFixed :: "nat \<Rightarrow> jsnum \<Rightarrow> string" where
  "toFixed d (Fin x) = (if x < 0 then CHR ''-'' # fixed_pos d (- x) else fixed_pos d x)"
| "toFixed d NaN = ''NaN''"
| "toFixed d PosInf = ''Infinity''"
| "toFixed d NegInf = ''-Infinity''"

section \<open>Parsing\<close>

definition is_space :: "char \<Rightarrow> bool" where
  "is_space c \<longleftrightarrow> c \<in> {CHR '' '', CHR 0x09, CHR 0x0A, CHR 0x0B, CHR 0x0C, CHR 0x0D}"

definition trim :: "string \<Rightarrow> string" where
  "trim s = rev (dropWhile is_space (rev (dropWhile is_space s)))"

definition exponent :: "string \<Rightarrow> int option" where
  "exponent s =
     (let (sg, ds) = (case s of [] \<Rightarrow> (1, []) | c # r \<Rightarrow> if c = CHR ''-'' then (- 1, r) else if c = CHR ''+'' then (1, r) else (1, s))
      in if ds \<noteq> [] \<and> list_all is_digit ds then Some (sg * int (dec_value ds)) else None)"

definition decimal :: "string \<Rightarrow> rat option" where
  "decimal s =
     (let a = takeWhile is_digit s; r = dropWhile is_digit s;
          fr = (r \<noteq> [] \<and> hd r = CHR ''.'');
          b = (if fr then takeWhile is_digit (tl r) else []);
          r' = (if fr then dropWhile is_digit (tl r) else r);
          v = of_nat (dec_value (a @ b)) / 10 ^ length b
      in if a = [] \<and> b = [] then None
         else if r' = [] then Some v
         else if hd r' = CHR ''e'' \<or> hd r' = CHR ''E'' then
           (case exponent (tl r') of None \<Rightarrow> None | Some e \<Rightarrow> Some (v * 10 powi e))
         else None)"

definition hex_digit :: "char \<Rightarrow> nat" where
  "hex_digit c = (let n = of_char c in if is_digit c then n - 48 else if 97 \<le> n \<and> n \<le> 122 then n - 87
     else if 65 \<le> n \<and> n \<le> 90 then n - 55 else 99)"

definition radix_value :: "nat \<Rightarrow> string \<Rightarrow> jsnum" where
  "radix_value b s =
     (if s \<noteq> [] \<and> list_all (\<lambda>c. hex_digit c < b) s
      then fl (of_nat (foldl (\<lambda>n c. b * n + hex_digit c) 0 s)) else NaN)"

definition radix_of :: "string \<Rightarrow> nat option" where
  "radix_of s = (if s = ''0x'' \<or> s = ''0X'' then Some 16 else if s = ''0o'' \<or> s = ''0O'' then Some 8
     else if s = ''0b'' \<or> s = ''0B'' then Some 2 else None)"

definition unsigned_num :: "string \<Rightarrow> jsnum" where
  "unsigned_num s =
     (if s = ''Infinity'' then PosInf else case decimal s of None \<Rightarrow> NaN | Some v \<Rightarrow> fl v)"

text \<open>\<^verbatim>\<open>Number\<close> on a string.\<close>

definition to_number :: "string \<Rightarrow> jsnum" where
  "to_number str =
     (let s = trim str
      in if s = [] then Fin 0
         else case radix_of (take 2 s) of
           Some b \<Rightarrow> radix_value b (drop 2 s)
         | None \<Rightarrow>
             if hd s = CHR ''-'' then js_neg (unsigned_num (tl s))
             else if hd s = CHR ''+'' then unsigned_num (tl s)
             else unsigned_num s)"

section \<open>The display formats\<close>

definition fmtPrice :: "jsnum \<Rightarrow> string" where
  "fmtPrice p = toFixed 2 p"

text \<open>The minus sign U+2212 and the micro sign U+00B5, as UTF-8.\<close>

definition fmtSigned :: "jsnum \<Rightarrow> nat \<Rightarrow> string" where
  "fmtSigned v d =
     (if js_gt v (Fin 0) then ''+'' else if js_lt v (Fin 0) then [CHR 0xE2, CHR 0x88, CHR 0x92] else []) @
     toFixed d (js_abs v)"

definition fmtUs :: "jsnum \<Rightarrow> string" where
  "fmtUs us =
     (if js_ge us (Fin 1000) then toFixed 2 (js_div us (Fin 1000)) @ '' ms''
      else toFixed 0 us @ [CHR '' '', CHR 0xC2, CHR 0xB5, CHR ''s''])"

section \<open>Digits and their value\<close>

lemma of_char_digit: "d < 10 \<Longrightarrow> (of_char (digit d) :: nat) = 48 + d"
  by (simp add: digit_def)

lemma is_digit_digit: "d < 10 \<Longrightarrow> is_digit (digit d)"
  by (simp add: is_digit_def of_char_digit)

lemma digits_ok: "list_all is_digit (digits n) \<and> digits n \<noteq> []"
  by (induction n rule: digits.induct) (subst (1 2) digits.simps, simp add: is_digit_digit)

lemma dec_value_append: "dec_value (s @ [c]) = 10 * dec_value s + (of_char c - 48)"
  by (simp add: dec_value_def)

lemma dec_value_digits: "dec_value (digits n) = n"
proof (induction n rule: digits.induct)
  case (1 n)
  show ?case
  proof (cases "n < 10")
    case True
    then show ?thesis by (simp add: digits.simps [of n] dec_value_def of_char_digit)
  next
    case False
    with 1 have "dec_value (digits (n div 10)) = n div 10" by simp
    with False show ?thesis
      by (simp add: digits.simps [of n] dec_value_append of_char_digit)
  qed
qed


lemma dec_value_app: "dec_value (s @ t) = dec_value s * 10 ^ length t + dec_value t"
proof (induction t rule: rev_induct)
  case Nil
  then show ?case by (simp add: dec_value_def)
next
  case (snoc c t)
  then show ?case by (simp add: dec_value_append algebra_simps flip: append_assoc)
qed

lemma length_digits: "0 < k \<Longrightarrow> n < 10 ^ k \<Longrightarrow> length (digits n) \<le> k"
proof (induction n arbitrary: k rule: digits.induct)
  case (1 n)
  show ?case
  proof (cases "n < 10")
    case True
    then show ?thesis using "1.prems" by (simp add: digits.simps [of n])
  next
    case False
    then obtain j where j: "k = Suc j" "0 < j" using "1.prems" by (cases k; cases "k - 1") auto
    then have "n div 10 < 10 ^ j" using "1.prems" by (simp add: less_mult_imp_div_less mult.commute)
    then have "length (digits (n div 10)) \<le> j" using "1.IH" False j by simp
    then show ?thesis using False j by (simp add: digits.simps [of n])
  qed
qed

lemma padded:
  assumes "0 < d" and "n < 10 ^ d"
  shows "length (pad_start d (CHR ''0'') (digits n)) = d"
    and "dec_value (pad_start d (CHR ''0'') (digits n)) = n"
    and "list_all is_digit (pad_start d (CHR ''0'') (digits n))"
proof -
  have z: "dec_value (replicate k (CHR ''0'')) = 0" for k
    by (induction k) (simp_all add: dec_value_def)
  have zd: "list_all is_digit (replicate k (CHR ''0''))" for k
    by (induction k) (simp_all add: is_digit_def)
  show "length (pad_start d (CHR ''0'') (digits n)) = d"
    using length_digits [OF assms] by (simp add: pad_start_def)
  show "dec_value (pad_start d (CHR ''0'') (digits n)) = n"
    by (simp add: pad_start_def dec_value_app z dec_value_digits)
  show "list_all is_digit (pad_start d (CHR ''0'') (digits n))"
    using digits_ok [of n] zd by (simp add: pad_start_def)
qed

lemma takeWhile_digits:
  assumes "list_all is_digit s" and "t = [] \<or> \<not> is_digit (hd t)"
  shows "takeWhile is_digit (s @ t) = s" and "dropWhile is_digit (s @ t) = t"
  using assms by (induction s) (auto, (cases t; simp)+)

lemma decimal_fixed:
  assumes "0 < d"
  shows "decimal (digits (n div 10 ^ d) @ CHR ''.'' # pad_start d (CHR ''0'') (digits (n mod 10 ^ d))) =
    Some (of_nat n / 10 ^ d)"
proof -
  let ?a = "digits (n div 10 ^ d)" and ?b = "pad_start d (CHR ''0'') (digits (n mod 10 ^ d))"
  have a: "list_all is_digit ?a" "?a \<noteq> []" using digits_ok by auto
  have b: "length ?b = d" "dec_value ?b = n mod 10 ^ d" "list_all is_digit ?b"
    using padded [OF assms, of "n mod 10 ^ d"] by simp_all
  have tw: "takeWhile is_digit (?a @ CHR ''.'' # ?b) = ?a" "dropWhile is_digit (?a @ CHR ''.'' # ?b) = CHR ''.'' # ?b"
    using takeWhile_digits [OF a(1), of "CHR ''.'' # ?b"] by (simp_all add: is_digit_def)
  have tb: "takeWhile is_digit ?b = ?b" "dropWhile is_digit ?b = []"
    using takeWhile_digits [OF b(3), of "[]"] by simp_all
  have "dec_value (?a @ ?b) = n"
    using b div_mult_mod_eq [of n "10 ^ d"] by (simp add: dec_value_app dec_value_digits)
  with a(2) b(1) show ?thesis by (simp add: decimal_def tw tb Let_def)
qed

text \<open>Nothing in a printed number is a blank or a prefix of another notation.\<close>

lemma not_digits:
  "list_all (\<lambda>c. \<not> is_digit c) [CHR '' '', CHR 0x09, CHR 0x0A, CHR 0x0B, CHR 0x0C, CHR 0x0D, CHR ''-'', CHR ''+'',
     CHR ''I'', CHR ''x'', CHR ''X'', CHR ''o'', CHR ''O'', CHR ''b'', CHR ''B'']"
  by (simp add: is_digit_def)

lemma digit_plain:
  assumes "is_digit c"
  shows "c \<notin> {CHR '' '', CHR 0x09, CHR 0x0A, CHR 0x0B, CHR 0x0C, CHR 0x0D, CHR ''-'', CHR ''+'',
     CHR ''I'', CHR ''x'', CHR ''X'', CHR ''o'', CHR ''O'', CHR ''b'', CHR ''B''}" and "\<not> is_space c"
proof -
  show *: "c \<notin> {CHR '' '', CHR 0x09, CHR 0x0A, CHR 0x0B, CHR 0x0C, CHR 0x0D, CHR ''-'', CHR ''+'',
     CHR ''I'', CHR ''x'', CHR ''X'', CHR ''o'', CHR ''O'', CHR ''b'', CHR ''B''}"
    using not_digits assms unfolding list.pred_inject by (metis insertE empty_iff)
  then show "\<not> is_space c" by (simp only: is_space_def insert_iff) blast
qed

lemma trim_id:
  assumes "s \<noteq> []" and "\<not> is_space (hd s)" and "\<not> is_space (last s)"
  shows "trim s = s"
proof -
  have "dropWhile is_space s = s" "dropWhile is_space (rev s) = rev s"
    using assms by (simp_all add: dropWhile_eq_self_iff hd_rev)
  then show ?thesis by (simp add: trim_def)
qed

lemma Number_fixed:
  assumes "0 < d"
  shows "to_number (digits (n div 10 ^ d) @ CHR ''.'' # pad_start d (CHR ''0'') (digits (n mod 10 ^ d))) =
    fl (of_nat n / 10 ^ d)"
proof -
  let ?a = "digits (n div 10 ^ d)" and ?b = "pad_start d (CHR ''0'') (digits (n mod 10 ^ d))"
  let ?s = "?a @ CHR ''.'' # ?b"
  have a: "list_all is_digit ?a" "?a \<noteq> []" using digits_ok by auto
  have b: "list_all is_digit ?b" "?b \<noteq> []"
    using padded [OF assms, of "n mod 10 ^ d"] assms by auto
  obtain c cs where c: "?a = c # cs" "is_digit c" using a by (cases ?a) auto
  have l: "is_digit (last ?s)" using b by (auto simp: list_all_iff)
  have tr: "trim ?s = ?s" using c digit_plain(2) [OF l] digit_plain(2) [OF c(2)] by (intro trim_id) auto
  obtain c2 where c2: "take 2 ?s = [c, c2]" "c2 = CHR ''.'' \<or> is_digit c2"
    using c a(1) by (cases cs) auto
  have "c2 \<notin> {CHR ''x'', CHR ''X'', CHR ''o'', CHR ''O'', CHR ''b'', CHR ''B''}"
    using c2(2) digit_plain(1) [of c2] by (elim disjE) simp_all
  then have r: "radix_of (take 2 ?s) = None" unfolding c2(1) radix_of_def by simp
  have h: "hd ?s \<noteq> CHR ''-''" "hd ?s \<noteq> CHR ''+''" "?s \<noteq> ''Infinity''" "?s \<noteq> []"
    using c digit_plain(1) [OF c(2)] by simp_all
  show ?thesis
    unfolding to_number_def tr Let_def r unsigned_num_def
    using h decimal_fixed [OF assms, of n] by simp
qed


section \<open>Cents survive printing and parsing\<close>

lemma fl_near:
  assumes "0 \<le> q" and "q < 2 ^ 44"
  obtains x where "fl q = Fin x" "\<bar>x - q\<bar> \<le> 1 / 256"
proof -
  define m where "m = \<lfloor>q * 256\<rfloor>"
  have m: "of_int m \<le> q * 256" "q * 256 < of_int m + 1" unfolding m_def by linarith+
  have "0 \<le> m" using assms(1) by (simp add: m_def)
  have "q * 256 < 2 ^ 52" using assms(2) by simp
  with m(1) have "(of_int m :: rat) < of_int (2 ^ 52)" by simp
  then have "m < 2 ^ 52" by (simp only: of_int_less_iff)
  with \<open>0 \<le> m\<close> have b: "\<bar>m\<bar> < 2 ^ 53" "\<bar>m + 1\<bar> < 2 ^ 53" by simp_all
  have "fl (of_int m / 2 ^ 8) \<le> fl q" "fl q \<le> fl (of_int (m + 1) / 2 ^ 8)"
    using m by (intro fl_mono; simp)+
  then have le: "Fin (of_int m / 256) \<le> fl q" "fl q \<le> Fin ((of_int m + 1) / 256)"
    using fl_sc [OF b(1), of 8] fl_sc [OF b(2), of 8] by (simp_all add: sc_def)
  then obtain x where x: "fl q = Fin x" by (cases "fl q") auto
  have "x - q \<le> 1 / 256" "q - x \<le> 1 / 256" using le m unfolding x by (simp_all add: field_simps)
  then have "\<bar>x - q\<bar> \<le> 1 / 256" by linarith
  with x show thesis by (rule that)
qed

lemma Number_fmtPrice:
  assumes "k < 2 ^ 50"
  shows "to_number (fmtPrice (fl (of_nat k / 100))) = fl (of_nat k / 100)"
proof -
  let ?q = "of_nat k / 100 :: rat"
  have "(of_nat k :: rat) < 2 ^ 50" using assms by (metis of_nat_less_iff of_nat_numeral of_nat_power)
  then have q: "0 \<le> ?q" "?q < 2 ^ 44" by simp_all
  obtain x where x: "fl ?q = Fin x" "\<bar>x - ?q\<bar> \<le> 1 / 256" by (rule fl_near [OF q])
  have x0: "\<not> x < 0" using fl_mono [OF q(1)] x(1) by simp
  have "x - ?q \<le> 1 / 256" "?q - x \<le> 1 / 256" using x(2) by linarith+
  then have "\<lfloor>x * 100 + 1 / 2\<rfloor> = int k" by (intro floor_unique) (simp_all add: field_simps)
  then have "nat (round_up (x * 10\<^sup>2)) = k" by (simp add: round_up_def)
  then have "fmtPrice (fl ?q) = digits (k div 10\<^sup>2) @ CHR ''.'' # pad_start 2 (CHR ''0'') (digits (k mod 10\<^sup>2))"
    using x0 unfolding x(1) fmtPrice_def toFixed.simps fixed_pos_def Let_def by simp
  then show ?thesis using Number_fixed [of 2 k] by simp
qed

end
