(* ===== verification/Inspector.thy ===== *)
theory Inspector
  imports Scope Format
begin

text \<open>
  The panel beside the diagram, \<^verbatim>\<open>web/src/components/Inspector.tsx\<close>: the recent batches, the
  outcome of the selected one, and the waterfall of the time it spent in each stage. Text that
  the source builds from templates is a constructor with the values it interpolates.
\<close>

record stage_copy =
  sc_name :: string
  sc_color :: string
  sc_text :: string

definition STAGE_COPY :: "stage_copy list" where
  "STAGE_COPY =
    [\<lparr>sc_name = ''gRPC handler'', sc_color = ''#4f7cff'',
       sc_text = ''A gRPC thread decodes the request, assigns the order ID and pushes it onto the queue.''\<rparr>,
     \<lparr>sc_name = ''Waiting in the queue'', sc_color = ''#7fb2ff'',
       sc_text = ''The engine thread hasn'' @ [CHR 0x27] @
         ''t reached it yet. Producers never block each other, so this is pure waiting.''\<rparr>,
     \<lparr>sc_name = ''Matching'', sc_color = ''#2fb98f'',
       sc_text = ''The engine walks the opposite side from the best price, oldest order first, and records each trade.''\<rparr>,
     \<lparr>sc_name = ''Reply'', sc_color = ''#e0a030'',
       sc_text = ''The result goes back through a promise, which wakes the gRPC thread that has been blocked on it.''\<rparr>,
     \<lparr>sc_name = ''Publishing'', sc_color = ''#56d4ff'',
       sc_text = ''Trades and the new top of book are copied into every subscriber'' @ [CHR 0x27] @ ''s own queue.''\<rparr>]"

definition stageDurations :: "wire_batch \<Rightarrow> jsnum list" where
  "stageDurations b =
     (let t = b_trace b
      in map (js_max (Fin 0))
           [tr_enqueue t, js_sub (tr_dequeue t) (tr_enqueue t), js_sub (tr_matchDone t) (tr_dequeue t),
            js_sub (tr_promiseSet t) (tr_matchDone t), js_sub (tr_publish t) (tr_promiseSet t)])"

datatype description = DCancel string string | DOrder string string jsnum "otype option" "string option"

definition who :: "wire_order \<Rightarrow> string" where
  "who ord = (if o_node ord = ''human'' then ''You'' else o_node ord)"

definition describe :: "wire_batch \<Rightarrow> description" where
  "describe b =
     (let ord = b_order b
      in if b_op b = Cancel then DCancel (who ord) (o_id ord)
         else DOrder (who ord) (if o_side ord = Some Bid then ''buy'' else ''sell'') (o_qty ord) (o_type ord)
                (if o_type ord = Some Limit then Some (fmtPrice (o_price ord)) else None))"

datatype outcome_text =
  OCancelled
| ONotFound
| OReason string
| OFilled jsnum string
| OPartly jsnum jsnum
| OResting

definition outcome :: "wire_batch \<Rightarrow> outcome_text" where
  "outcome b =
     (let ord = b_order b
      in if b_op b = Cancel then (if o_cancelOk ord then OCancelled else ONotFound)
         else if o_status ord = Some Rejected then OReason (if o_reason ord = [] then ''Rejected'' else o_reason ord)
         else if o_status ord = Some Filled then OFilled (o_filled ord) (fmtPrice (o_avg ord))
         else if o_status ord = Some Partial then OPartly (o_filled ord) (js_sub (o_qty ord) (o_filled ord))
         else OResting)"

definition traceRow :: "wire_batch \<Rightarrow> jsnum \<Rightarrow> int" where
  "traceRow f p =
     (case boundaries f of (s0, s1, s2, s3) \<Rightarrow>
        if js_lt p s1 \<or> js_lt p s0 then 0
        else if js_lt p s2 then 1
        else if js_lt p s3 then 2
        else if js_lt p (js_add s3 (js_mul (js_sub (Fin 1) s3) (Fin (1 / 2)))) then 3 else 4)"

text \<open>The recent batches: backwards from the position, nine at most. A position outside the buffer
  would read an absent frame, and throw.\<close>

fun recent_loop :: "frame list \<Rightarrow> nat \<Rightarrow> wire_batch list \<Rightarrow> wire_batch list" where
  "recent_loop fs 0 out = out"
| "recent_loop fs (Suc i) out =
     (if 9 \<le> length out then out
      else recent_loop fs i (case fs ! i of FBatch b \<Rightarrow> out @ [b] | FBook _ _ \<Rightarrow> out))"

definition recent_batches :: "frame list \<Rightarrow> int \<Rightarrow> wire_batch list option" where
  "recent_batches fs idx = (if int (length fs) \<le> idx then None else Some (recent_loop fs (nat (idx + 1)) []))"

record inspector_view =
  iv_recent :: "wire_batch list"
  iv_cur :: "wire_batch option"
  iv_durs :: "jsnum list"
  iv_total :: jsnum
  iv_row :: int

type_synonym recent_memo = "(nat \<times> int, wire_batch list) memo_cell"

definition inspect ::
  "recent_memo \<Rightarrow> feed \<Rightarrow> wire_batch option \<Rightarrow> (wire_batch \<times> jsnum) option \<Rightarrow> (inspector_view \<times> recent_memo) option"
where
  "inspect c f selected spot =
     (case indexAt (f_frames f) (f_vt f) of
        None \<Rightarrow> None
      | Some idx \<Rightarrow>
          (case useMemo (f_version f, idx) (recent_batches (f_frames f) idx) c of
             None \<Rightarrow> None
           | Some (rs, c') \<Rightarrow>
               let cur = (case selected of Some b \<Rightarrow> Some b | None \<Rightarrow> (case rs of [] \<Rightarrow> None | b # _ \<Rightarrow> Some b))
               in Some (\<lparr>iv_recent = rs, iv_cur = cur,
                    iv_durs = (case cur of None \<Rightarrow> [] | Some b \<Rightarrow> stageDurations b),
                    iv_total = (case cur of None \<Rightarrow> Fin 1 | Some b \<Rightarrow> js_max (tr_publish (b_trace b)) (Fin 1)),
                    iv_row = (case (spot, cur) of
                        (Some (sf, p), Some b) \<Rightarrow>
                          if js_eq (b_seq sf) (b_seq b) \<and> js_eq (b_at sf) (b_at b) then traceRow sf p else - 1
                      | _ \<Rightarrow> - 1)\<rparr>, c')))"

text \<open>One bar of the waterfall: its left edge and its width, in percent.\<close>

definition bar_left :: "jsnum list \<Rightarrow> jsnum \<Rightarrow> nat \<Rightarrow> jsnum" where
  "bar_left durs tot i = js_mul (js_div (foldl js_add (Fin 0) (take i durs)) tot) (Fin 100)"

definition bar_width :: "jsnum list \<Rightarrow> jsnum \<Rightarrow> nat \<Rightarrow> jsnum" where
  "bar_width durs tot i = js_max (js_mul (js_div (durs ! i) tot) (Fin 100)) (lit (12 / 10))"

text \<open>What the panel shows. \<open>same\<close> stands for \<^verbatim>\<open>===\<close> on batches, which compares objects and not
  their contents; a number in a template prints as \<^verbatim>\<open>String\<close> does.\<close>

datatype row_dot = DotCancel | DotSide "side option"

record recent_row =
  rr_on :: bool
  rr_human :: bool
  rr_dot :: row_dot
  rr_id :: string
  rr_what :: description

definition recent_row_of :: "bool \<Rightarrow> wire_batch \<Rightarrow> recent_row" where
  "recent_row_of on b =
     \<lparr>rr_on = on, rr_human = (o_node (b_order b) = ''human''),
      rr_dot = (if b_op b = Cancel then DotCancel else DotSide (o_side (b_order b))),
      rr_id = o_id (b_order b), rr_what = describe b\<rparr>"

definition trades_text :: "wire_batch \<Rightarrow> string" where
  "trades_text b =
     (let n = length (b_trades b)
      in if 0 < n then '', '' @ digits n @ '' trade'' @ (if 1 < n then ''s'' else []) else [])"

record wf_row =
  wr_now :: bool
  wr_name :: string
  wr_left :: jsnum
  wr_width :: jsnum
  wr_color :: string
  wr_val :: string

definition wf_row_of :: "inspector_view \<Rightarrow> nat \<Rightarrow> wf_row" where
  "wf_row_of v i =
     \<lparr>wr_now = (iv_row v = int i), wr_name = sc_name (STAGE_COPY ! i),
      wr_left = bar_left (iv_durs v) (iv_total v) i, wr_width = bar_width (iv_durs v) (iv_total v) i,
      wr_color = sc_color (STAGE_COPY ! i), wr_val = fmtUs (iv_durs v ! i)\<rparr>"

datatype stage_note = StageNote string string | InsideServer string

record trace_view =
  tv_title :: description
  tv_outcome :: outcome_text
  tv_trades :: string
  tv_rows :: "wf_row list"
  tv_note :: stage_note

record inspector_panel =
  ip_no_orders :: bool
  ip_rows :: "recent_row list"
  ip_trace :: "trace_view option"

definition trace_of :: "inspector_view \<Rightarrow> wire_batch \<Rightarrow> trace_view" where
  "trace_of v cur =
     \<lparr>tv_title = describe cur, tv_outcome = outcome cur, tv_trades = trades_text cur,
      tv_rows = map (wf_row_of v) [0..<length (iv_durs v)],
      tv_note = (if 0 \<le> iv_row v
        then let c = STAGE_COPY ! nat (iv_row v) in StageNote (sc_name c) (sc_text c)
        else InsideServer (fmtUs (tr_promiseSet (b_trace cur))))\<rparr>"

definition show_inspector ::
  "(wire_batch \<Rightarrow> wire_batch \<Rightarrow> bool) \<Rightarrow> recent_memo \<Rightarrow> feed \<Rightarrow> wire_batch option \<Rightarrow> (wire_batch \<times> jsnum) option \<Rightarrow>
     (inspector_panel \<times> recent_memo) option" where
  "show_inspector same c f selected spot =
     map_option (\<lambda>(v, c').
       (\<lparr>ip_no_orders = (iv_recent v = []),
        ip_rows = map (\<lambda>b. recent_row_of (case iv_cur v of None \<Rightarrow> False | Some c \<Rightarrow> same c b) b) (iv_recent v),
        ip_trace = map_option (trace_of v) (iv_cur v)\<rparr>, c'))
     (inspect c f selected spot)"

section \<open>The recent list\<close>

lemma recent_loop_spec:
  "i \<le> length fs \<Longrightarrow> length out \<le> 9 \<Longrightarrow>
   recent_loop fs i out = out @ take (9 - length out) (rev (batches (take i fs)))"
proof (induction fs i out rule: recent_loop.induct)
  case (2 fs i out)
  then show ?case
    by (cases "fs ! i") (auto simp: take_Suc_conv_app_nth take_Cons')
qed simp

text \<open>
  The list of recent orders holds the last nine batches up to the playback position, the
  latest first; and for the position the feed computes, reading it never fails.
\<close>

lemma recent_batches_latest_first:
  assumes "length fs \<le> 2 ^ 30"
  shows "\<exists>idx. indexAt fs vt = Some idx \<and>
    recent_batches fs idx = Some (take 9 (rev (batches (upto_idx idx fs))))"
proof -
  obtain r where r: "indexAt fs vt = Some r" "- 1 \<le> r" "r < int (length fs)"
    by (rule indexAt_crossing [OF assms])
  moreover from r have "recent_loop fs (nat (r + 1)) [] = take 9 (rev (batches (upto_idx r fs)))"
    by (subst recent_loop_spec) (auto simp: upto_idx_def)
  ultimately show ?thesis by (auto simp: recent_batches_def)
qed

section \<open>The waterfall\<close>

definition timeline :: "wire_trace \<Rightarrow> int list \<Rightarrow> bool" where
  "timeline tr xs \<longleftrightarrow>
     [tr_enqueue tr, tr_dequeue tr, tr_matchDone tr, tr_promiseSet tr, tr_publish tr] = map js_int xs \<and>
     sorted (0 # xs) \<and> (\<forall>x \<in> set xs. x < 2 ^ 37)"

lemma stage_sub:
  assumes "0 \<le> a" and "a \<le> b" and "b < 2 ^ 37"
  shows "js_max (Fin 0) (js_sub (js_int b) (js_int a)) = js_int (b - a)"
  using js_sub_int [of b a] assms by (simp add: safe_int_def js_max_def)

lemma durations_whole:
  assumes "timeline (b_trace f) [a, b, c, d, e]"
  shows "stageDurations f = map js_int [a, b - a, c - b, d - c, e - d]"
proof -
  have t: "tr_enqueue (b_trace f) = js_int a" "tr_dequeue (b_trace f) = js_int b" "tr_matchDone (b_trace f) = js_int c"
    "tr_promiseSet (b_trace f) = js_int d" "tr_publish (b_trace f) = js_int e" "0 \<le> a" "a \<le> b" "b \<le> c" "c \<le> d" "d \<le> e" "e < 2 ^ 37"
    using assms by (auto simp: timeline_def)
  have "js_max (Fin 0) (js_int a) = js_int a" using t(6) by (simp add: js_max_def)
  then show ?thesis
    unfolding stageDurations_def Let_def t(1-5) using t(6-11) by (simp add: stage_sub del: of_int_diff)
qed

text \<open>
  The waterfall accounts for all of the time: for a trace in order the five stage times are
  the exact differences of its stamps, they add up to the time of publication, and each bar
  starts where the one before it ends.
\<close>

lemma waterfall_adds_up:
  assumes "timeline (b_trace f) [a, b, c, d, e]"
  shows "foldl js_add (Fin 0) (stageDurations f) = tr_publish (b_trace f) \<and>
    map (\<lambda>i. foldl js_add (Fin 0) (take i (stageDurations f))) [0..<5] = map js_int [0, a, b, c, d]"
proof -
  have t: "tr_publish (b_trace f) = js_int e" "0 \<le> a" "a \<le> b" "b \<le> c" "c \<le> d" "d \<le> e" "e < 2 ^ 37"
    using assms by (auto simp: timeline_def)
  have add: "js_add (js_int x) (js_int y) = js_int (x + y)" if "0 \<le> x" "0 \<le> y" "x + y < 2 ^ 37" for x y
    using that js_add_int [of x y] by (simp add: safe_int_def)
  have z: "Fin 0 = js_int 0" by simp
  have s: "foldl js_add (js_int 0) (map js_int [a]) = js_int a"
    "foldl js_add (js_int 0) (map js_int [a, b - a]) = js_int b"
    "foldl js_add (js_int 0) (map js_int [a, b - a, c - b]) = js_int c"
    "foldl js_add (js_int 0) (map js_int [a, b - a, c - b, d - c]) = js_int d"
    "foldl js_add (js_int 0) (map js_int [a, b - a, c - b, d - c, e - d]) = js_int e"
    using t(2-7) by (simp_all add: add del: of_int_diff of_int_add of_int_0 js_add.simps)
  show ?thesis
    unfolding durations_whole [OF assms] z t(1) using s
    by (simp add: upt_conv_Cons take_Cons' del: of_int_diff of_int_add of_int_0 js_add.simps)
qed

theorem waterfall_adds_up_witness:
  "foldl js_add (Fin 0) (stageDurations ex_timed) = Fin 260"
proof -
  have "timeline (b_trace ex_timed) [12, 15, 240, 250, 260]" by (simp add: timeline_def ex_timed_def)
  from waterfall_adds_up [OF this] show ?thesis by (simp add: ex_timed_def)
qed


section \<open>The highlighted row\<close>

lemma progress_near:
  assumes "p_start p = Fin st" and "p_dur p = Fin 9000" and "st \<le> t" and "t - st < 2 ^ 39"
  shows "near (progress (Fin t) p) ((t - st) / 9000) (2 * eps)"
proof -
  have "near (js_sub (Fin t) (Fin st)) (t - st) (0 + 0 + eps)" using assms(3,4) by (intro near_sub) auto
  then obtain y where y: "js_sub (Fin t) (Fin st) = Fin y" "t - st - eps \<le> y" "y \<le> t - st + eps" by (auto elim!: nearE)
  have "near (fl (y / 9000)) ((t - st) / 9000) (eps + eps)"
    using y(2,3) assms(3,4) by (intro near_fl) (auto simp: eps_def field_simps)
  then show ?thesis using y(1) by (simp add: progress_def assms(1,2))
qed

lemma publish_row_near:
  assumes "1 / 10 < x" and "x < 7 / 10"
  shows "near (js_add (Fin x) (js_mul (js_sub (Fin 1) (Fin x)) (Fin (1 / 2)))) (x + (1 - x) * (1 / 2)) (3 * eps)"
proof -
  have "near (js_sub (Fin 1) (Fin x)) (1 - x) (0 + 0 + eps)" using assms by (intro near_sub) auto
  then have "near (js_mul (js_sub (Fin 1) (Fin x)) (Fin (1 / 2))) ((1 - x) * (1 / 2)) (1 * 0 + 1 / 2 * eps + eps * 0 + eps)"
    using assms by (intro near_mul) (auto simp: eps_def field_simps)
  then have "near (js_add (Fin x) (js_mul (js_sub (Fin 1) (Fin x)) (Fin (1 / 2)))) (x + (1 - x) * (1 / 2))
      (0 + (1 * 0 + 1 / 2 * eps + eps * 0 + eps) + eps)"
    using assms by (intro near_add) (auto simp: eps_def field_simps)
  then show ?thesis by (rule near_weaken) (simp add: eps_def)
qed

text \<open>
  The last row of the waterfall is never highlighted in slow motion. The panel learns the
  progress only when the stage changes, and the last change is at the start of the reply; so as
  long as two animation frames are at most 300 milliseconds apart, no progress it is told of lies
  in the second half of the last stage, which the row \<^verbatim>\<open>Publishing\<close> stands for.
\<close>

lemma publishing_row_never_lights:
  assumes "s_spot s = Some p" and "p_s p = boundaries (p_f p)" and "whole_trace (b_trace (p_f p)) a b c"
    and "p_start p = Fin st" and "p_dur p = Fin 9000"
    and "s_lastSpot s = Some (b_seq (p_f p), stageAt (p_s p) (progress (Fin t0) p))"
    and "st \<le> t0" and "t0 \<le> t" and "t \<le> t0 + 300" and "t - st < 2 ^ 39"
    and "SpotAt f pr \<in> set (fst (spot_step (Fin t) s))"
  shows "traceRow f pr \<le> 3"
proof -
  have o: "ordered (boundaries (p_f p))" using assms(3) by (rule boundaries_ordered)
  then obtain x0 x1 x2 x3 where b: "boundaries (p_f p) = (Fin x0, Fin x1, Fin x2, Fin x3)" "1 / 10 < x0" "x0 + 1 / 20 < x1"
    "x1 + 1 / 20 < x2" "x2 + 1 / 20 < x3" "x3 < 7 / 10" by (rule orderedE)
  have f: "f = p_f p" "pr = progress (Fin t) p" "stageAt (p_s p) (progress (Fin t) p) \<noteq> stageAt (p_s p) (progress (Fin t0) p)"
    using assms(6,11) by (cases rule: spot_step_cases [OF assms(1), of "Fin t"]; simp)+
  obtain y0 y where y: "progress (Fin t0) p = Fin y0" "(t0 - st) / 9000 - 2 * eps \<le> y0"
    "progress (Fin t) p = Fin y" "y \<le> (t - st) / 9000 + 2 * eps"
    using progress_near [OF assms(4,5,7)] progress_near [OF assms(4,5), of t] assms(7,8,10) by (auto elim!: nearE)
  have "(t - st) / 9000 \<le> (t0 - st) / 9000 + 1 / 30" using assms(9) by (simp add: field_simps)
  moreover have "y0 < x3"
  proof (rule ccontr)
    assume "\<not> y0 < x3"
    moreover have "y0 \<le> y" using progress_mono [OF assms(4,5) _ assms(8)] by (simp add: y js_le_def)
    ultimately show False using f(3) b unfolding assms(2) b(1) y by (simp add: stageAt_def js_lt_def)
  qed
  ultimately have "y < x3 + 1 / 30 + 4 * eps" using y by linarith
  moreover obtain m where m: "js_add (Fin x3) (js_mul (js_sub (Fin 1) (Fin x3)) (Fin (1 / 2))) = Fin m"
    "x3 + (1 - x3) * (1 / 2) - 3 * eps \<le> m"
    using publish_row_near [of x3] b by (auto elim!: nearE)
  ultimately have "y < m" using b(6) by (simp add: eps_def field_simps del: js_add.simps js_mul.simps)
  then show ?thesis unfolding traceRow_def f(1,2) b(1) y(3) prod.case m(1) by (simp add: js_lt_def)
qed


theorem publishing_row_never_lights_witness:
  "\<exists>s. s_spot s = Some ex_spot \<and> (\<forall>f pr. SpotAt f pr \<in> set (fst (spot_step (Fin 100) s)) \<longrightarrow> traceRow f pr \<le> 3)"
proof -
  let ?s = "new_scope\<lparr>s_spot := Some ex_spot, s_lastSpot := Some (b_seq (p_f ex_spot), stageAt (p_s ex_spot) (progress (Fin 0) ex_spot))\<rparr>"
  have "traceRow f pr \<le> 3" if "SpotAt f pr \<in> set (fst (spot_step (Fin 100) ?s))" for f pr
    by (rule publishing_row_never_lights [OF _ _ _ _ _ _ _ _ _ _ that, where a = 12 and b = 15 and c = 240 and st = 0 and ?t0.0 = 0 and p = ex_spot])
       (simp_all add: ex_spot_def ex_timed_whole)
  then show ?thesis by (intro exI [of _ ?s]) simp
qed

end
