(* ===== verification/Ticket.thy ===== *)
theory Ticket
  imports Format Feed
begin

text \<open>
  The order ticket, \<^verbatim>\<open>web/src/components/Terminal.tsx\<close>: the fields as the user typed them, the
  submission, and what is shown when the answer comes. The text shown is a constructor with the
  values that the template interpolates.
\<close>

record prefill =
  pf_side :: side
  pf_price :: jsnum

datatype remark =
  Reason string
| FilledAt "jsnum option" string
| PartlyFilled "jsnum option"
| RestingAs "string option"
| CancelledNote string

record ticket =
  tk_side :: side
  tk_type :: otype
  tk_price :: string
  tk_qty :: string
  tk_busy :: bool
  tk_msg :: "(bool \<times> remark) option"

definition new_ticket :: ticket where
  "new_ticket = \<lparr>tk_side = Bid, tk_type = Limit, tk_price = [], tk_qty = ''5'', tk_busy = False, tk_msg = None\<rparr>"

definition apply_prefill :: "prefill option \<Rightarrow> ticket \<Rightarrow> ticket" where
  "apply_prefill pf t =
     (case pf of
        None \<Rightarrow> t
      | Some p \<Rightarrow> t\<lparr>tk_side := pf_side p, tk_type := Limit, tk_price := fmtPrice (pf_price p)\<rparr>)"

definition tk_q :: "ticket \<Rightarrow> jsnum" where
  "tk_q t = js_floor (to_number (tk_qty t))"

definition tk_p :: "ticket \<Rightarrow> jsnum" where
  "tk_p t = to_number (tk_price t)"

definition tk_valid :: "ticket \<Rightarrow> bool" where
  "tk_valid t \<longleftrightarrow> js_gt (tk_q t) (Fin 0) \<and> (tk_type t = Market \<or> js_gt (tk_p t) (Fin 0))"

text \<open>\<^verbatim>\<open>submit\<close> up to its \<^verbatim>\<open>await\<close>, and the rest of it.\<close>

definition submit :: "ticket \<Rightarrow> feed \<Rightarrow> ticket \<times> feed" where
  "submit t f =
     (if \<not> tk_valid t \<or> tk_busy t then (t, f)
      else (t\<lparr>tk_busy := True\<rparr>,
            placeOrder (tk_side t) (tk_type t) (if tk_type t = Market then Fin 0 else tk_p t) (tk_q t) f))"

definition submit_note :: "order_result \<Rightarrow> bool \<times> remark" where
  "submit_note r =
     (if \<not> or_ok r then (False, Reason (case or_reason r of None \<Rightarrow> ''The order didn't go through.'' | Some s \<Rightarrow> s))
      else if or_status r = Some ''rejected'' then
        (False, Reason (case or_reason r of None \<Rightarrow> ''Rejected.'' | Some s \<Rightarrow> s))
      else if or_status r = Some ''filled'' then
        (True, FilledAt (or_filled r) (fmtPrice (case or_avg r of None \<Rightarrow> Fin 0 | Some a \<Rightarrow> a)))
      else if or_status r = Some ''partial'' then (True, PartlyFilled (or_filled r))
      else (True, RestingAs (or_orderId r)))"

definition submit_done :: "order_result \<Rightarrow> ticket \<Rightarrow> ticket" where
  "submit_done r t = t\<lparr>tk_busy := False, tk_msg := Some (submit_note r)\<rparr>"

definition cancel_click :: "string \<Rightarrow> feed \<Rightarrow> feed" where
  "cancel_click oid f = cancelOrder oid f"

definition cancel_note :: "string \<Rightarrow> order_result \<Rightarrow> bool \<times> remark" where
  "cancel_note oid r =
     (if or_ok r then (True, CancelledNote oid)
      else (False, Reason (case or_reason r of None \<Rightarrow> ''Couldn't cancel.'' | Some s \<Rightarrow> s)))"

definition cancel_answered :: "string \<Rightarrow> order_result \<Rightarrow> ticket \<Rightarrow> ticket" where
  "cancel_answered oid r t = t\<lparr>tk_msg := Some (cancel_note oid r)\<rparr>"

definition submit_disabled :: "ticket \<Rightarrow> feed \<Rightarrow> bool" where
  "submit_disabled t f \<longleftrightarrow> \<not> canTrade f \<or> \<not> tk_valid t \<or> tk_busy t"

section \<open>What the ticket sends\<close>

lemma submit_sends:
  assumes "canTrade f" and "tk_valid t" and "\<not> tk_busy t"
  shows "f_out (snd (submit t f)) = f_out f @ [SendMsg (MOrder (tk_side t) (tk_type t)
    (if tk_type t = Market then Fin 0 else tk_p t) (tk_q t) (Suc (f_reqId f)))]"
  using assms by (simp add: submit_def placeOrder_def request_def set_timer_def emit_def)

text \<open>Sending a ticket that was filled in from a level trades at exactly that level: a price that is a
  positive whole number of cents survives being printed into the field and read back.\<close>

lemma picked_level_is_sent:
  assumes "canTrade f" and "\<not> tk_busy t" and "0 < k" and "k < 2 ^ 50" and "js_gt (tk_q t) (Fin 0)"
  shows "let t' = apply_prefill (Some \<lparr>pf_side = sd, pf_price = fl (of_nat k / 100)\<rparr>) t in
    f_out (snd (submit t' f)) = f_out f @ [SendMsg (MOrder sd Limit (fl (of_nat k / 100)) (tk_q t) (Suc (f_reqId f)))]"
proof -
  let ?t = "apply_prefill (Some \<lparr>pf_side = sd, pf_price = fl (of_nat k / 100)\<rparr>) t"
  have t: "tk_side ?t = sd" "tk_type ?t = Limit" "tk_q ?t = tk_q t" "tk_busy ?t = tk_busy t"
    "tk_p ?t = fl (of_nat k / 100)"
    using Number_fmtPrice [OF assms(4)] by (simp_all add: apply_prefill_def tk_q_def tk_p_def)
  have "Fin (1 / 128) \<le> fl (of_nat k / 100)"
  proof -
    have "fl (of_int 1 / 2 ^ 7) = sc 7 1" by (rule fl_sc) simp_all
    moreover have "1 / 2 ^ 7 \<le> (of_nat k / 100 :: rat)" using assms(3) by (simp add: field_simps)
    ultimately show ?thesis using fl_mono [of "1 / 2 ^ 7" "of_nat k / 100"] by (simp add: sc_def)
  qed
  then have "js_gt (fl (of_nat k / 100)) (Fin 0)"
    by (cases "fl (of_nat k / 100)") (auto simp: js_lt_def)
  then have "tk_valid ?t" using assms(5) t by (simp add: tk_valid_def)
  then show ?thesis using submit_sends [OF assms(1)] assms(2) t by (simp add: Let_def)
qed

definition ex_trading :: feed where
  "ex_trading = new_feed\<lparr>f_source := Live, f_exchangeUp := True, f_ws := Some 0, f_openSocks := [0]\<rparr>"

lemma ex_trading_can: "canTrade ex_trading"
  by code_simp

lemma five: "to_number ''5'' = Fin 5"
proof -
  have "decimal ''5'' = Some 5" by code_simp
  moreover have "trim ''5'' = ''5''" "radix_of ''5'' = None" by code_simp+
  ultimately show ?thesis by (simp add: to_number_def unsigned_num_def)
qed

text \<open>
  C34. The ticket sends nothing but well-formed orders: whatever is typed into its fields, at most
  one message leaves, with a positive quantity that is whole (or infinite), and either a market
  order without a price or a limit order with a positive price.
\<close>

theorem ticket_orders_well_formed:
  "\<exists>es. f_out (snd (submit t f)) = f_out f @ es \<and> length es \<le> 1 \<and>
     (\<forall>m \<in> set es. m = SettleNow (failed MSG_NOT_RUNNING) \<or>
        (\<exists>p q. m = SendMsg (MOrder (tk_side t) (tk_type t) p q (Suc (f_reqId f))) \<and> canTrade f \<and>
           (q = PosInf \<or> (\<exists>n :: int. 1 \<le> n \<and> q = js_int n)) \<and>
           (if tk_type t = Market then p = Fin 0 else js_gt p (Fin 0))))"
proof (cases "tk_valid t \<and> \<not> tk_busy t \<and> canTrade f")
  case True
  then have q0: "js_gt (tk_q t) (Fin 0)" by (simp add: tk_valid_def)
  have "tk_q t = PosInf \<or> (\<exists>n :: int. 1 \<le> n \<and> tk_q t = js_int n)"
  proof (cases "to_number (tk_qty t)")
    case (Fin x)
    then have "tk_q t = js_int \<lfloor>x\<rfloor>" by (simp add: tk_q_def)
    moreover from this q0 have "0 < \<lfloor>x\<rfloor>" by (simp add: js_lt_def)
    ultimately show ?thesis by (intro disjI2 exI [of _ "\<lfloor>x\<rfloor>"]) simp
  qed (use q0 in \<open>auto simp: tk_q_def js_lt_def\<close>)
  with True show ?thesis
    using submit_sends [of f t]
    by (intro exI [of _ "[SendMsg (MOrder (tk_side t) (tk_type t)
    (if tk_type t = Market then Fin 0 else tk_p t) (tk_q t) (Suc (f_reqId f)))]"]) (auto simp: tk_valid_def)
next
  case False
  then show ?thesis by (auto simp: submit_def placeOrder_def request_def emit_def)
qed

theorem ticket_orders_well_formed_witness:
  "\<exists>q n. f_out (snd (submit (new_ticket\<lparr>tk_type := Market\<rparr>) ex_trading)) = [SendMsg (MOrder Bid Market (Fin 0) q 1)] \<and>
     (q = PosInf \<or> 1 \<le> n \<and> q = js_int n)"
proof -
  let ?t = "new_ticket\<lparr>tk_type := Market\<rparr>"
  have t: "f_out ex_trading = []" "f_reqId ex_trading = 0" "tk_side ?t = Bid" "tk_type ?t = Market" "\<not> tk_busy ?t"
    by (simp_all add: ex_trading_def new_feed_def new_ticket_def)
  have "tk_valid ?t" using five by (simp add: tk_valid_def tk_q_def new_ticket_def js_lt_def)
  from submit_sends [OF ex_trading_can this t(5)] t
  have "f_out (snd (submit ?t ex_trading)) = [SendMsg (MOrder Bid Market (Fin 0) (tk_q ?t) 1)]" by simp
  with ticket_orders_well_formed [of ?t ex_trading] t show ?thesis by auto
qed

lemma typed_infinity:
  "tk_valid (new_ticket\<lparr>tk_type := Market, tk_qty := ''Infinity''\<rparr>)"
  "tk_q (new_ticket\<lparr>tk_type := Market, tk_qty := ''Infinity''\<rparr>) = PosInf"
  by code_simp+

end
