(* ===== verification/Workspace.thy ===== *)
theory Workspace
  imports Rounding Format Accounts Feed Ticket
begin

text \<open>
  The trading workspace, \<^verbatim>\<open>web/src/components/Workspace.tsx\<close>: the order book ladder, the price chart
  and the tape. Each is the view that the component computes from the feed; markup is left out,
  and so are the texts that only wrap a value.
\<close>

section \<open>The ladder\<close>

definition ROWS :: nat where
  "ROWS = 8"

record lad_row =
  lr_side :: side
  lr_mine :: bool
  lr_width :: jsnum
  lr_price :: string
  lr_qty :: jsnum
  lr_orders :: "jsnum option"
  lr_pick :: prefill

datatype spread_text = SpreadOf string | OneSided | EmptyBook

record ladder =
  ld_asks :: "lad_row option list"
  ld_spread :: spread_text
  ld_bids :: "lad_row option list"

definition nth_opt :: "'a list \<Rightarrow> nat \<Rightarrow> 'a option" where
  "nth_opt xs i = (if i < length xs then Some (xs ! i) else None)"

text \<open>The largest quantity shown, at least 1.\<close>

definition lad_max :: "level list \<Rightarrow> level list \<Rightarrow> jsnum" where
  "lad_max asks bids = foldl js_max (Fin 1) (map (fst \<circ> snd) asks @ map (fst \<circ> snd) bids)"

definition lad_row_of :: "open_order list \<Rightarrow> jsnum \<Rightarrow> side \<Rightarrow> level \<Rightarrow> lad_row" where
  "lad_row_of orders mx sd l =
     (case l of (price, qty, n) \<Rightarrow>
        \<lparr>lr_side = sd, lr_mine = ((sd, price) \<in> set (map (\<lambda>ord. (oo_side ord, oo_price ord)) orders)),
         lr_width = js_mul (js_div qty mx) (Fin 100), lr_price = fmtPrice price, lr_qty = qty,
         lr_orders = (if js_gt n (Fin 1) then Some n else None),
         lr_pick = \<lparr>pf_side = (if sd = Bid then Ask else Bid), pf_price = price\<rparr>\<rparr>)"

definition ladder_of :: "wire_book option \<Rightarrow> open_order list \<Rightarrow> ladder" where
  "ladder_of book orders =
     (let asks = take ROWS (case book of None \<Rightarrow> [] | Some b \<Rightarrow> bk_asks b);
          bids = take ROWS (case book of None \<Rightarrow> [] | Some b \<Rightarrow> bk_bids b);
          mx = lad_max asks bids
      in \<lparr>ld_asks = map (\<lambda>i. map_option (lad_row_of orders mx Ask) (nth_opt asks (ROWS - 1 - i))) [0..<ROWS],
          ld_spread = (case (asks, bids) of
              (a # _, b # _) \<Rightarrow> SpreadOf (fmtPrice (js_sub (fst a) (fst b)))
            | _ \<Rightarrow> if book = None then EmptyBook else OneSided),
          ld_bids = map (\<lambda>i. map_option (lad_row_of orders mx Bid) (nth_opt bids i)) [0..<ROWS]\<rparr>)"

definition show_ladder :: "feed \<Rightarrow> open_order list \<Rightarrow> ladder option" where
  "show_ladder f orders =
     (case indexAt (f_frames f) (f_vt f) of
        None \<Rightarrow> None
      | Some idx \<Rightarrow> Some (ladder_of (bookAt (f_frames f) idx) orders))"

section \<open>The price chart\<close>

definition CH_W :: jsnum where "CH_W = Fin 640"
definition CH_H :: jsnum where "CH_H = Fin 230"
definition pad_l :: jsnum where "pad_l = Fin 8"
definition pad_r :: jsnum where "pad_r = Fin 52"
definition pad_t :: jsnum where "pad_t = Fin 10"
definition pad_b :: jsnum where "pad_b = Fin 20"

definition quote_values :: "quote_point \<Rightarrow> jsnum list" where
  "quote_values q = (case qp_bid q of None \<Rightarrow> [] | Some v \<Rightarrow> [v]) @ (case qp_ask q of None \<Rightarrow> [] | Some v \<Rightarrow> [v])"

definition chart_prices :: "price_series \<Rightarrow> jsnum list" where
  "chart_prices s = map tp_price (ps_trades s) @ concat (map quote_values (ps_quotes s))"

text \<open>The lowest and highest price, moved apart by a margin. Over no values \<^verbatim>\<open>Math.min\<close> is
  \<open>PosInf\<close> and \<^verbatim>\<open>Math.max\<close> is \<open>NegInf\<close>.\<close>

definition margin :: "jsnum \<Rightarrow> jsnum \<Rightarrow> jsnum" where
  "margin lo hi = js_max (js_mul (js_sub hi lo) (fl (12 / 100))) (fl (2 / 10))"

definition chart_range :: "jsnum list \<Rightarrow> jsnum \<times> jsnum" where
  "chart_range prices =
     (let lo = foldl js_min PosInf prices; hi = foldl js_max NegInf prices; m = margin lo hi
      in (js_sub lo m, js_add hi m))"

definition chart_x :: "jsnum \<Rightarrow> jsnum \<Rightarrow> jsnum \<Rightarrow> jsnum" where
  "chart_x from to t =
     (let w = js_sub to from
      in js_add pad_l (js_mul (js_div (js_sub t from) (if w = Fin 0 \<or> w = NaN then Fin 1 else w))
           (js_sub (js_sub CH_W pad_l) pad_r)))"

definition chart_y :: "jsnum \<Rightarrow> jsnum \<Rightarrow> jsnum \<Rightarrow> jsnum" where
  "chart_y lo hi p =
     js_add pad_t (js_mul (js_sub (Fin 1) (js_div (js_sub p lo) (js_sub hi lo))) (js_sub (js_sub CH_H pad_t) pad_b))"

text \<open>\<^verbatim>\<open>line\<close>: a step line; a gap ends it.\<close>

datatype path_cmd = MoveTo jsnum jsnum | LineTo jsnum jsnum

fun line_path ::
  "(jsnum \<Rightarrow> jsnum) \<Rightarrow> (jsnum \<Rightarrow> jsnum) \<Rightarrow> (jsnum \<times> jsnum option) list \<Rightarrow> jsnum option \<Rightarrow> path_cmd list" where
  "line_path x y [] prev = []"
| "line_path x y ((t, None) # ps) prev = line_path x y ps None"
| "line_path x y ((t, Some v) # ps) prev =
     (case prev of None \<Rightarrow> [MoveTo (x t) (y v)] | Some w \<Rightarrow> [LineTo (x t) (y w), LineTo (x t) (y v)]) @
     line_path x y ps (Some v)"

datatype dot_class = DotHuman | DotBid | DotAsk

record chart_dot =
  cd_x :: jsnum
  cd_y :: jsnum
  cd_r :: jsnum
  cd_class :: dot_class

record chart =
  ch_label :: "string \<times> string"
  ch_ticks :: "(jsnum \<times> string) list"
  ch_bid :: "path_cmd list"
  ch_ask :: "path_cmd list"
  ch_trades :: "path_cmd list"
  ch_dots :: "chart_dot list"
  ch_mine :: "(string \<times> jsnum \<times> string) list"

definition own_trade :: "trade_point \<Rightarrow> bool" where
  "own_trade t \<longleftrightarrow> tp_aggressorNode t = ''human'' \<or> tp_restingNode t = ''human''"

definition dot_of :: "(jsnum \<Rightarrow> jsnum) \<Rightarrow> (jsnum \<Rightarrow> jsnum) \<Rightarrow> trade_point \<Rightarrow> chart_dot" where
  "dot_of x y t =
     \<lparr>cd_x = x (tp_at t), cd_y = y (tp_price t),
      cd_r = (if own_trade t then Fin 5 else fl (24 / 10)),
      cd_class = (if own_trade t then DotHuman else if tp_aggressorSide t = Bid then DotBid else DotAsk)\<rparr>"

text \<open>The chart; \<open>orders\<close> are the visitor's open orders, each a line across it.\<close>

definition price_chart :: "price_series \<Rightarrow> open_order list \<Rightarrow> chart option" where
  "price_chart s orders =
     (if length (ps_trades s) < 2 then None
      else let prices = chart_prices s; (lo, hi) = chart_range prices;
               x = chart_x (ps_from s) (ps_to s); y = chart_y lo hi;
               ticks = map (\<lambda>q. js_add lo (js_mul (js_sub hi lo) (Fin q))) [0, 1 / 4, 1 / 2, 3 / 4, 1]
           in Some \<lparr>ch_label = (fmtPrice (foldl js_min PosInf prices), fmtPrice (foldl js_max NegInf prices)),
                ch_ticks = map (\<lambda>p. (y p, fmtPrice p)) ticks,
                ch_bid = line_path x y (map (\<lambda>q. (qp_at q, qp_bid q)) (ps_quotes s)) None,
                ch_ask = line_path x y (map (\<lambda>q. (qp_at q, qp_ask q)) (ps_quotes s)) None,
                ch_trades = line_path x y (map (\<lambda>t. (tp_at t, Some (tp_price t))) (ps_trades s)) None,
                ch_dots = map (dot_of x y) (ps_trades s),
                ch_mine = map (\<lambda>ord. (oo_id ord, y (oo_price ord),
                  if oo_side ord = Bid then ''your bid'' else ''your ask'')) orders\<rparr>)"

type_synonym series_memo = "(nat \<times> int, price_series) memo_cell"

definition show_chart :: "series_memo \<Rightarrow> feed \<Rightarrow> open_order list \<Rightarrow> (chart option \<times> series_memo) option" where
  "show_chart c f orders =
     (case indexAt (f_frames f) (f_vt f) of
        None \<Rightarrow> None
      | Some idx \<Rightarrow> map_option (\<lambda>(s, c'). (price_chart s orders, c'))
          (useMemo (f_version f, idx) (priceSeries (f_frames f) idx (Fin 90000)) c))"

section \<open>The tape\<close>

definition TAPE_ROWS :: nat where
  "TAPE_ROWS = 12"

datatype tape_row = NoTradesYet | EmptyRow
  | TradeRow (tr_mine: bool) (tr_side: side) (tr_price: string) (tr_qty: jsnum) (tr_who: string)

definition tape_row_of :: "trade_point list \<Rightarrow> nat \<Rightarrow> tape_row" where
  "tape_row_of trades i =
     (case nth_opt trades i of
        None \<Rightarrow> if i = 0 \<and> trades = [] then NoTradesYet else EmptyRow
      | Some t \<Rightarrow> TradeRow (own_trade t) (tp_aggressorSide t) (fmtPrice (tp_price t)) (tp_qty t)
          (tp_aggressorNode t @ (if tp_aggressorSide t = Bid then '' bought from '' else '' sold to '') @ tp_restingNode t))"

text \<open>A best price with its quantity, or nothing on that side.\<close>

type_synonym tob_text = "(string \<times> jsnum) option"

definition tob_texts :: "wire_tob \<Rightarrow> tob_text \<times> tob_text" where
  "tob_texts t = (map_option (\<lambda>p. (fmtPrice p, tob_bidQty t)) (tob_bid t),
     map_option (\<lambda>p. (fmtPrice p, tob_askQty t)) (tob_ask t))"

type_synonym tape_view = "(tob_text \<times> tob_text) option \<times> tape_row list"

type_synonym tape_memo = "(nat \<times> int, trade_point list) memo_cell"

definition show_tape :: "tape_memo \<Rightarrow> feed \<Rightarrow> (tape_view \<times> tape_memo) option" where
  "show_tape c f =
     (case indexAt (f_frames f) (f_vt f) of
        None \<Rightarrow> None
      | Some idx \<Rightarrow>
          let lst = lastBatchBefore (f_frames f) idx (\<lambda>b. b_tob b \<noteq> None)
          in map_option (\<lambda>(trades, c').
                ((Option.bind lst (\<lambda>b. map_option tob_texts (b_tob b)), map (tape_row_of trades) [0..<TAPE_ROWS]), c'))
               (useMemo (f_version f, idx) (Some (recentTrades (f_frames f) idx TAPE_ROWS)) c))"

section \<open>The ladder faces the spread\<close>

lemma nth_opt_rows: "length xs \<le> n \<Longrightarrow> map (\<lambda>i. nth_opt xs i) [0..<n] = map Some xs @ replicate (n - length xs) None"
  by (rule nth_equalityI) (auto simp: nth_opt_def nth_append)

lemma nth_opt_rows_rev:
  assumes "length xs \<le> n"
  shows "map (\<lambda>i. nth_opt xs (n - 1 - i)) [0..<n] = replicate (n - length xs) None @ map Some (rev xs)"
proof -
  have "map (\<lambda>i. nth_opt xs (n - 1 - i)) [0..<n] = rev (map (\<lambda>i. nth_opt xs i) [0..<n])"
    by (rule nth_equalityI) (auto simp: rev_nth)
  also have "\<dots> = replicate (n - length xs) None @ map Some (rev xs)"
    unfolding nth_opt_rows [OF assms] by (simp add: rev_map)
  finally show ?thesis .
qed

lemma foldl_js_max:
  assumes "a \<noteq> NaN" and "NaN \<notin> set xs"
  shows "foldl js_max a xs \<in> insert a (set xs) \<and> (\<forall>x \<in> insert a (set xs). x \<le> foldl js_max a xs)"
  using assms
proof (induction xs arbitrary: a)
  case (Cons x xs)
  have m: "js_max a x = max a x" "max a x \<noteq> NaN" using Cons.prems by (auto simp: js_max_def max_def)
  from Cons.IH [OF m(2)] Cons.prems(2)
  have "foldl js_max (max a x) xs \<in> insert (max a x) (set xs)"
    "\<forall>y \<in> insert (max a x) (set xs). y \<le> foldl js_max (max a x) xs" by auto
  then show ?case by (auto simp: m(1) max_def split: if_splits intro: order_trans)
qed simp

lemma foldl_js_min:
  assumes "a \<noteq> NaN" and "NaN \<notin> set xs"
  shows "foldl js_min a xs \<in> insert a (set xs) \<and> (\<forall>x \<in> insert a (set xs). foldl js_min a xs \<le> x)"
  using assms
proof (induction xs arbitrary: a)
  case (Cons x xs)
  have m: "js_min a x = min a x" "min a x \<noteq> NaN" using Cons.prems by (auto simp: js_min_def min_def)
  from Cons.IH [OF m(2)] Cons.prems(2)
  have "foldl js_min (min a x) xs \<in> insert (min a x) (set xs)"
    "\<forall>y \<in> insert (min a x) (set xs). foldl js_min (min a x) xs \<le> y" by auto
  then show ?case by (auto simp: m(1) min_def split: if_splits intro: order_trans)
qed simp

text \<open>Quantities a book can have: finite and not negative.\<close>

definition sane_level :: "level \<Rightarrow> bool" where
  "sane_level l \<longleftrightarrow> (case fst (snd l) of Fin q \<Rightarrow> 0 \<le> q | _ \<Rightarrow> False)"

lemma level_share:
  assumes "l \<in> set asks \<union> set bids" and "\<forall>l \<in> set asks \<union> set bids. sane_level l"
  shows "unit (js_div (fst (snd l)) (lad_max asks bids))"
proof -
  let ?qs = "map (fst \<circ> snd) asks @ map (fst \<circ> snd) bids"
  have fin: "\<exists>q. x = Fin q \<and> 0 \<le> q" if "x \<in> set ?qs" for x
  proof -
    obtain l' where "l' \<in> set asks \<union> set bids" "x = fst (snd l')" using \<open>x \<in> set ?qs\<close> by auto
    then have "sane_level l'" using assms(2) by blast
    with \<open>x = fst (snd l')\<close> show ?thesis by (auto simp: sane_level_def split: jsnum.splits)
  qed
  then have "NaN \<notin> set ?qs" by blast
  from foldl_js_max [OF _ this, of "Fin 1"]
  have mx: "lad_max asks bids \<in> insert (Fin 1) (set ?qs)" "\<forall>x \<in> insert (Fin 1) (set ?qs). x \<le> lad_max asks bids"
    by (simp_all add: lad_max_def)
  obtain m where m: "lad_max asks bids = Fin m" "1 \<le> m"
  proof -
    have "\<exists>m. lad_max asks bids = Fin m" using mx(1) fin by blast
    with mx(2) show thesis by (auto intro: that)
  qed
  have "fst (snd l) \<in> set ?qs" using assms(1) by auto
  then have "\<exists>q. fst (snd l) = Fin q \<and> 0 \<le> q" "fst (snd l) \<le> lad_max asks bids" using fin mx(2) by blast+
  then obtain q where q: "fst (snd l) = Fin q" "0 \<le> q" "q \<le> m" using m by auto
  then show ?thesis unfolding q(1) m(1) using m(2) by (intro ratio_unit) auto
qed

lemma bar_in_percent:
  assumes "l \<in> set asks \<union> set bids" and "\<forall>l \<in> set asks \<union> set bids. sane_level l"
  shows "Fin 0 \<le> lr_width (lad_row_of orders (lad_max asks bids) sd l) \<and>
    lr_width (lad_row_of orders (lad_max asks bids) sd l) \<le> Fin 100"
proof -
  obtain x where x: "js_div (fst (snd l)) (lad_max asks bids) = Fin x" "0 \<le> x" "x \<le> 1"
    using level_share [OF assms] by (rule unitE)
  have "fl 0 \<le> fl (x * 100)" "fl (x * 100) \<le> fl 100" using x by (intro fl_mono; simp)+
  then show ?thesis using x(1) by (cases l) (simp add: lad_row_of_def)
qed


text \<open>
  The ladder faces the spread: the rows above it are the best eight asks with the best one at
  the bottom, the rows below it the best eight bids with the best one on top, missing levels
  blank on the far side; every bar is between 0 and 100 percent wide; and a click on a row asks
  for the opposite side at exactly its price.
\<close>

lemma ladder_faces_spread:
  assumes "\<forall>l \<in> set (bk_asks b) \<union> set (bk_bids b). sane_level l"
  shows "let d = ladder_of (Some b) orders; asks = take 8 (bk_asks b); bids = take 8 (bk_bids b);
             row = lad_row_of orders (lad_max asks bids)
         in ld_asks d = replicate (8 - length asks) None @ map (Some \<circ> row Ask) (rev asks) \<and>
            ld_bids d = map (Some \<circ> row Bid) bids @ replicate (8 - length bids) None \<and>
            (\<forall>r. Some r \<in> set (ld_asks d @ ld_bids d) \<longrightarrow>
               Fin 0 \<le> lr_width r \<and> lr_width r \<le> Fin 100 \<and> pf_side (lr_pick r) \<noteq> lr_side r \<and>
               lr_price r = fmtPrice (pf_price (lr_pick r)))"
proof -
  define asks bids where "asks = take 8 (bk_asks b)" and "bids = take 8 (bk_bids b)"
  define d where "d = ladder_of (Some b) orders"
  let ?row = "lad_row_of orders (lad_max asks bids)"
  have len: "length asks \<le> 8" "length bids \<le> 8" by (simp_all add: asks_def bids_def)
  have "ld_asks d = map (map_option (?row Ask)) (map (\<lambda>i. nth_opt asks (8 - 1 - i)) [0..<8])"
    by (simp add: d_def ladder_of_def ROWS_def asks_def bids_def Let_def comp_def)
  then have A: "ld_asks d = replicate (8 - length asks) None @ map (Some \<circ> ?row Ask) (rev asks)"
    unfolding nth_opt_rows_rev [OF len(1)] by simp
  have "ld_bids d = map (map_option (?row Bid)) (map (\<lambda>i. nth_opt bids i) [0..<8])"
    by (simp add: d_def ladder_of_def ROWS_def asks_def bids_def Let_def comp_def)
  then have B: "ld_bids d = map (Some \<circ> ?row Bid) bids @ replicate (8 - length bids) None"
    unfolding nth_opt_rows [OF len(2)] by simp
  have sane: "\<forall>l \<in> set asks \<union> set bids. sane_level l"
    using assms by (auto simp: asks_def bids_def dest!: in_set_takeD)
  have R: "Fin 0 \<le> lr_width r \<and> lr_width r \<le> Fin 100 \<and> pf_side (lr_pick r) \<noteq> lr_side r \<and>
      lr_price r = fmtPrice (pf_price (lr_pick r))" if r: "Some r \<in> set (ld_asks d @ ld_bids d)" for r
  proof -
    obtain l sd where "l \<in> set asks \<union> set bids" "r = ?row sd l" using r unfolding A B by auto
    moreover have "pf_side (lr_pick (?row sd l)) \<noteq> lr_side (?row sd l)"
      "lr_price (?row sd l) = fmtPrice (pf_price (lr_pick (?row sd l)))"
      by (simp_all add: lad_row_of_def split: prod.splits)
    ultimately show ?thesis using bar_in_percent [OF _ sane] by blast
  qed
  show ?thesis using A B R by (simp add: Let_def flip: asks_def bids_def d_def)
qed

theorem ladder_faces_spread_witness:
  "ld_bids (ladder_of (Some ex_book) []) =
     Some (lad_row_of [] (lad_max [] [(Fin 99, Fin 10, Fin 1)]) Bid (Fin 99, Fin 10, Fin 1)) # replicate 7 None"
proof -
  have "\<forall>l \<in> set (bk_asks ex_book) \<union> set (bk_bids ex_book). sane_level l" by (simp add: ex_book_def sane_level_def)
  from ladder_faces_spread [OF this, of "[]"] show ?thesis by (simp add: Let_def ex_book_def)
qed

section \<open>The chart stays inside its frame\<close>

fun cmd_point :: "path_cmd \<Rightarrow> jsnum \<times> jsnum" where
  "cmd_point (MoveTo u v) = (u, v)"
| "cmd_point (LineTo u v) = (u, v)"

lemma line_path_points:
  "cmd_point ` set (line_path x y ps prev) \<subseteq>
     (x ` fst ` set ps) \<times> (y ` (set_option prev \<union> (\<Union>p \<in> set ps. set_option (snd p))))"
proof (induction x y ps prev rule: line_path.induct)
  case (2 x y t ps prev)
  then show ?case by (auto 4 4)
next
  case (3 x y t v ps prev)
  then show ?case by (auto split: option.splits)
qed simp

definition modest :: "jsnum \<Rightarrow> bool" where
  "modest p \<longleftrightarrow> (case p of Fin q \<Rightarrow> \<bar>q\<bar> \<le> 2 ^ 37 | _ \<Rightarrow> False)"

lemma margin_bounds:
  assumes "a \<le> b" and "b - a \<le> 2 ^ 38"
  obtains m where "margin (Fin a) (Fin b) = Fin m" "1 / 8 \<le> m" "m \<le> 2 ^ 38"
proof -
  obtain d where d: "fl (b - a) = Fin d" "0 \<le> d" "d \<le> 2 ^ 38"
    using assms fl_in [of 0 "b - a" "2 ^ 38"] by (auto simp: safe_int_def)
  obtain c where c: "fl (12 / 100) = Fin c" "0 \<le> c" "c \<le> 1" using fl_in [of 0 "12 / 100" 1] by (auto simp: safe_int_def)
  have "0 \<le> d * c" "d * c \<le> 2 ^ 38" using c d mult_mono [of d "2 ^ 38" c 1] by simp_all
  then obtain k where k: "fl (d * c) = Fin k" "0 \<le> k" "k \<le> 2 ^ 38"
    using fl_in [of 0 "d * c" "2 ^ 38"] by (auto simp: safe_int_def)
  have "fl (1 / 2 ^ 3) = Fin (1 / 2 ^ 3)" using fl_sc [of 1 3] by (simp add: sc_def)
  then have "Fin (1 / 8) \<le> fl (2 / 10)" using fl_mono [of "1 / 2 ^ 3" "2 / 10"] by simp
  moreover obtain e where e: "fl (2 / 10) = Fin e" "e \<le> 1" using fl_in [of 0 "2 / 10" 1] by (auto simp: safe_int_def)
  ultimately have "1 / 8 \<le> e" by simp
  with that [of "max k e"] d c k e show thesis by (simp add: margin_def js_sub_def js_max_def max_def)
qed

lemma chart_range_bounds:
  assumes "\<forall>p \<in> set ps. modest p" and "ps \<noteq> []"
  obtains lo hi where "chart_range ps = (Fin lo, Fin hi)" "lo + 1 / 20 < hi" "hi - lo < 2 ^ 40"
    "\<forall>p \<in> set ps. \<exists>q. p = Fin q \<and> lo \<le> q \<and> q \<le> hi"
proof -
  have fin: "\<exists>q. p = Fin q \<and> \<bar>q\<bar> \<le> 2 ^ 37" if "p \<in> set ps" for p
    using assms(1) that by (cases p) (auto simp: modest_def)
  then have nan: "NaN \<notin> set ps" by blast
  obtain p0 where p0: "p0 \<in> set ps" using assms(2) by (cases ps) auto
  have mn: "foldl js_min PosInf ps \<in> insert PosInf (set ps)" "\<forall>p \<in> set ps. foldl js_min PosInf ps \<le> p"
    using foldl_js_min [OF _ nan, of PosInf] by auto
  have mx: "foldl js_max NegInf ps \<in> insert NegInf (set ps)" "\<forall>p \<in> set ps. p \<le> foldl js_max NegInf ps"
    using foldl_js_max [OF _ nan, of NegInf] by auto
  have "foldl js_min PosInf ps \<noteq> PosInf" "foldl js_max NegInf ps \<noteq> NegInf" using mn(2) mx(2) fin [OF p0] p0 by fastforce+
  then obtain a b where a: "foldl js_min PosInf ps = Fin a" "\<bar>a\<bar> \<le> 2 ^ 37" and b: "foldl js_max NegInf ps = Fin b" "\<bar>b\<bar> \<le> 2 ^ 37"
    using mn(1) mx(1) fin by blast
  have in_ab: "\<exists>q. p = Fin q \<and> a \<le> q \<and> q \<le> b" if "p \<in> set ps" for p
  proof -
    have "Fin a \<le> p" "p \<le> Fin b" using mn(2) mx(2) that by (simp_all add: a b)
    then show ?thesis using fin [OF that] by auto
  qed
  from in_ab [OF p0] have "a \<le> b" by auto
  then have ab: "a \<le> b" "b - a \<le> 2 ^ 38" using a(2) b(2) by (auto simp: abs_le_iff)
  obtain m where m: "margin (Fin a) (Fin b) = Fin m" "1 / 8 \<le> m" "m \<le> 2 ^ 38" using margin_bounds [OF ab] .
  have "\<bar>a - m\<bar> < 2 ^ 40" "\<bar>b + m\<bar> < 2 ^ 40" using a(2) b(2) m by (simp_all add: abs_le_iff abs_less_iff)
  then have "near (fl (a - m)) (a - m) eps" "near (fl (b + m)) (b + m) eps" by (simp_all add: near_fl_exact)
  then obtain lo hi where lo: "fl (a - m) = Fin lo" "a - m - eps \<le> lo" "lo \<le> a - m + eps"
    and hi: "fl (b + m) = Fin hi" "b + m - eps \<le> hi" "hi \<le> b + m + eps" by (auto elim!: nearE)
  have "lo \<le> a" "b \<le> hi" "lo + 1 / 20 < hi" "hi - lo < 2 ^ 40" using lo hi m ab a b by (simp_all add: eps_def abs_le_iff)
  moreover have "chart_range ps = (Fin lo, Fin hi)" by (simp add: chart_range_def a b m lo hi js_sub_def)
  ultimately show thesis using in_ab by (intro that [of lo hi]) fastforce+
qed

lemma scaled_within:
  assumes "unit u" and "0 \<le> k" and "0 \<le> c" and "k + c < 2 ^ 40"
  shows "js_int c \<le> js_add (js_int c) (js_mul u (js_int k)) \<and> js_add (js_int c) (js_mul u (js_int k)) \<le> js_int (c + k)"
  by (rule scaled_unit [OF assms]) (simp only: less_eq_jsnum_simps)

lemma chart_y_inside:
  assumes "lo \<le> p" and "p \<le> hi" and "lo + 1 / 20 < hi" and "hi - lo < 2 ^ 40"
  shows "Fin 10 \<le> chart_y (Fin lo) (Fin hi) (Fin p) \<and> chart_y (Fin lo) (Fin hi) (Fin p) \<le> Fin 210"
proof -
  have h: "js_sub (js_sub CH_H (Fin 10)) pad_b = js_int 200" by (simp add: js_sub_def CH_H_def pad_t_def pad_b_def)
  have "unit (js_sub (Fin 1) (js_div (js_sub (Fin p) (Fin lo)) (js_sub (Fin hi) (Fin lo))))"
    using assms by (intro unit_complement segment_unit)
  from scaled_within [OF this, of 200 10] show ?thesis by (simp add: chart_y_def h pad_t_def del: js_add.simps js_mul.simps js_div.simps)
qed

lemma chart_x_inside:
  assumes "a \<le> t" and "t \<le> b" and "a + 1 / 20 < b" and "b - a < 2 ^ 40"
  shows "Fin 8 \<le> chart_x (Fin a) (Fin b) (Fin t) \<and> chart_x (Fin a) (Fin b) (Fin t) \<le> Fin 588"
proof -
  have h: "js_sub (js_sub CH_W (Fin 8)) pad_r = js_int 580" by (simp add: js_sub_def CH_W_def pad_l_def pad_r_def)
  have "fl (1 / 2 ^ 5) = Fin (1 / 2 ^ 5)" using fl_sc [of 1 5] by (simp add: sc_def)
  then have "Fin (1 / 32) \<le> fl (b - a)" using fl_mono [of "1 / 2 ^ 5" "b - a"] assms(3) by simp
  then have w: "js_sub (Fin b) (Fin a) \<noteq> Fin 0" "js_sub (Fin b) (Fin a) \<noteq> NaN" by (auto simp: js_sub_def)
  have "unit (js_div (js_sub (Fin t) (Fin a)) (js_sub (Fin b) (Fin a)))" using assms by (rule segment_unit)
  from scaled_within [OF this, of 580 8] w show ?thesis by (simp add: chart_x_def Let_def h pad_l_def del: js_add.simps js_mul.simps js_div.simps)
qed


text \<open>Where the chart puts ink: its dots and the corners of its three lines.\<close>

definition ink :: "chart \<Rightarrow> (jsnum \<times> jsnum) set" where
  "ink c = (\<lambda>d. (cd_x d, cd_y d)) ` set (ch_dots c) \<union> cmd_point ` set (ch_bid c @ ch_ask c @ ch_trades c)"

definition within_times :: "price_series \<Rightarrow> bool" where
  "within_times s =
     (case (ps_from s, ps_to s) of
        (Fin a, Fin b) \<Rightarrow> a + 1 / 20 < b \<and> b - a < 2 ^ 40 \<and>
          list_all (\<lambda>t. js_le (Fin a) t \<and> js_le t (Fin b)) (map tp_at (ps_trades s) @ map qp_at (ps_quotes s))
      | _ \<Rightarrow> False)"

text \<open>
  C35. The chart stays inside its frame: when the times lie between the two ends of the window and
  the prices are of modest size, every dot and every corner of the three lines is drawn
  between 8 and 588 across and between 10 and 210 down, the padding left free, also when all
  prices are equal.
\<close>

theorem chart_fits:
  assumes "price_chart s orders = Some c" and "within_times s" and "\<forall>p \<in> set (chart_prices s). modest p"
  shows "ink c \<subseteq> {Fin 8..Fin 588} \<times> {Fin 10..Fin 210}"
proof -
  obtain a b where ab: "ps_from s = Fin a" "ps_to s = Fin b" "a + 1 / 20 < b" "b - a < 2 ^ 40"
    and ts: "list_all (\<lambda>t. js_le (Fin a) t \<and> js_le t (Fin b)) (map tp_at (ps_trades s) @ map qp_at (ps_quotes s))"
    using assms(2) by (auto simp: within_times_def split: jsnum.splits)
  let ?x = "chart_x (Fin a) (Fin b)"
  have X: "?x t \<in> {Fin 8..Fin 588}" if "t \<in> tp_at ` set (ps_trades s) \<union> qp_at ` set (ps_quotes s)" for t
  proof -
    from ts that have "js_le (Fin a) t" "js_le t (Fin b)" by (auto simp: list_all_iff)
    then obtain t' where "t = Fin t'" "a \<le> t'" "t' \<le> b" by (cases t) (auto simp: js_le_def)
    then show ?thesis using chart_x_inside ab by auto
  qed
  have "ps_trades s \<noteq> []" using assms(1) by (auto simp: price_chart_def)
  then have "chart_prices s \<noteq> []" by (simp add: chart_prices_def)
  from chart_range_bounds [OF assms(3) this]
  obtain lo hi where r: "chart_range (chart_prices s) = (Fin lo, Fin hi)" "lo + 1 / 20 < hi" "hi - lo < 2 ^ 40"
    "\<forall>p \<in> set (chart_prices s). \<exists>q. p = Fin q \<and> lo \<le> q \<and> q \<le> hi" by blast
  let ?y = "chart_y (Fin lo) (Fin hi)"
  have Y: "?y p \<in> {Fin 10..Fin 210}" if "p \<in> set (chart_prices s)" for p
    using r(4) that chart_y_inside r(2,3) by fastforce
  have P: "cmd_point ` set (line_path ?x ?y ps None) \<subseteq> {Fin 8..Fin 588} \<times> {Fin 10..Fin 210}"
    if "fst ` set ps \<subseteq> tp_at ` set (ps_trades s) \<union> qp_at ` set (ps_quotes s)"
      "(\<Union>p \<in> set ps. set_option (snd p)) \<subseteq> set (chart_prices s)" for ps
  proof -
    have "?x ` fst ` set ps \<subseteq> {Fin 8..Fin 588}" using X that(1) by blast
    moreover have "?y ` (set_option None \<union> (\<Union>p \<in> set ps. set_option (snd p))) \<subseteq> {Fin 10..Fin 210}"
      unfolding option.set Un_empty_left using Y that(2) by blast
    ultimately show ?thesis by (intro subset_trans [OF line_path_points] Sigma_mono)
  qed
  have c: "ch_dots c = map (dot_of ?x ?y) (ps_trades s)"
    "ch_bid c = line_path ?x ?y (map (\<lambda>q. (qp_at q, qp_bid q)) (ps_quotes s)) None"
    "ch_ask c = line_path ?x ?y (map (\<lambda>q. (qp_at q, qp_ask q)) (ps_quotes s)) None"
    "ch_trades c = line_path ?x ?y (map (\<lambda>t. (tp_at t, Some (tp_price t))) (ps_trades s)) None"
    using assms(1) by (auto simp: price_chart_def r(1) ab(1,2) Let_def split: if_splits)
  have "(\<lambda>d. (cd_x d, cd_y d)) ` set (ch_dots c) \<subseteq> {Fin 8..Fin 588} \<times> {Fin 10..Fin 210}"
    using X Y by (auto simp: c(1) dot_of_def chart_prices_def)
  moreover have "cmd_point ` set (ch_bid c) \<subseteq> {Fin 8..Fin 588} \<times> {Fin 10..Fin 210}"
    "cmd_point ` set (ch_ask c) \<subseteq> {Fin 8..Fin 588} \<times> {Fin 10..Fin 210}"
    "cmd_point ` set (ch_trades c) \<subseteq> {Fin 8..Fin 588} \<times> {Fin 10..Fin 210}"
    unfolding c by (intro P; force simp: chart_prices_def quote_values_def)+
  ultimately show ?thesis by (auto simp: ink_def)
qed


definition ex_point :: "rat \<Rightarrow> rat \<Rightarrow> trade_point" where
  "ex_point t p = \<lparr>tp_at = Fin t, tp_price = Fin p, tp_qty = Fin 1, tp_aggressorSide = Bid,
     tp_aggressorNode = ''human'', tp_restingNode = ''mm-1'', tp_id = ''TRD-1''\<rparr>"

definition ex_series :: price_series where
  "ex_series = \<lparr>ps_trades = [ex_point 10000 100, ex_point 50000 101],
     ps_quotes = [\<lparr>qp_at = Fin 20000, qp_bid = Some (Fin 99), qp_ask = None\<rparr>], ps_from = Fin 0, ps_to = Fin 90000\<rparr>"

theorem chart_fits_witness: "ink (the (price_chart ex_series [])) \<subseteq> {Fin 8..Fin 588} \<times> {Fin 10..Fin 210}"
proof -
  have "price_chart ex_series [] = Some (the (price_chart ex_series []))"
    by (simp add: price_chart_def ex_series_def Let_def split: prod.splits)
  then show ?thesis
    by (rule chart_fits)
      (simp_all add: ex_series_def ex_point_def within_times_def chart_prices_def quote_values_def modest_def js_le_def)
qed

end
