(* ===== verification/Panels.thy ===== *)
theory Panels
  imports Scope Workspace
begin

text \<open>
  The page and its smaller panels: \<^verbatim>\<open>web/src/components/Transport.tsx\<close> (the playback controls),
  \<^verbatim>\<open>web/src/components/Performance.tsx\<close> (latency figures), \<^verbatim>\<open>web/src/components/Bots.tsx\<close> (the
  accounts table) and \<^verbatim>\<open>web/src/App.tsx\<close> (the state that the panels share). Each view is what
  the component computes; markup and prose are left out.
\<close>

section \<open>Playback controls\<close>

definition SPEEDS :: "jsnum list" where
  "SPEEDS = [Fin (1 / 4), Fin (1 / 2), Fin 1, Fin 2, Fin 4]"

text \<open>\<^verbatim>\<open>Math.round\<close> and the operator \<^verbatim>\<open>%\<close>, whose result has the sign of the dividend.\<close>

fun js_round :: "jsnum \<Rightarrow> jsnum" where
  "js_round (Fin x) = js_int (round_up x)"
| "js_round a = a"

fun js_rem :: "jsnum \<Rightarrow> jsnum \<Rightarrow> jsnum" where
  "js_rem (Fin x) (Fin d) =
     (if d = 0 then NaN else Fin (x - d * of_int (if 0 \<le> x / d then \<lfloor>x / d\<rfloor> else \<lceil>x / d\<rceil>)))"
| "js_rem (Fin x) PosInf = Fin x"
| "js_rem (Fin x) NegInf = Fin x"
| "js_rem _ _ = NaN"

text \<open>Both parts are whole numbers, which \<^verbatim>\<open>String\<close> prints as \<open>toFixed 0\<close> does.\<close>

definition clock :: "jsnum \<Rightarrow> string" where
  "clock ms =
     (let s = js_max (Fin 0) (js_round (js_div ms (Fin 1000)))
      in toFixed 0 (js_floor (js_div s (Fin 60))) @ '':'' @
         pad_start 2 (CHR ''0'') (toFixed 0 (js_rem s (Fin 60))))"

definition span :: "feed \<Rightarrow> jsnum" where
  "span f = js_max (js_sub (lastAt f) (firstAt f)) (Fin 1)"

definition behind :: "feed \<Rightarrow> jsnum" where
  "behind f = (if f_source f = Live then js_max (Fin 0) (js_sub (lastAt f) (f_vt f)) else Fin 0)"

datatype pos_text = WaitingForOrders | AtLive | PosOf string string

datatype live_button = LiveDisabled | BackToLive "string option" | RestartRecording

record transport =
  tn_paused :: bool
  tn_step_disabled :: bool
  tn_speeds :: "(jsnum \<times> bool) list"
  tn_min :: jsnum
  tn_max :: jsnum
  tn_value :: jsnum
  tn_scrub_disabled :: bool
  tn_pos :: pos_text
  tn_live :: live_button

definition show_transport :: "feed \<Rightarrow> transport" where
  "show_transport f =
     (let paused = (f_clockMode f = Pause); few = (length (f_frames f) < 2)
      in \<lparr>tn_paused = paused, tn_step_disabled = (\<not> paused),
          tn_speeds = map (\<lambda>s. (s, f_speed f = s)) SPEEDS,
          tn_min = firstAt f, tn_max = js_add (firstAt f) (span f),
          tn_value = (if f_vt f = Fin 0 \<or> f_vt f = NaN then firstAt f else f_vt f),
          tn_scrub_disabled = few,
          tn_pos = (if few then WaitingForOrders else if atLive f then AtLive
             else PosOf (clock (js_sub (f_vt f) (firstAt f))) (clock (span f))),
          tn_live = (if f_source f = Live then
               if atLive f then LiveDisabled
               else BackToLive (if js_gt (behind f) (Fin 1500) then Some (clock (behind f)) else None)
             else RestartRecording)\<rparr>)"

text \<open>The controls: each button is one call on the feed; the slider seeks to the number its text holds.\<close>

definition scrub :: "(nat \<Rightarrow> jsnum) \<Rightarrow> string \<Rightarrow> feed \<Rightarrow> feed option" where
  "scrub pn v f = (if tn_scrub_disabled (show_transport f) then Some f else seek pn (to_number v) f)"

definition step_click :: "(nat \<Rightarrow> jsnum) \<Rightarrow> feed \<Rightarrow> wire_batch option \<times> feed" where
  "step_click pn f = (if tn_step_disabled (show_transport f) then (None, f) else feed_step pn f)"

definition live_click :: "(nat \<Rightarrow> jsnum) \<Rightarrow> feed \<Rightarrow> feed option" where
  "live_click pn f = (if tn_live (show_transport f) = LiveDisabled then Some f else goLive pn f)"

section \<open>Latency figures\<close>

record bench_row =
  br_label :: string
  br_a :: jsnum
  br_b :: "jsnum option"

definition LATENCY :: "bench_row list" where
  "LATENCY = [\<lparr>br_label = ''p50'', br_a = Fin 150, br_b = Some (Fin 200)\<rparr>,
     \<lparr>br_label = ''p90'', br_a = Fin 214, br_b = Some (Fin 267)\<rparr>,
     \<lparr>br_label = ''p99'', br_a = Fin 295, br_b = Some (Fin 352)\<rparr>]"

definition QUEUE_RATE :: "bench_row list" where
  "QUEUE_RATE = [\<lparr>br_label = ''1 producer'', br_a = fl (1102 / 10), br_b = None\<rparr>,
     \<lparr>br_label = ''4 producers'', br_a = fl (196 / 10), br_b = None\<rparr>]"

definition GRPC_RATE :: "bench_row list" where
  "GRPC_RATE = [\<lparr>br_label = ''1 caller'', br_a = Fin 6110, br_b = Some (Fin 4820)\<rparr>,
     \<lparr>br_label = ''8 callers'', br_a = Fin 14800, br_b = Some (Fin 13590)\<rparr>]"

definition Bars :: "bench_row list \<Rightarrow> jsnum \<Rightarrow> (string \<times> jsnum \<times> jsnum option) list" where
  "Bars rows mx = map (\<lambda>r. (br_label r, js_mul (js_div (br_a r) mx) (Fin 100),
     map_option (\<lambda>b. js_mul (js_div b mx) (Fin 100)) (br_b r))) rows"

text \<open>The loop runs from the newest frame back until it has 3000 orders; the arrays are sorted in
  place by \<^verbatim>\<open>a - b\<close>, which is the order of the numbers when none of them is \<open>NaN\<close>.\<close>

fun perf_loop :: "frame list \<Rightarrow> jsnum list \<Rightarrow> jsnum list \<Rightarrow> jsnum list \<times> jsnum list" where
  "perf_loop [] totals waits = (totals, waits)"
| "perf_loop (fr # fs) totals waits =
     (if length totals < 3000 then
        (case fr of
           FBatch b \<Rightarrow> perf_loop fs (totals @ [tr_promiseSet (b_trace b)])
             (waits @ [js_sub (tr_dequeue (b_trace b)) (tr_enqueue (b_trace b))])
         | FBook a bk \<Rightarrow> perf_loop fs totals waits)
      else (totals, waits))"

record live_perf =
  lp_n :: nat
  lp_p50 :: "jsnum option"
  lp_p99 :: "jsnum option"
  lp_w50 :: "jsnum option"
  lp_w99 :: "jsnum option"

definition performance :: "frame list \<Rightarrow> live_perf" where
  "performance fs =
     (let (ts, ws) = perf_loop (rev fs) [] []; totals = sort ts; waits = sort ws
      in \<lparr>lp_n = length totals, lp_p50 = percentile totals (Fin 50), lp_p99 = percentile totals (Fin 99),
          lp_w50 = percentile waits (Fin 50), lp_w99 = percentile waits (Fin 99)\<rparr>)"

text \<open>What the panel shows; \<open>None\<close> is a call of \<^verbatim>\<open>fmtUs\<close> on an absent figure, which throws. The
  dash U+2013 and the micro sign are in UTF-8; numbers for \<^verbatim>\<open>toLocaleString\<close> are left as they are.\<close>

record bar_chart =
  bc_bars :: "(string \<times> jsnum \<times> jsnum option) list"
  bc_values :: "(jsnum \<times> jsnum option) list"
  bc_unit :: string
  bc_legend :: "(string \<times> string) option"

definition bar_chart_of :: "bench_row list \<Rightarrow> string \<Rightarrow> jsnum \<Rightarrow> (string \<times> string) option \<Rightarrow> bar_chart" where
  "bar_chart_of rows u mx legend =
     \<lparr>bc_bars = Bars rows mx, bc_values = map (\<lambda>r. (br_a r, br_b r)) rows, bc_unit = u, bc_legend = legend\<rparr>"

definition kpi :: "live_perf \<Rightarrow> jsnum option \<Rightarrow> string option" where
  "kpi p v = (if lp_n p = 0 then Some [CHR 0xE2, CHR 0x80, CHR 0x93] else map_option fmtUs v)"

record perf_panel =
  pp_n :: nat
  pp_kpis :: "(string \<times> string) list"
  pp_charts :: "bar_chart list"

fun option_list :: "('a \<times> 'b option) list \<Rightarrow> ('a \<times> 'b) list option" where
  "option_list [] = Some []"
| "option_list ((k, v) # kvs) =
     (case (v, option_list kvs) of (Some x, Some xs) \<Rightarrow> Some ((k, x) # xs) | _ \<Rightarrow> None)"

text \<open>The panel of given figures; the figures are those of the whole buffer, whatever the position,
  and are computed again only when the version passes a multiple of 20.\<close>

definition perf_panel_of :: "live_perf \<Rightarrow> perf_panel option" where
  "perf_panel_of p =
     (let legend = Some (''Not watched'', ''Watched'')
      in map_option (\<lambda>ks. \<lparr>pp_n = lp_n p, pp_kpis = ks,
          pp_charts = [bar_chart_of LATENCY [CHR 0xC2, CHR 0xB5, CHR ''s''] (Fin 400) legend,
            bar_chart_of GRPC_RATE ''/s'' (Fin 16000) legend,
            bar_chart_of QUEUE_RATE ''M/s'' (Fin 120) None]\<rparr>)
        (option_list [(''Median'', kpi p (lp_p50 p)), (''99th percentile'', kpi p (lp_p99 p)),
           (''Median wait in queue'', kpi p (lp_w50 p)), (''99th percentile wait'', kpi p (lp_w99 p))]))"

type_synonym perf_memo = "(nat, live_perf) memo_cell"

definition show_performance :: "perf_memo \<Rightarrow> feed \<Rightarrow> (perf_panel \<times> perf_memo) option" where
  "show_performance c f =
     (case useMemo (f_version f div 20) (Some (performance (f_frames f))) c of
        None \<Rightarrow> None
      | Some (p, c') \<Rightarrow> map_option (\<lambda>panel. (panel, c')) (perf_panel_of p))"

section \<open>The accounts table\<close>

definition bot_rows :: "stats \<Rightarrow> string list \<Rightarrow> bot_stat list" where
  "bot_rows stats ids =
     List.map_filter (omap_get stats) ids @ (case omap_get stats ''human'' of None \<Rightarrow> [] | Some h \<Rightarrow> [h])"

datatype pnl_class = PnlUp | PnlDown | PnlFlat

record bot_line =
  bl_name :: string
  bl_orders :: nat
  bl_cancels :: nat
  bl_fills :: nat
  bl_position :: jsnum
  bl_class :: pnl_class
  bl_pnl :: string

definition bot_line_of :: "bot_stat \<Rightarrow> bot_line" where
  "bot_line_of r =
     \<lparr>bl_name = (if bs_id r = ''human'' then ''you'' else bs_id r), bl_orders = bs_orders r,
      bl_cancels = bs_cancels r, bl_fills = bs_fills r, bl_position = bs_position r,
      bl_class = (if js_gt (bs_pnl r) (lit (5 / 1000)) then PnlUp
        else if js_lt (bs_pnl r) (js_neg (lit (5 / 1000))) then PnlDown else PnlFlat),
      bl_pnl = fmtSigned (bs_pnl r) 2\<rparr>"

definition Bots :: "stats \<Rightarrow> string list \<Rightarrow> bot_line list" where
  "Bots stats ids = map bot_line_of (bot_rows stats ids)"

section \<open>The ticket form\<close>

datatype notice = WatchingRecording | ConnectingNotice

record form_view =
  fv_notice :: "notice option"
  fv_price :: string
  fv_price_disabled :: bool
  fv_submit_disabled :: bool
  fv_label :: string
  fv_result :: "(bool \<times> remark) option"
  fv_open :: "(side \<times> jsnum \<times> string \<times> string) list"
  fv_position :: jsnum
  fv_pnl_class :: pnl_class
  fv_pnl :: string

text \<open>The text of the button; an integer prints as \<open>toFixed 0\<close> does.\<close>

definition submit_label :: "ticket \<Rightarrow> string" where
  "submit_label t =
     (if tk_busy t then ''Sending'' @ [CHR 0xE2, CHR 0x80, CHR 0xA6]
      else trim ((if tk_side t = Bid then ''Buy'' else ''Sell'') @ '' '' @
        (if js_gt (tk_q t) (Fin 0) then toFixed 0 (tk_q t) else []) @ '' '' @
        (if tk_type t = Limit \<and> js_gt (tk_p t) (Fin 0) then ''at '' @ fmtPrice (tk_p t)
         else if tk_type t = Market then ''at market'' else [])))"

definition show_form :: "ticket \<Rightarrow> feed \<Rightarrow> open_order list \<Rightarrow> bot_stat option \<Rightarrow> form_view" where
  "show_form t f orders me =
     (let pnl = (case me of None \<Rightarrow> Fin 0 | Some s \<Rightarrow> bs_pnl s)
      in \<lparr>fv_notice = (if canTrade f then None else if f_source f = Replay then Some WatchingRecording
            else Some ConnectingNotice),
          fv_price = (if tk_type t = Market then [] else tk_price t), fv_price_disabled = (tk_type t = Market),
          fv_submit_disabled = submit_disabled t f, fv_label = submit_label t, fv_result = tk_msg t,
          fv_open = map (\<lambda>ord. (oo_side ord, oo_remaining ord, fmtPrice (oo_price ord), oo_id ord)) orders,
          fv_position = (case me of None \<Rightarrow> Fin 0 | Some s \<Rightarrow> bs_position s),
          fv_pnl_class = (if js_gt pnl (Fin 0) then PnlUp else if js_lt pnl (Fin 0) then PnlDown else PnlFlat),
          fv_pnl = fmtSigned pnl 2\<rparr>)"

section \<open>The page\<close>

record app =
  ap_selected :: "wire_batch option"
  ap_spot :: "(wire_batch \<times> jsnum) option"
  ap_token :: nat
  ap_prefill :: "(prefill \<times> jsnum) option"

definition new_app :: app where
  "new_app = \<lparr>ap_selected = None, ap_spot = None, ap_token = 0, ap_prefill = None\<rparr>"

fun onSpot :: "app \<Rightarrow> spot_msg \<Rightarrow> app" where
  "onSpot a (SpotAt b p) = a\<lparr>ap_spot := Some (b, p)\<rparr>"
| "onSpot a SpotNull = a\<lparr>ap_spot := None\<rparr>"

definition spotlight :: "wire_batch \<Rightarrow> app \<Rightarrow> app" where
  "spotlight b a = a\<lparr>ap_selected := Some b, ap_token := ap_token a + 1\<rparr>"

definition onPick :: "jsnum \<Rightarrow> side \<Rightarrow> jsnum \<Rightarrow> app \<Rightarrow> app" where
  "onPick date_now sd price a = a\<lparr>ap_prefill := Some (\<lparr>pf_side = sd, pf_price = price\<rparr>, date_now)\<rparr>"

datatype pill_text = PillConnecting | PillLive | PillRecorded

definition StatusPill :: "feed \<Rightarrow> pill_text \<times> bool" where
  "StatusPill f =
     ((case f_source f of Connecting \<Rightarrow> PillConnecting | Live \<Rightarrow> PillLive | Replay \<Rightarrow> PillRecorded),
      (case f_recording f of None \<Rightarrow> False | Some r \<Rightarrow> r \<noteq> []))"

text \<open>The roster among the dependencies is an array that the feed replaces and never changes.\<close>

type_synonym stats_memo = "(nat \<times> int \<times> roster_entry list, stats \<times> open_order list) memo_cell"

definition stats_at :: "feed \<Rightarrow> int \<Rightarrow> stats \<times> open_order list" where
  "stats_at f idx = (let (st, opn, lp) = computeStats (f_frames f) idx (f_roster f) in (st, opn))"

definition page_stats :: "stats_memo \<Rightarrow> feed \<Rightarrow> ((stats \<times> open_order list) \<times> stats_memo) option" where
  "page_stats c f =
     (case indexAt (f_frames f) (f_vt f) of
        None \<Rightarrow> None
      | Some idx \<Rightarrow> useMemo (f_version f, idx, f_roster f) (Some (stats_at f idx)) c)"

section \<open>The clock reads back\<close>

definition read_clock :: "string \<Rightarrow> nat \<times> string" where
  "read_clock s = (dec_value (takeWhile is_digit s), tl (dropWhile is_digit s))"

lemma floor_minutes:
  assumes "n < 2 ^ 40"
  shows "js_floor (js_div (Fin (of_nat n)) (Fin 60)) = Fin (of_nat (n div 60))"
proof -
  let ?x = "of_nat n / 60 :: rat"
  have n: "(of_nat n :: rat) < 2 ^ 40" using assms by (metis of_nat_less_iff of_nat_numeral of_nat_power)
  then have "\<bar>?x\<bar> < 2 ^ 40" by simp
  then obtain y where y: "fl ?x = Fin y" "?x - eps \<le> y" "y \<le> ?x + eps" by (rule near_fl_exact [THEN nearE])
  have "n = 60 * (n div 60) + n mod 60" by simp
  then have split: "(of_nat n :: rat) = 60 * of_nat (n div 60) + of_nat (n mod 60)" by (metis of_nat_add of_nat_mult of_nat_numeral)
  have "n mod 60 \<le> 59" by simp
  then have m: "(of_nat (n mod 60) :: rat) \<le> 59" by (metis of_nat_le_iff of_nat_numeral)
  have "of_int (int (n div 60)) \<le> ?x" using split by (simp add: field_simps)
  moreover have "safe_int (int (n div 60))" using assms by (simp add: safe_int_def)
  ultimately have "js_int (int (n div 60)) \<le> fl ?x" using fl_mono fl_int by metis
  then have "of_nat (n div 60) \<le> y" by (simp add: y)
  moreover have "y < of_nat (n div 60) + 1" using y(3) split m by (simp add: eps_def field_simps)
  ultimately have "\<lfloor>y\<rfloor> = int (n div 60)" by (intro floor_unique) simp_all
  then show ?thesis using y by simp
qed

lemma rem_seconds: "js_rem (Fin (of_nat n)) (Fin 60) = Fin (of_nat (n mod 60))"
proof -
  have "\<lfloor>(of_nat n :: rat) / 60\<rfloor> = int (n div 60)"
    using floor_divide_of_nat_eq [of n 60] by simp
  moreover have "(of_nat n :: rat) = 60 * of_nat (n div 60) + of_nat (n mod 60)"
    by (metis mult_div_mod_eq of_nat_add of_nat_mult of_nat_numeral)
  ultimately show ?thesis by simp
qed

lemma toFixed_whole: "toFixed 0 (Fin (of_nat n)) = digits n"
proof -
  have "\<lfloor>(of_nat n :: rat) + 1 / 2\<rfloor> = int n" by (intro floor_unique) simp_all
  then show ?thesis by (simp add: fixed_pos_def round_up_def)
qed

lemma clock_whole:
  assumes "js_max (Fin 0) (js_round (js_div ms (Fin 1000))) = Fin (of_nat n)" and "n < 2 ^ 40"
  shows "clock ms = digits (n div 60) @ CHR '':'' # pad_start 2 (CHR ''0'') (digits (n mod 60))"
  unfolding clock_def assms(1) Let_def floor_minutes [OF assms(2)] rem_seconds toFixed_whole by simp

lemma clock_seconds:
  assumes "x < 2 ^ 40"
  obtains n where "js_max (Fin 0) (js_round (js_div (Fin x) (Fin 1000))) = Fin (of_nat n)" "n < 2 ^ 40"
    "\<bar>of_nat n - max 0 (x / 1000)\<bar> \<le> 1 / 2 + eps"
proof (cases "0 < x")
  case True
  then have "\<bar>x / 1000\<bar> < 2 ^ 40" using assms by simp
  then obtain y where y: "fl (x / 1000) = Fin y" "x / 1000 - eps \<le> y" "y \<le> x / 1000 + eps" by (rule near_fl_exact [THEN nearE])
  have "0 \<le> y" using fl_mono [of 0 "x / 1000"] True y(1) by simp
  then have r: "0 \<le> round_up y" "of_int (round_up y) \<le> y + 1 / 2" "y < of_int (round_up y) + 1 / 2"
    unfolding round_up_def by linarith+
  have "of_int (round_up y) < (of_int (2 ^ 40) :: rat)" using r(2) y(3) assms by (simp add: eps_def)
  then have "round_up y < 2 ^ 40" by (simp only: of_int_less_iff)
  moreover have "(of_nat (nat (round_up y)) :: rat) = of_int (round_up y)" using r(1) by simp
  moreover have "\<bar>of_int (round_up y) - x / 1000\<bar> \<le> 1 / 2 + eps" using r y unfolding abs_le_iff by linarith
  moreover have "max 0 (x / 1000) = x / 1000" using True by simp
  ultimately show thesis using r(1) y(1)
    by (intro that [of "nat (round_up y)"]) (simp_all add: js_max_def max_def nat_less_iff)
next
  case False
  then have m: "max 0 (x / 1000) = 0" by (simp add: max_def field_simps)
  have "fl (x / 1000) \<le> Fin 0" using fl_mono [of "x / 1000" 0] False by (simp add: field_simps)
  moreover have "js_round (fl (x / 1000)) \<le> Fin 0 \<and> js_round (fl (x / 1000)) \<noteq> NaN" if "fl (x / 1000) \<le> Fin 0" "fl (x / 1000) \<noteq> NaN"
    using that by (cases "fl (x / 1000)") (auto simp: round_up_def floor_less_iff intro!: order.strict_implies_order)
  moreover have "fl (x / 1000) \<noteq> NaN" by (simp add: fl_def)
  ultimately have "js_max (Fin 0) (js_round (fl (x / 1000))) = Fin 0" by (auto simp: js_max_def max_def)
  then show thesis using m by (intro that [of 0]) (simp_all add: eps_def)
qed

lemma read_clock_back:
  assumes "b < 60"
  shows "read_clock (digits a @ CHR '':'' # pad_start 2 (CHR ''0'') (digits b)) = (a, pad_start 2 (CHR ''0'') (digits b))"
proof -
  have "\<not> is_digit (CHR '':'')" by (simp add: is_digit_def)
  then show ?thesis
    using takeWhile_digits [of "digits a" "CHR '':'' # pad_start 2 (CHR ''0'') (digits b)"] digits_ok [of a]
    by (simp add: read_clock_def dec_value_digits)
qed

text \<open>
  The playback clock reads back: for any time span from zero to some thirty years, the text is
  minutes, a colon and exactly two digits below 60, and the minutes and seconds it shows are
  within half a second (and a rounding error) of the span; a span that is not positive shows as zero.
\<close>

lemma clock_reads_back:
  assumes "x < 2 ^ 40"
  shows "let (m, ss) = read_clock (clock (Fin x)) in
    length ss = 2 \<and> list_all is_digit ss \<and> dec_value ss < 60 \<and>
    \<bar>of_nat (60 * m + dec_value ss) - max 0 (x / 1000)\<bar> \<le> 1 / 2 + eps"
proof -
  obtain n where n: "js_max (Fin 0) (js_round (js_div (Fin x) (Fin 1000))) = Fin (of_nat n)" "n < 2 ^ 40"
    "\<bar>of_nat n - max 0 (x / 1000)\<bar> \<le> 1 / 2 + eps" by (rule clock_seconds [OF assms])
  have b: "n mod 60 < 60" "n mod 60 < 10\<^sup>2" by (simp_all add: order.strict_trans [of "n mod 60" 60])
  have "60 * (n div 60) + n mod 60 = n" by simp
  then show ?thesis
    unfolding clock_whole [OF n(1,2)] read_clock_back [OF b(1)]
    using n(3) padded [OF _ b(2)] b(1) by (simp only: Let_def split_conv)
qed

section \<open>The scrubber\<close>

definition stamped :: "feed \<Rightarrow> bool" where
  "stamped f \<longleftrightarrow> sorted (map fr_at (f_frames f)) \<and> length (f_frames f) \<le> 2 ^ 30 \<and>
     (\<forall>x \<in> set (f_frames f). \<exists>n. fr_at x = js_int n \<and> 0 < n \<and> n < 2 ^ 52)"

lemma stamped_ends:
  assumes "stamped f" and "f_frames f \<noteq> []"
  obtains a b where "firstAt f = js_int a" "lastAt f = js_int b" "0 < a" "a \<le> b" "b < 2 ^ 52"
    "NaN \<notin> fr_at ` set (f_frames f)"
proof -
  have nan: "NaN \<notin> fr_at ` set (f_frames f)" using assms(1) by (force simp: stamped_def)
  have "hd (f_frames f) \<in> set (f_frames f)" "last (f_frames f) \<in> set (f_frames f)" using assms(2) by simp_all
  then obtain a b where ab: "fr_at (hd (f_frames f)) = js_int a" "0 < a" "fr_at (last (f_frames f)) = js_int b" "b < 2 ^ 52"
    using assms(1) by (meson stamped_def)
  then have "firstAt f = js_int a" "lastAt f = js_int b" using assms(2) by (simp_all add: firstAt_def lastAt_def)
  moreover from this frames_at_ends(3) [OF assms(2) nan] assms(1) have "a \<le> b" by (simp add: stamped_def)
  ultimately show thesis using ab nan by (intro that)
qed

text \<open>
  The scrubber covers what is buffered: on frames in time order with whole millisecond stamps,
  moving the slider to a position it offers sets the playback time to exactly that position, the
  slider then shows it between its two ends, and the live stream is paused if it was followed.
\<close>

lemma scrubber_covers_buffer:
  assumes "stamped f" and "2 \<le> length (f_frames f)" and "to_number s = Fin v"
    and "tn_min (show_transport f) \<le> Fin v" and "Fin v \<le> lastAt f"
  shows "\<exists>f'. scrub pn s f = Some f' \<and> f_vt f' = Fin v \<and> tn_value (show_transport f') = Fin v \<and>
    tn_min (show_transport f') \<le> Fin v \<and> Fin v \<le> tn_max (show_transport f') \<and> f_clockMode f' \<noteq> Follow"
proof -
  have ne: "f_frames f \<noteq> []" using assms(2) by auto
  obtain a b where ab: "firstAt f = js_int a" "lastAt f = js_int b" "0 < a" "a \<le> b" "b < 2 ^ 52"
    "NaN \<notin> fr_at ` set (f_frames f)" by (rule stamped_ends [OF assms(1) ne])
  have v: "of_int a \<le> v" "v \<le> of_int b" using assms(4,5) ab by (simp_all add: show_transport_def Let_def)
  obtain f' where f': "seek pn (Fin v) f = Some f'" "f_vt f' = js_min (js_max (Fin v) (firstAt f)) (lastAt f)"
    "f_frames f' = f_frames f" "f_clockMode f' = (if f_clockMode f = Follow then Pause else f_clockMode f)"
    using seek_result [of f pn "Fin v"] assms(1) by (metis stamped_def)
  have vt: "f_vt f' = Fin v" using f'(2) ab v by (simp add: js_min_def js_max_def)
  have ends: "firstAt f' = js_int a" "lastAt f' = js_int b" using ab f'(3) ne by (simp_all add: firstAt_def lastAt_def)
  have "span f' = js_int (max (b - a) 1)"
    using ends js_sub_int [of b a] ab by (auto simp: span_def js_max_def max_def safe_int_def)
  then have mx: "tn_max (show_transport f') = js_int (a + max (b - a) 1)"
    using ends js_add_int [of a "max (b - a) 1"] ab by (simp add: show_transport_def Let_def safe_int_def del: js_add.simps)
  have "v \<noteq> 0" using v ab(3) by auto
  moreover have "v \<le> of_int (a + max (b - a) 1)" using v by (simp add: max_def)
  ultimately show ?thesis
    using f' vt ends v mx assms(2,3) by (auto simp: scrub_def show_transport_def Let_def)
qed

section \<open>Latency over the last orders\<close>

fun perf_total :: "wire_batch \<Rightarrow> jsnum" where
  "perf_total b = tr_promiseSet (b_trace b)"

fun perf_wait :: "wire_batch \<Rightarrow> jsnum" where
  "perf_wait b = js_sub (tr_dequeue (b_trace b)) (tr_enqueue (b_trace b))"

lemma perf_loop_collects:
  "length totals \<le> 3000 \<Longrightarrow> perf_loop fs totals waits =
     (let bs = take (3000 - length totals) (batches fs) in (totals @ map perf_total bs, waits @ map perf_wait bs))"
proof (induction fs totals waits rule: perf_loop.induct)
  case (2 fr fs totals waits)
  show ?case
  proof (cases "length totals < 3000")
    case True
    with 2 show ?thesis
      by (cases fr) (simp_all add: Let_def take_Cons' Suc_diff_Suc flip: Suc_eq_plus1)
  qed (use 2 in simp)
qed simp

definition last_orders :: "frame list \<Rightarrow> wire_batch list" where
  "last_orders fs = take 3000 (rev (batches fs))"

lemma batches_rev: "batches (rev fs) = rev (batches fs)"
  by (induction fs rule: batches.induct) simp_all

lemma performance_sorted:
  "performance fs =
     (let ts = sort (map perf_total (last_orders fs)); ws = sort (map perf_wait (last_orders fs))
      in \<lparr>lp_n = length ts, lp_p50 = percentile ts (Fin 50), lp_p99 = percentile ts (Fin 99),
          lp_w50 = percentile ws (Fin 50), lp_w99 = percentile ws (Fin 99)\<rparr>)"
  by (simp add: performance_def perf_loop_collects batches_rev last_orders_def Let_def)


lemma order_statistic:
  assumes "sorted srt" and "k < length srt"
  shows "k < length (filter (\<lambda>x. x \<le> srt ! k) srt)" and "length srt - k \<le> length (filter (\<lambda>x. srt ! k \<le> x) srt)"
proof -
  have "filter (\<lambda>x. x \<le> srt ! k) (take (Suc k) srt) = take (Suc k) srt"
    "filter (\<lambda>x. srt ! k \<le> x) (drop k srt) = drop k srt"
    using assms by (auto simp: filter_id_conv in_set_conv_nth sorted_iff_nth_mono)
  then have "length (filter (\<lambda>x. x \<le> srt ! k) (take (Suc k) srt @ drop (Suc k) srt)) \<ge> Suc k"
    "length (filter (\<lambda>x. srt ! k \<le> x) (take k srt @ drop k srt)) \<ge> length srt - k"
    using assms(2) by (simp_all add: filter_append del: append_take_drop_id)
  then show "k < length (filter (\<lambda>x. x \<le> srt ! k) srt)" "length srt - k \<le> length (filter (\<lambda>x. srt ! k \<le> x) srt)" by simp_all
qed

lemma rank_median:
  assumes "0 < n" and "n < 2 ^ 52"
  shows "rank n 50 = n div 2"
proof -
  have h: "fl (1 / 2) = Fin (1 / 2)" using fl_sc [of 1 1] by (simp add: sc_def)
  have "\<bar>int n\<bar> < 2 ^ 53" using assms by simp
  from fl_sc [OF this, of 1] have f: "fl (of_nat n / 2) = Fin (of_nat n / 2)" by (simp add: sc_def)
  have "\<lfloor>(of_nat n :: rat) / 2\<rfloor> = int n div 2" using floor_divide_of_nat_eq [of n 2] by (simp add: zdiv_int)
  then show ?thesis using assms(1) h f by (simp add: rank_def min_def) linarith
qed

definition median_of :: "jsnum list \<Rightarrow> jsnum \<Rightarrow> bool" where
  "median_of xs m \<longleftrightarrow> m \<in> set xs \<and> length xs \<le> 2 * length (filter (\<lambda>x. x \<le> m) xs) \<and>
     length xs \<le> 2 * length (filter (\<lambda>x. m \<le> x) xs)"

lemma percentiles_of_sample:
  assumes "xs \<noteq> []" and "length xs \<le> 3000"
  obtains m p where "percentile (sort xs) (Fin 50) = Some m" "percentile (sort xs) (Fin 99) = Some p"
    "median_of xs m" "p \<in> set xs" "m \<le> p"
proof -
  let ?s = "sort xs" and ?n = "length xs"
  have s: "?s \<noteq> []" "int (length ?s) < 2 ^ 53" "length ?s = ?n" using assms by (simp_all, metis length_0_conv length_sort)
  have r: "rank ?n 50 = ?n div 2" using assms by (intro rank_median) auto
  have k: "rank ?n 50 < ?n" "rank ?n 99 < ?n" using percentile_rank(2) [OF s(1) _ _ s(2), of 50] percentile_rank(2) [OF s(1) _ _ s(2), of 99] by simp_all
  have le: "?s ! rank ?n 50 \<le> ?s ! rank ?n 99"
    using rank_mono [of 50 99 ?n] k(2) assms(2) s(3) by (intro sorted_nth_mono) simp_all
  have cnt: "length (filter P ?s) = length (filter P xs)" for P by (metis length_sort filter_sort)
  have "median_of xs (?s ! rank ?n 50)"
    using order_statistic [OF sorted_sort, of "rank ?n 50" xs] k(1) s(3) nth_mem [of "rank ?n 50" ?s]
    unfolding median_of_def cnt r by simp linarith
  then show thesis
    using percentile_rank(1) [OF s(1) _ _ s(2)] k s(3) le nth_mem [of "rank ?n 99" ?s]
    by (intro that [of "?s ! rank ?n 50" "?s ! rank ?n 99"]) simp_all
qed


text \<open>
  The latency figures describe the last orders: the panel looks at the latest 3000 batches, or
  all of them when there are fewer; each median is the time of one of these orders with at least
  half of them no slower and at least half no faster, and the 99th percentile is the time of one
  of them and not below the median.
\<close>

lemma session_latency:
  assumes "batches fs \<noteq> []" and "NaN \<notin> perf_total ` set (last_orders fs) \<union> perf_wait ` set (last_orders fs)"
  shows "\<exists>p50 p99 w50 w99. performance fs =
      \<lparr>lp_n = min 3000 (length (batches fs)), lp_p50 = Some p50, lp_p99 = Some p99, lp_w50 = Some w50, lp_w99 = Some w99\<rparr> \<and>
    median_of (map perf_total (last_orders fs)) p50 \<and> median_of (map perf_wait (last_orders fs)) w50 \<and>
    p50 \<le> p99 \<and> p99 \<in> perf_total ` set (last_orders fs) \<and> w50 \<le> w99 \<and> w99 \<in> perf_wait ` set (last_orders fs)"
proof -
  let ?t = "map perf_total (last_orders fs)" and ?w = "map perf_wait (last_orders fs)"
  have n: "last_orders fs \<noteq> []" "length (last_orders fs) = min 3000 (length (batches fs))"
    using assms(1) by (simp_all add: last_orders_def min.commute)
  obtain m p where t: "percentile (sort ?t) (Fin 50) = Some m" "percentile (sort ?t) (Fin 99) = Some p"
    "median_of ?t m" "p \<in> set ?t" "m \<le> p" using percentiles_of_sample [of ?t] n by auto
  obtain v q where w: "percentile (sort ?w) (Fin 50) = Some v" "percentile (sort ?w) (Fin 99) = Some q"
    "median_of ?w v" "q \<in> set ?w" "v \<le> q" using percentiles_of_sample [of ?w] n by auto
  show ?thesis using t w n(2) by (auto simp: performance_sorted Let_def)
qed

theorem session_latency_witness:
  "\<exists>p50. lp_n (performance [FBatch ex_timed]) = 1 \<and> lp_p50 (performance [FBatch ex_timed]) = Some p50 \<and>
     median_of [Fin 250] p50"
proof -
  have "batches [FBatch ex_timed] \<noteq> []" "last_orders [FBatch ex_timed] = [ex_timed]" by (simp_all add: last_orders_def)
  with session_latency [of "[FBatch ex_timed]"] show ?thesis by (auto simp: ex_timed_def js_sub_def)
qed

section \<open>The table shows every account once\<close>

definition keyed :: "stats \<Rightarrow> bool" where
  "keyed m \<longleftrightarrow> omap_wf m \<and> (\<forall>(k, s) \<in> set m. bs_id s = k)"

text \<open>The nodes a stream mentions.\<close>

definition names :: "wire_batch list \<Rightarrow> string set" where
  "names bs = (\<Union>b \<in> set bs. insert (o_node (b_order b))
     (\<Union>t \<in> set (b_trades b). {t_aggressorNode t, t_restingNode t}))"

lemma with_stat_keys:
  "omap_keys (with_stat roster nid f m) = omap_keys m @ (if nid \<in> set (omap_keys m) then [] else [nid])"
  by (induction m) (auto, metis fst_conv image_eqI)

lemma with_stat_keyed:
  assumes "\<And>s. bs_id (f s) = bs_id s" and "keyed m"
  shows "keyed (with_stat roster nid f m)"
proof -
  have "\<forall>(k, s) \<in> set (with_stat roster nid f m). bs_id s = k"
    if "\<forall>(k, s) \<in> set m. bs_id s = k"
    using that assms(1) by (induction m) (auto simp: new_stat_def split: if_splits)
  moreover have "omap_wf (with_stat roster nid f m)"
    using assms(2) unfolding keyed_def omap_wf_def with_stat_keys by auto
  ultimately show ?thesis using assms(2) by (simp add: keyed_def)
qed

text \<open>Growing: the table stays keyed, keeps its first keys, and gains exactly the keys \<open>N\<close>.\<close>

definition grows :: "stats \<Rightarrow> stats \<Rightarrow> string set \<Rightarrow> bool" where
  "grows m m' N \<longleftrightarrow> (keyed m \<longrightarrow> keyed m') \<and>
     (\<exists>ks. omap_keys m' = omap_keys m @ ks) \<and> set (omap_keys m') = set (omap_keys m) \<union> N"

lemma grows_refl: "grows m m {}"
  by (simp add: grows_def)

lemma grows_trans: "grows m m' A \<Longrightarrow> grows m' m'' B \<Longrightarrow> grows m m'' (A \<union> B)"
  unfolding grows_def by (intro conjI) (blast, metis append.assoc, blast)

lemma grows_with_stat:
  assumes "\<And>s. bs_id (f s) = bs_id s"
  shows "grows m (with_stat roster nid f m) {nid}"
  unfolding grows_def with_stat_keys by (auto intro: with_stat_keyed assms)

lemma grows_trade: "grows (cs_stats s) (cs_stats (apply_trade roster s t)) {t_aggressorNode t, t_restingNode t}"
proof -
  have "bs_id (agg_leg t x) = bs_id x" "bs_id (rest_leg t x) = bs_id x" for x by (simp_all add: agg_leg_def rest_leg_def)
  then have "grows (cs_stats s) (with_stat roster (t_restingNode t) (rest_leg t)
      (with_stat roster (t_aggressorNode t) (agg_leg t) (cs_stats s))) ({t_aggressorNode t} \<union> {t_restingNode t})"
    by (intro grows_trans [OF grows_with_stat grows_with_stat])
  then show ?thesis by (simp add: apply_trade_def insert_commute)
qed

lemma grows_trades: "grows (cs_stats s) (cs_stats (foldl (apply_trade roster) s ts))
    (\<Union>t \<in> set ts. {t_aggressorNode t, t_restingNode t})"
proof (induction ts arbitrary: s)
  case (Cons t ts)
  from grows_trans [OF grows_trade this, of s roster t] show ?case by simp
qed (simp add: grows_refl)

lemma grows_frames: "grows (cs_stats s) (cs_stats (foldl (apply_frame roster) s fs)) (names (batches fs))"
proof (induction fs arbitrary: s)
  case (Cons fr fs)
  show ?case
  proof (cases fr)
    case (FBatch b)
    let ?s1 = "s\<lparr>cs_stats := with_stat roster (o_node (b_order b)) (count_op b) (cs_stats s)\<rparr>"
    have "bs_id (count_op b x) = bs_id x" for x by (simp add: count_op_def)
    then have "grows (cs_stats s) (cs_stats ?s1) {o_node (b_order b)}" by (simp add: grows_with_stat)
    moreover have "cs_stats (foldl (apply_trade roster) ?s1 (b_trades b)) = cs_stats (apply_batch roster s b)"
      by (simp add: apply_batch_def Let_def)
    ultimately have "grows (cs_stats s) (cs_stats (apply_batch roster s b)) (names [b])"
      using grows_trans [OF _ grows_trades [of ?s1 roster "b_trades b"], of "cs_stats s" "{o_node (b_order b)}"]
      by (simp add: names_def)
    from grows_trans [OF this Cons.IH]
    have "grows (cs_stats s) (cs_stats (foldl (apply_frame roster) s (fr # fs))) (names [b] \<union> names (batches fs))"
      by (simp add: FBatch)
    moreover have "names [b] \<union> names (batches fs) = names (batches (fr # fs))" by (auto simp: names_def FBatch)
    ultimately show ?thesis by (simp only:)
  qed (use Cons.IH in simp)
qed (simp add: names_def grows_refl)


lemma init_keys:
  assumes "distinct (map re_id roster)"
  shows "omap_keys (cs_stats (init_stats roster)) = map re_id roster" and "keyed (cs_stats (init_stats roster))"
proof -
  have get: "get_stat roster nid m = with_stat roster nid (\<lambda>s. s) m" for nid m
    by (induction m) (auto simp: get_stat_def split: option.split)
  have "omap_keys (foldl (\<lambda>m r. get_stat roster (re_id r) m) m rs) = omap_keys m @ map re_id rs \<and>
      (keyed m \<longrightarrow> keyed (foldl (\<lambda>m r. get_stat roster (re_id r) m) m rs))"
    if "distinct (map re_id rs)" "set (omap_keys m) \<inter> re_id ` set rs = {}" for m and rs :: "roster_entry list"
    using that
  proof (induction rs arbitrary: m)
    case (Cons r rs)
    then have "omap_keys (get_stat roster (re_id r) m) = omap_keys m @ [re_id r]"
      by (auto simp: get with_stat_keys)
    moreover from this have "set (omap_keys (get_stat roster (re_id r) m)) = insert (re_id r) (set (omap_keys m))"
      by (simp only: set_append) simp
    then have "set (omap_keys (get_stat roster (re_id r) m)) \<inter> re_id ` set rs = {}" using Cons.prems by auto
    ultimately show ?case
      using Cons.IH [of "get_stat roster (re_id r) m"] Cons.prems with_stat_keyed [of "\<lambda>s. s" m roster "re_id r"]
      by (simp add: get)
  qed simp
  from this [OF assms, of "[]"] show "omap_keys (cs_stats (init_stats roster)) = map re_id roster"
    "keyed (cs_stats (init_stats roster))" by (auto simp: init_stats_def keyed_def omap_wf_def)
qed

lemma final_keys:
  assumes "distinct (map re_id roster)"
  obtains ks where "omap_keys (fst (computeStats fs idx roster)) = map re_id roster @ ks"
    "set (map re_id roster @ ks) = re_id ` set roster \<union> names (batches (upto_idx idx fs))"
    "keyed (fst (computeStats fs idx roster))"
proof -
  let ?m = "cs_stats (final_stats roster fs idx)"
  have g: "grows (cs_stats (init_stats roster)) ?m (names (batches (upto_idx idx fs)))"
    unfolding final_stats_def by (rule grows_frames)
  have m: "fst (computeStats fs idx roster) = map (\<lambda>(k, v). (k, mark (cs_lastPrice (final_stats roster fs idx)) v)) ?m"
    by (simp add: computeStats_def final_stats_def Let_def)
  have keys: "omap_keys (fst (computeStats fs idx roster)) = omap_keys ?m" unfolding m by (induction ?m) auto
  have "keyed ?m" using g init_keys [OF assms] by (simp add: grows_def)
  then have "omap_wf (fst (computeStats fs idx roster))" unfolding omap_wf_def keys by (simp add: keyed_def omap_wf_def)
  with \<open>keyed ?m\<close> have "keyed (fst (computeStats fs idx roster))" by (auto simp: keyed_def m mark_def)
  moreover obtain ks where ks: "omap_keys ?m = map re_id roster @ ks"
    "set (omap_keys ?m) = re_id ` set roster \<union> names (batches (upto_idx idx fs))"
    using g unfolding grows_def init_keys(1) [OF assms] set_map by blast
  ultimately show thesis using keys by (intro that) (simp_all only: ks)
qed


lemma map_filter_cong: "(\<And>x. x \<in> set xs \<Longrightarrow> f x = g x) \<Longrightarrow> List.map_filter f xs = List.map_filter g xs"
  by (induction xs) (simp_all add: List.map_filter_simps split: option.split)

lemma map_filter_keys:
  assumes "distinct (map fst m)"
  shows "List.map_filter (map_of m) (map fst m) = map snd m"
proof -
  have "List.map_filter (\<lambda>p. map_of m (fst p)) m = List.map_filter (\<lambda>p. Some (snd p)) m"
    using assms by (intro map_filter_cong) simp
  also have "\<dots> = map snd m" by (simp add: List.map_filter_def comp_def)
  finally show ?thesis by (simp add: List.map_filter_def comp_def filter_map)
qed

lemma map_filter_total:
  assumes "\<forall>x \<in> set xs. \<exists>y. f x = Some y \<and> g y = x"
  shows "map g (List.map_filter f xs) = xs"
  using assms by (induction xs) (auto simp: List.map_filter_simps)

lemma keyed_get:
  assumes "keyed m" and "k \<in> set (omap_keys m)"
  shows "\<exists>s. omap_get m k = Some s \<and> bs_id s = k"
proof -
  obtain s where "omap_get m k = Some s" using assms(2) by (auto simp: map_of_eq_None_iff dest: weak_map_of_SomeI)
  then show ?thesis using assms(1) by (auto simp: keyed_def dest!: map_of_SomeD)
qed

lemma bot_rows_ids:
  assumes "keyed m" and "set ids \<subseteq> set (omap_keys m)"
  shows "map bs_id (bot_rows m ids) = ids @ (if ''human'' \<in> set (omap_keys m) then [''human''] else [])"
proof -
  have "map bs_id (List.map_filter (omap_get m) ids) = ids"
    using keyed_get [OF assms(1)] assms(2) by (intro map_filter_total) blast
  moreover have "omap_get m ''human'' = None" if "''human'' \<notin> set (omap_keys m)"
    using that by (simp add: map_of_eq_None_iff)
  moreover have "map bs_id (case omap_get m ''human'' of None \<Rightarrow> [] | Some h \<Rightarrow> [h]) = [''human'']"
    if "''human'' \<in> set (omap_keys m)" using keyed_get [OF assms(1) that] by auto
  ultimately show ?thesis by (simp add: bot_rows_def del: set_map)
qed

lemma bot_rows_all:
  assumes "keyed m" and "omap_keys m = ids @ (if h then [''human''] else [])"
    and "''human'' \<notin> set ids"
  shows "bot_rows m ids = omap_values m"
proof -
  have d: "distinct (map fst m)" using assms(1) by (simp add: keyed_def omap_wf_def)
  have "List.map_filter (omap_get m) (omap_keys m) = bot_rows m ids"
    unfolding assms(2) map_filter_append bot_rows_def
    using assms(2,3) keyed_get [OF assms(1), of "''human''"] map_of_eq_None_iff [of m "''human''"]
    by (auto simp: List.map_filter_simps simp flip: set_map)
  then show ?thesis using map_filter_keys [OF d] by simp
qed


text \<open>
  C26. The accounts table shows every account once. On a roster without repetition and without the
  reserved name \<open>human\<close>, its lines are the bots in roster order and then the visitor, exactly if
  the stream mentions them. When the stream mentions nobody else, no account is left out, so
  the positions on display add up to zero (for whole quantities of a volume below \<open>2 ^ 52\<close>).
\<close>

theorem accounts_table_complete:
  assumes "distinct (map re_id roster)" and "''human'' \<notin> re_id ` set roster"
  shows "let st = fst (computeStats fs idx roster); rows = bot_rows st (map re_id roster); bs = batches (upto_idx idx fs) in
    map bs_id rows = map re_id roster @ (if ''human'' \<in> names bs then [''human''] else []) \<and>
    (names bs \<subseteq> insert ''human'' (re_id ` set roster) \<longrightarrow> rows = omap_values st \<and>
      (list_all whole (trades_upto fs idx) \<and> 2 * sum_list (map (\<lambda>t. \<bar>q_of t\<bar>) (trades_upto fs idx)) < 2 ^ 53 \<longrightarrow>
        (\<exists>ps. map bs_position rows = map js_int ps \<and> sum_list ps = 0)))"
proof -
  let ?st = "fst (computeStats fs idx roster)" and ?ids = "map re_id roster"
  let ?N = "names (batches (upto_idx idx fs))"
  obtain ks where ks: "omap_keys ?st = ?ids @ ks" "set (?ids @ ks) = re_id ` set roster \<union> ?N" "keyed ?st"
    by (rule final_keys [OF assms(1)])
  have h: "''human'' \<in> set (omap_keys ?st) \<longleftrightarrow> ''human'' \<in> ?N" unfolding ks(1,2) using assms(2) by blast
  have ids: "map bs_id (bot_rows ?st ?ids) = ?ids @ (if ''human'' \<in> ?N then [''human''] else [])"
  proof -
    have "set ?ids \<subseteq> set (omap_keys ?st)" unfolding ks(1) by simp
    from bot_rows_ids [OF ks(3) this] show ?thesis unfolding h .
  qed
  have all: "bot_rows ?st ?ids = omap_values ?st" if N: "?N \<subseteq> insert ''human'' (re_id ` set roster)"
  proof (rule bot_rows_all [OF ks(3)])
    have "distinct (?ids @ ks)" using ks(1,3) by (simp only: keyed_def omap_wf_def)
    moreover from this ks(2) N have "set ks \<subseteq> {''human''}" by auto
    ultimately show "omap_keys ?st = ?ids @ (if ks \<noteq> [] then [''human''] else [])"
      unfolding ks(1) by (cases ks; cases "tl ks") auto
  qed (use assms(2) in simp)
  have zero: "\<exists>ps. map bs_position (omap_values ?st) = map js_int ps \<and> sum_list ps = 0"
    if "list_all whole (trades_upto fs idx)" "2 * sum_list (map (\<lambda>t. \<bar>q_of t\<bar>) (trades_upto fs idx)) < 2 ^ 53"
    using that columns_balance [of fs idx roster] by (auto simp: list_all_iff)
  show ?thesis unfolding Let_def using ids all zero by (intro conjI impI; (elim conjE)?) (simp_all only:)
qed


theorem accounts_table_complete_witness:
  "map bs_id (bot_rows (fst (computeStats ex_frames 2 [\<lparr>re_id = ''mm-1'', re_strategy = ''mm''\<rparr>])) [''mm-1'']) =
     [''mm-1'', ''human'']"
proof -
  have "''human'' \<in> names (batches (upto_idx 2 ex_frames))"
    by (simp add: names_def ex_frames_def upto_idx_def ex_batch_def)
  then show ?thesis
    using accounts_table_complete [of "[\<lparr>re_id = ''mm-1'', re_strategy = ''mm''\<rparr>]" ex_frames 2] by (simp add: Let_def)
qed

section \<open>The spotlight ends\<close>

lemma spot_run_ends:
  assumes "s_spot s = Some p" and "\<exists>now \<in> set ns. over p now"
  shows "\<exists>out. fst (spot_run ns s) = out @ [SpotNull] \<and> s_spot (snd (spot_run ns s)) = None \<and>
    (\<forall>m \<in> set out. \<exists>pr. m = SpotAt (p_f p) pr)"
  using assms
proof (induction ns arbitrary: s)
  case (Cons now ns)
  from Cons.prems(1) show ?case
  proof (cases rule: spot_step_cases [of s p now])
    case over
    then show ?thesis
      using spot_run_none [of "s\<lparr>s_spot := None, s_lastSpot := None\<rparr>" ns] by simp
  next
    case same
    then show ?thesis using Cons by (auto simp: split_beta)
  next
    case new
    let ?s = "s\<lparr>s_lastSpot := Some (b_seq (p_f p), stageAt (p_s p) (progress now p))\<rparr>"
    obtain out where "fst (spot_run ns ?s) = out @ [SpotNull]" "s_spot (snd (spot_run ns ?s)) = None"
      "\<forall>m \<in> set out. \<exists>pr. m = SpotAt (p_f p) pr"
      using Cons.IH [of ?s] Cons.prems new(1) by auto
    then show ?thesis
      using new(3) by (intro exI [of _ "SpotAt (p_f p) (progress now p) # out"]) (simp add: split_beta)
  qed
qed simp

lemma over_after:
  assumes "p_start p = Fin st" and "p_dur p = Fin 9000" and "st + 9180 \<le> t" and "t < st + 2 ^ 40"
  shows "over p (Fin t)"
proof -
  have "of_int 9180 \<le> t - st" "t - st \<le> of_int (2 ^ 40)" using assms(3,4) by simp_all
  then obtain y where y: "fl (t - st) = Fin y" "of_int 9180 \<le> y" by (rule fl_in) (simp_all add: safe_int_def)
  then have "fl (102 / 100) \<le> fl (y / 9000)" by (intro fl_mono) simp
  moreover have "fl (102 / 100) \<noteq> NaN" "fl (y / 9000) \<noteq> NaN" by (simp_all add: fl_def)
  ultimately show ?thesis using y assms(1,2) by (simp add: over_def progress_def js_sub_def js_le_def)
qed

text \<open>
  The slow-motion spotlight reaches its end. Whatever was selected or running before, asking
  for it selects that order, and as soon as the canvas has drawn a frame at least 9.18 seconds
  later the spotlight is off again, on the canvas and on the page; until then
  everything the page was told is about that order.
\<close>

lemma spotlight_ends:
  assumes "t \<in> set ts" and "t0 + 9180 \<le> t" and "t < t0 + 2 ^ 40"
  shows "let a1 = spotlight b a; s1 = start_spotlight (Fin t0) (ap_selected a1) (ap_token a1) s;
      (out, s2) = spot_run (map Fin ts) s1; a2 = foldl onSpot a1 out in
    s_spot s2 = None \<and> ap_spot a2 = None \<and> ap_selected a2 = Some b \<and>
    (\<forall>b' pr. SpotAt b' pr \<in> set out \<longrightarrow> b' = b)"
proof -
  define p where "p = \<lparr>p_f = b, p_start = Fin t0, p_dur = Fin 9000, p_s = boundaries b\<rparr>"
  let ?a = "spotlight b a"
  let ?s = "start_spotlight (Fin t0) (ap_selected ?a) (ap_token ?a) s"
  have s: "s_spot ?s = Some p" by (simp add: start_spotlight_def spotlight_def p_def)
  have "\<exists>now \<in> set (map Fin ts). over p now"
    using over_after [OF _ _ assms(2,3), of p] assms(1) by (auto simp: p_def)
  from spot_run_ends [OF s this]
  obtain out where out: "fst (spot_run (map Fin ts) ?s) = out @ [SpotNull]" "s_spot (snd (spot_run (map Fin ts) ?s)) = None"
    "\<forall>m \<in> set out. \<exists>pr. m = SpotAt b pr" by (auto simp: p_def)
  have "ap_selected (foldl onSpot x ms) = ap_selected x" for x ms
  proof (induction ms arbitrary: x)
    case (Cons m ms)
    then show ?case by (cases m) simp_all
  qed simp
  then have "ap_selected (foldl onSpot ?a (out @ [SpotNull])) = Some b" by (simp add: spotlight_def)
  then show ?thesis using out by (auto simp: Let_def split_beta)
qed

theorem spotlight_ends_witness:
  "let (out, s2) = spot_run (map Fin [0, 5000, 9200]) (start_spotlight (Fin 0) (Some ex_timed) 1 new_scope) in
     s_spot s2 = None \<and> ap_spot (foldl onSpot (spotlight ex_timed new_app) out) = None"
  using spotlight_ends [of 9200 "[0, 5000, 9200]" 0 ex_timed new_app new_scope]
  by (simp add: Let_def split_beta spotlight_def new_app_def del: spot_run.simps)

end
