(* ===== verification/Page.thy ===== *)
theory Page
  imports Inspector Panels
begin

text \<open>
  The page as a whole, \<^verbatim>\<open>web/src/App.tsx\<close>: every panel is computed from the one feed, the state the
  panels share, the state of the ticket and the memos of the panels (\<open>useMemo\<close>). The canvas is
  drawn apart from this, on its own timer (\<open>draw\<close> in \<open>Scope\<close>, \<open>paint\<close> in \<open>Canvas\<close>). The theorem is
  that the page never fails to render and that the panels that depend on the position show one moment.
\<close>

record page =
  pg_pill :: "pill_text \<times> bool"
  pg_banner :: bool
  pg_transport :: transport
  pg_inspector :: inspector_panel
  pg_ladder :: ladder
  pg_chart :: "chart option"
  pg_tape :: tape_view
  pg_form :: form_view
  pg_bots :: "bot_line list"
  pg_perf :: perf_panel

text \<open>The memos of the five components that have one.\<close>

record page_memo =
  pm_stats :: stats_memo
  pm_recent :: recent_memo
  pm_chart :: series_memo
  pm_tape :: tape_memo
  pm_perf :: perf_memo


text \<open>One render: the page, and the memos kept for the next one.\<close>

definition show_page ::
  "(wire_batch \<Rightarrow> wire_batch \<Rightarrow> bool) \<Rightarrow> page_memo \<Rightarrow> feed \<Rightarrow> app \<Rightarrow> ticket \<Rightarrow> (page \<times> page_memo) option" where
  "show_page same m f a t =
     (case page_stats (pm_stats m) f of
        None \<Rightarrow> None
      | Some ((st, opn), c1) \<Rightarrow>
          (case (show_inspector same (pm_recent m) f (ap_selected a) (ap_spot a), show_ladder f opn,
                 show_chart (pm_chart m) f opn, show_tape (pm_tape m) f, show_performance (pm_perf m) f) of
             (Some (ins, c2), Some lad, Some (chart, c3), Some (tape, c4), Some (perf, c5)) \<Rightarrow>
               Some (\<lparr>pg_pill = StatusPill f, pg_banner = (f_source f = Replay),
                 pg_transport = show_transport f, pg_inspector = ins, pg_ladder = lad, pg_chart = chart, pg_tape = tape,
                 pg_form = show_form t f opn (omap_get st ''human''),
                 pg_bots = Bots st (map re_id (f_roster f)), pg_perf = perf\<rparr>,
                \<lparr>pm_stats = c1, pm_recent = c2, pm_chart = c3, pm_tape = c4, pm_perf = c5\<rparr>)
           | _ \<Rightarrow> None))"

text \<open>
  The memos are current: one that a render would reuse holds what the render would compute. So it is
  for a new page and whenever the version has changed since the memos were filled (\<open>Freshness\<close>).
  The figures of the performance panel are only asked to be those of some buffer.
\<close>

definition figures_ok :: "perf_memo \<Rightarrow> bool" where
  "figures_ok c \<longleftrightarrow> (\<forall>k v. c = Some (k, v) \<longrightarrow> (\<exists>fs. v = performance fs))"

definition memo_current :: "page_memo \<Rightarrow> feed \<Rightarrow> bool" where
  "memo_current m f \<longleftrightarrow> figures_ok (pm_perf m) \<and>
     (case indexAt (f_frames f) (f_vt f) of
        None \<Rightarrow> True
      | Some idx \<Rightarrow>
          cell_current (f_version f, idx, f_roster f) (Some (stats_at f idx)) (pm_stats m) \<and>
          cell_current (f_version f, idx) (recent_batches (f_frames f) idx) (pm_recent m) \<and>
          cell_current (f_version f, idx) (priceSeries (f_frames f) idx (Fin 90000)) (pm_chart m) \<and>
          cell_current (f_version f, idx) (Some (recentTrades (f_frames f) idx TAPE_ROWS)) (pm_tape m))"

text \<open>The figures a render shows: the kept ones, or those of the whole buffer.\<close>

definition perf_figures :: "perf_memo \<Rightarrow> feed \<Rightarrow> live_perf" where
  "perf_figures c f =
     (case c of Some (k, v) \<Rightarrow> if k = f_version f div 20 then v else performance (f_frames f)
      | None \<Rightarrow> performance (f_frames f))"

section \<open>No panel fails\<close>

lemma performance_figures:
  "lp_n (performance fs) \<le> 3000 \<and>
   (lp_n (performance fs) \<noteq> 0 \<longrightarrow> lp_p50 (performance fs) \<noteq> None \<and> lp_p99 (performance fs) \<noteq> None \<and>
      lp_w50 (performance fs) \<noteq> None \<and> lp_w99 (performance fs) \<noteq> None)"
proof (cases "last_orders fs = []")
  case False
  then have l: "map perf_total (last_orders fs) \<noteq> []" "map perf_wait (last_orders fs) \<noteq> []"
    "length (map perf_total (last_orders fs)) \<le> 3000" "length (map perf_wait (last_orders fs)) \<le> 3000"
    by (simp_all add: last_orders_def)
  obtain a b where "percentile (sort (map perf_total (last_orders fs))) (Fin 50) = Some a"
    "percentile (sort (map perf_total (last_orders fs))) (Fin 99) = Some b"
    by (rule percentiles_of_sample [OF l(1,3)])
  moreover obtain c d where "percentile (sort (map perf_wait (last_orders fs))) (Fin 50) = Some c"
    "percentile (sort (map perf_wait (last_orders fs))) (Fin 99) = Some d"
    by (rule percentiles_of_sample [OF l(2,4)])
  ultimately show ?thesis using l(3) by (simp add: performance_sorted Let_def)
qed (simp add: performance_sorted Let_def)

lemma panel_shows: "\<exists>p. perf_panel_of (performance fs) = Some p \<and> pp_n p = lp_n (performance fs)"
  using performance_figures [of fs]
  by (cases "lp_n (performance fs) = 0") (auto simp: perf_panel_of_def kpi_def Let_def)

lemma show_performance_unfold:
  "show_performance c f = map_option (\<lambda>p. (p, Some (f_version f div 20, perf_figures c f))) (perf_panel_of (perf_figures c f))"
  by (auto simp: show_performance_def useMemo_def perf_figures_def split: option.split)

lemma figures_of_buffer: "figures_ok c \<Longrightarrow> \<exists>fs. perf_figures c f = performance fs"
  by (auto simp: figures_ok_def perf_figures_def split: option.split)

lemma performance_shows:
  assumes "figures_ok c"
  shows "\<exists>p. show_performance c f = Some (p, Some (f_version f div 20, perf_figures c f)) \<and>
    pp_n p = lp_n (perf_figures c f) \<and> perf_panel_of (perf_figures c f) = Some p"
proof -
  obtain fs where "perf_figures c f = performance fs" using figures_of_buffer [OF assms] by blast
  then show ?thesis using panel_shows [of fs] by (auto simp: show_performance_unfold)
qed

lemma moment:
  assumes "length (f_frames f) \<le> 2 ^ 30"
  obtains idx where "indexAt (f_frames f) (f_vt f) = Some idx" "- 1 \<le> idx" "idx < int (length (f_frames f))"
    "recent_batches (f_frames f) idx = Some (take 9 (rev (batches (upto_idx idx (f_frames f)))))"
proof -
  obtain idx where i: "indexAt (f_frames f) (f_vt f) = Some idx" "- 1 \<le> idx" "idx < int (length (f_frames f))"
    by (rule indexAt_crossing [OF assms])
  with recent_batches_latest_first [OF assms, of "f_vt f"] show thesis by (intro that) auto
qed

text \<open>With current memos each panel is what it is without a memo.\<close>

lemma current_panels:
  assumes "memo_current m f"
  shows "page_stats (pm_stats m) f = page_stats None f"
    and "show_inspector same (pm_recent m) f sel spot = show_inspector same None f sel spot"
    and "show_chart (pm_chart m) f os = show_chart None f os"
    and "show_tape (pm_tape m) f = show_tape None f"
  using assms
  by (cases "indexAt (f_frames f) (f_vt f)";
      simp add: memo_current_def page_stats_def show_inspector_def inspect_def show_chart_def show_tape_def
        useMemo_current useMemo_empty Let_def)+

text \<open>The panels at a position, each with the cell it leaves.\<close>

lemma stats_shown:
  assumes "indexAt (f_frames f) (f_vt f) = Some idx"
  defines "s \<equiv> final_stats (f_roster f) (f_frames f) idx"
  shows "page_stats None f = Some ((map (\<lambda>(k, v). (k, mark (cs_lastPrice s) v)) (cs_stats s), omap_values (cs_open s)),
    Some ((f_version f, idx, f_roster f), stats_at f idx))"
  using assms(1) by (simp add: page_stats_def useMemo_empty stats_at_def computeStats_def final_stats_def s_def Let_def)

lemma inspector_shows:
  assumes "indexAt (f_frames f) (f_vt f) = Some idx" and "recent_batches (f_frames f) idx = Some bs"
  shows "\<exists>p. show_inspector same None f sel spot = Some (p, Some ((f_version f, idx), bs)) \<and>
    map rr_id (ip_rows p) = map (o_id \<circ> b_order) bs"
  using assms by (simp add: show_inspector_def inspect_def useMemo_empty Let_def recent_row_of_def comp_def)

lemma chart_shows:
  assumes "indexAt (f_frames f) (f_vt f) = Some idx" and "priceSeries (f_frames f) idx (Fin 90000) = Some s"
  shows "show_chart None f os = Some (price_chart s os, Some ((f_version f, idx), s))"
  using assms by (simp add: show_chart_def useMemo_empty)

lemma tape_shows:
  assumes "indexAt (f_frames f) (f_vt f) = Some idx"
  shows "show_tape None f = Some
    ((Option.bind (last_opt (filter (\<lambda>b. b_tob b \<noteq> None) (batches (upto_idx idx (f_frames f))))) (\<lambda>b. map_option tob_texts (b_tob b)),
      map (tape_row_of (take 12 (rev (concat (map batch_points (batches (upto_idx idx (f_frames f)))))))) [0..<12]),
     Some ((f_version f, idx), recentTrades (f_frames f) idx TAPE_ROWS))"
  using assms lookback_finds_latest [of "f_frames f" idx]
  by (simp add: show_tape_def useMemo_empty recentTrades_most_recent_first TAPE_ROWS_def Let_def del: upt_rec_numeral)

lemma ladder_shows:
  assumes "indexAt (f_frames f) (f_vt f) = Some idx"
  shows "show_ladder f os = Some (ladder_of (last_opt (List.map_filter frame_book (upto_idx idx (f_frames f)))) os)"
  using assms lookback_finds_latest [of "f_frames f" idx] by (simp add: show_ladder_def)



lemma page_returns:
  assumes "length (f_frames f) \<le> 2 ^ 30" and "memo_current m f"
  shows "\<exists>pg m'. show_page same m f a t = Some (pg, m')"
proof -
  obtain idx where i: "indexAt (f_frames f) (f_vt f) = Some idx" "idx < int (length (f_frames f))"
    "recent_batches (f_frames f) idx = Some (take 9 (rev (batches (upto_idx idx (f_frames f)))))"
    by (rule moment [OF assms(1)])
  obtain ins where "show_inspector same None f (ap_selected a) (ap_spot a) =
      Some (ins, Some ((f_version f, idx), take 9 (rev (batches (upto_idx idx (f_frames f))))))"
    using inspector_shows [OF i(1,3)] by blast
  moreover have "priceSeries (f_frames f) idx (Fin 90000) \<noteq> None" using i(2) by (simp add: priceSeries_def Let_def split_beta)
  then obtain s where "priceSeries (f_frames f) idx (Fin 90000) = Some s" by blast
  moreover have "figures_ok (pm_perf m)" using assms(2) by (simp add: memo_current_def)
  then obtain perf where "show_performance (pm_perf m) f = Some (perf, Some (f_version f div 20, perf_figures (pm_perf m) f))"
    using performance_shows by blast
  ultimately show ?thesis
    by (simp add: show_page_def current_panels [OF assms(2)] stats_shown [OF i(1)] ladder_shows [OF i(1)]
        chart_shows [OF i(1)] tape_shows [OF i(1)])
qed




end
