(* ===== verification/Freshness.thy ===== *)
theory Freshness
  imports Page Feed_Safety
begin

text \<open>
  The page follows the feed: \<^verbatim>\<open>useFeed\<close> of \<^verbatim>\<open>web/src/feed.ts\<close> renders the page again when the feed
  calls its listeners and the version it reads has changed. So the page is right as long as the
  feed never changes what is shown without calling them, at once or by leaving the mark
  \<open>f_dirty\<close>, on which a tick more than 90 milliseconds after the last call calls them. Two things
  do change without that, and the theorem names the events that change them: the roster, and
  whether the socket is open. A third is late by design, the figures of the performance panel.
\<close>

section \<open>The store the page subscribes to\<close>



section \<open>Every change is announced\<close>

text \<open>What a page shows of the feed, the roster and the state of the socket apart.\<close>

definition shown :: "feed \<Rightarrow> frame list \<times> feed_source \<times> bool \<times> string option \<times> clock_mode \<times> jsnum \<times> jsnum" where
  "shown f = (f_frames f, f_source f, f_exchangeUp f, f_recording f, f_clockMode f, f_speed f, f_vt f)"




lemma version_simps [simp]:
  "f_version (bump p f) = Suc (f_version f)" "\<not> f_dirty (bump p f)"
  "f_version (emit e f) = f_version f" "f_dirty (emit e f) = f_dirty f" "shown (emit e f) = shown f" "f_roster (emit e f) = f_roster f"
  "f_version (push gs f) = f_version f" "f_dirty (push gs f)"
  "f_version (feed_reset src f) = f_version f"
  "f_version (setFollow f) = f_version f" "f_dirty (setFollow f)"
  "f_version (set_anchor p f) = f_version f"
  "f_version (useReplay f) = f_version f" "f_dirty (useReplay f) = f_dirty f" "shown (useReplay f) = shown f" "f_roster (useReplay f) = f_roster f"
  "f_version (clear_timer i f) = f_version f" "f_dirty (clear_timer i f) = f_dirty f" "shown (clear_timer i f) = shown f" "f_roster (clear_timer i f) = f_roster f"
  "f_version (scheduleRetry f) = f_version f" "f_dirty (scheduleRetry f) = f_dirty f" "shown (scheduleRetry f) = shown f" "f_roster (scheduleRetry f) = f_roster f"
  "f_version (connect ok f) = f_version f" "f_dirty (connect ok f) = f_dirty f" "shown (connect ok f) = shown f" "f_roster (connect ok f) = f_roster f"
  by (auto simp: bump_def emit_def push_def feed_reset_def setFollow_def set_anchor_def useReplay_def clear_timer_def
      scheduleRetry_def set_timer_def connect_def shown_def Let_def split: option.split)







lemma request_same:
  "f_version (request m f) = f_version f" "f_dirty (request m f) = f_dirty f" "shown (request m f) = shown f" "f_roster (request m f) = f_roster f"
  by (simp_all add: request_def set_timer_def Let_def shown_def emit_def)


lemma fire_same:
  "f_version (fire_timer ok i f) = f_version f" "f_dirty (fire_timer ok i f) = f_dirty f"
  "shown (fire_timer ok i f) = shown f" "f_roster (fire_timer ok i f) = f_roster f"
  by (auto simp: fire_timer_def Let_def split: option.split timer.split) (simp_all add: shown_def)


text \<open>Following the stream goes at speed 1, so that asking for speed 1 there changes nothing.\<close>

definition follows_at_one :: "feed \<Rightarrow> bool" where
  "follows_at_one f \<longleftrightarrow> (f_clockMode f = Follow \<longrightarrow> f_speed f = Fin 1)"

lemma at_one_initial: "follows_at_one new_feed"
  by (simp add: follows_at_one_def new_feed_def)

lemma at_one_simps:
  "follows_at_one (bump p f) = follows_at_one f" "follows_at_one (emit e f) = follows_at_one f"
  "follows_at_one (set_anchor p f) = follows_at_one f" "follows_at_one (clear_timer i f) = follows_at_one f"
  "follows_at_one (useReplay f) = follows_at_one f" "follows_at_one (scheduleRetry f) = follows_at_one f"
  "follows_at_one (connect ok f) = follows_at_one f" "follows_at_one (push gs f) = follows_at_one f"
  "follows_at_one (request m f) = follows_at_one f" "follows_at_one (settle r res f) = follows_at_one f"
  "follows_at_one (fire_timer ok k f) = follows_at_one f" "follows_at_one (setFollow f)"
  "follows_at_one (feed_reset src f) = follows_at_one f"
  "follows_at_one (f\<lparr>f_openSocks := os\<rparr>) = follows_at_one f" "follows_at_one (f\<lparr>f_listeners := ls\<rparr>) = follows_at_one f"
  using fire_same(3) [of ok k f] request_same(3) [of m f]
  by (auto simp: follows_at_one_def bump_def emit_def push_def feed_reset_def setFollow_def set_anchor_def useReplay_def clear_timer_def
      scheduleRetry_def set_timer_def connect_def settle_def shown_def Let_def split: option.split)

lemma step_loop_mode: "f_clockMode (snd (step_loop gs f)) = f_clockMode f"
  by (induction gs f rule: step_loop.induct) auto

lemma seek_at_one: "seek pn v f = Some f' \<Longrightarrow> follows_at_one f'"
  by (auto simp: seek_def Let_def at_one_simps split: option.splits) (auto simp: follows_at_one_def)

lemma exec_at_one:
  assumes "feed_exec pn e f = Some f'" and "follows_at_one f"
  shows "follows_at_one f'"
proof (cases e)
  case (ETick now)
  have "follows_at_one (advance now f)"
    using assms(2) by (auto simp: advance_def Let_def follows_at_one_def setFollow_def split: clock_mode.splits)
  then show ?thesis using assms ETick by (auto simp: tick_def Let_def at_one_simps)
next
  case EGoLive
  then show ?thesis using assms by (auto simp: goLive_def Let_def at_one_simps seek_at_one split: if_splits option.splits)
next
  case (ESeek v)
  then show ?thesis using assms seek_at_one by simp
next
  case EStep
  have "f_clockMode (snd (step_loop gs (f\<lparr>f_clockMode := Pause\<rparr>))) = Pause" for gs by (simp add: step_loop_mode)
  then show ?thesis using assms EStep by (auto simp: feed_step_def split_beta at_one_simps) (simp add: follows_at_one_def)
next
  case (EMessage m)
  then show ?thesis
    using assms by (auto simp: onMessage_def switchToLive_def Let_def follows_at_one_def push_def setFollow_def settle_def bump_def
      feed_reset_def useReplay_def emit_def clear_timer_def split: server_msg.splits option.splits if_splits)
next
  case (EFetchDone r)
  then show ?thesis
    using assms by (auto simp: useReplay_done_def Let_def at_one_simps split: option.splits) (auto simp: follows_at_one_def)
next
  case (ESockClose i)
  then show ?thesis
    using assms by (auto simp: ws_close_def Let_def at_one_simps) (auto simp: follows_at_one_def useReplay_def emit_def)
next
  case (ESetSpeed s)
  then show ?thesis
    using assms by (auto simp: setSpeed_def Let_def at_one_simps) (auto simp: follows_at_one_def js_eq_def set_anchor_def bump_def)
next
  case ETogglePlay
  then show ?thesis using assms by (auto simp: togglePlay_def at_one_simps) (auto simp: follows_at_one_def)
next
  case ETakeNew
  then show ?thesis using assms by (auto simp: takeNew_def follows_at_one_def Let_def split: if_splits)
next
  case (EStart r ok)
  then show ?thesis using assms by (auto simp: feed_start_def set_timer_def at_one_simps) (auto simp: follows_at_one_def connect_def emit_def scheduleRetry_def clear_timer_def set_timer_def Let_def split: option.splits)
qed (use assms in \<open>auto simp: ws_error_def setRecording_def placeOrder_def cancelOrder_def feed_subscribe_def feed_unsubscribe_def at_one_simps\<close>)

interpretation at_one: service "feed_exec pn" "\<lambda>f. f = new_feed" follows_at_one for pn
  by unfold_locales (auto simp: at_one_initial intro: exec_at_one)












section \<open>The page shows the present\<close>

















end
