(* ===== verification/Canvas.thy ===== *)
theory Canvas
  imports Scope Workspace
begin

text \<open>
  What one frame of the animation paints, the drawing part of \<^verbatim>\<open>web/src/components/Scope.tsx\<close>: the
  dots of a packet with their colours, sizes and opacities, the ring around the selected order,
  the glow of the bots, the cells of the queue and the bars of the order book. The scenery
  around them (grid, boxes, connecting lines, captions) is in \<open>Scenery\<close>.
\<close>

section \<open>The dots of a packet\<close>

definition BOOK :: box where "BOOK = \<lparr>bx = Fin 770, by' = Fin 318, bw = Fin 120, bh = Fin 92\<rparr>"
definition FAN :: box where "FAN = \<lparr>bx = Fin 960, by' = Fin 185, bw = Fin 100, bh = Fin 70\<rparr>"
definition SUBS :: "pt list" where "SUBS = [(Fin 1110, Fin 128), (Fin 1110, Fin 290)]"

datatype colour = CHuman | CGrey | CBid | CAsk | CQueued | CCyan | CWhite

record dot =
  d_at :: pt
  d_col :: colour
  d_r :: jsnum
  d_a :: jsnum

definition glow :: "pt \<Rightarrow> colour \<Rightarrow> jsnum \<Rightarrow> jsnum \<Rightarrow> dot" where
  "glow c col rr a = \<lparr>d_at = c, d_col = col, d_r = rr, d_a = a\<rparr>"

definition packet_colour :: "wire_batch \<Rightarrow> colour" where
  "packet_colour f =
     (if o_node (b_order f) = ''human'' then CHuman else if b_op f = Cancel then CGrey
      else if o_side (b_order f) = Some Bid then CBid else CAsk)"

definition reply_colour :: "wire_batch \<Rightarrow> colour" where
  "reply_colour f =
     (if o_status (b_order f) = Some Rejected then CAsk else if o_status (b_order f) = Some Filled then CBid
      else if o_status (b_order f) = Some Partial then CHuman else if b_op f = Cancel then CGrey else CQueued)"

definition fade :: "jsnum \<Rightarrow> jsnum" where
  "fade t = (if js_gt t (lit (85 / 100))
     then js_sub (Fin 1) (js_div (js_sub t (lit (85 / 100))) (lit (15 / 100))) else Fin 1)"

text \<open>The way back of the reply, and the way of the market data.\<close>

definition bot_pt :: "(string, nat) omap \<Rightarrow> wire_batch \<Rightarrow> pt" where
  "bot_pt slots f = (js_add BOT_X BOT_W, botY slots (o_node (b_order f)))"

definition reply_route :: "(string, nat) omap \<Rightarrow> wire_batch \<Rightarrow> pt list" where
  "reply_route slots f =
     (let ex = js_add (bx ENGINE) (Fin 30); gx = js_add (bx GRPC) (Fin 60)
      in [(ex, js_add (by' ENGINE) (bh ENGINE)), (ex, Fin 300), (gx, Fin 300),
          (gx, js_add (by' GRPC) (bh GRPC)), bot_pt slots f])"

definition fan_route :: "pt list" where
  "fan_route = [(js_add (bx ENGINE) (bw ENGINE), Fin 220), (bx FAN, Fin 220), (js_add (bx FAN) (bw FAN), Fin 220)]"

definition reply_t :: "packet \<Rightarrow> jsnum \<Rightarrow> jsnum" where
  "reply_t p prog = (case p_s p of (s0, s1, s2, s3) \<Rightarrow> js_div (js_sub prog s3) (js_sub (Fin 1) s3))"

definition md_dots :: "(jsnum \<Rightarrow> jsnum \<Rightarrow> jsnum) \<Rightarrow> wire_batch \<Rightarrow> jsnum \<Rightarrow> jsnum \<Rightarrow> dot list" where
  "md_dots hypot f r t =
     (let t2 = clamp01 (js_div t (lit (8 / 10)))
      in if js_lt t2 (Fin 1) \<and> (b_trades f \<noteq> [] \<or> b_tob f \<noteq> None) then
           if js_lt t2 (Fin (1 / 2)) then
             (case polyAt hypot fan_route (js_div t2 (Fin (1 / 2))) of
                None \<Rightarrow> [] | Some c \<Rightarrow> [glow c CCyan (js_mul r (Fin (3 / 4))) (Fin 1)])
           else map (\<lambda>s. glow (lerp (js_add (bx FAN) (bw FAN), Fin 220) (fst s, js_add (snd s) (Fin 12))
               (ease (js_div (js_sub t2 (Fin (1 / 2))) (Fin (1 / 2))))) CCyan (js_mul r (lit (7 / 10))) (Fin 1)) SUBS
         else [])"

definition trade_dots :: "wire_batch \<Rightarrow> jsnum \<Rightarrow> jsnum \<Rightarrow> dot list" where
  "trade_dots f r t =
     (if b_trades f \<noteq> [] \<and> js_lt t (lit (35 / 100)) then
        [glow (lerp (js_add (bx ENGINE) (js_div (bw ENGINE) (Fin 2)), js_add (by' ENGINE) (bh ENGINE))
                 (js_add (bx BOOK) (js_div (bw BOOK) (Fin 2)), by' BOOK) (js_div t (lit (35 / 100))))
           CWhite (js_mul r (lit (6 / 10))) (Fin 1)]
      else [])"

definition same_batch :: "wire_batch option \<Rightarrow> wire_batch \<Rightarrow> bool" where
  "same_batch sel f = (case sel of None \<Rightarrow> False | Some b \<Rightarrow> js_eq (b_seq b) (b_seq f) \<and> js_eq (b_at b) (b_at f))"

text \<open>\<^verbatim>\<open>drawPacket\<close>: the head it returns, the dots in the order they are painted, and the ring.\<close>

definition drawPacket ::
  "(jsnum \<Rightarrow> jsnum \<Rightarrow> jsnum) \<Rightarrow> (string, nat) omap \<Rightarrow> wire_batch option \<Rightarrow> packet \<Rightarrow> jsnum \<Rightarrow> bool \<Rightarrow>
     pt option \<times> dot list \<times> (pt \<times> jsnum) option" where
  "drawPacket hypot slots sel p prog big =
     (let f = p_f p; hd = packet_head slots p prog; r = (if big then Fin 8 else Fin (9 / 2)); t = reply_t p prog;
          way = polyAt hypot (reply_route slots f) (ease t)
      in (hd,
          (case hd of None \<Rightarrow> [] | Some h \<Rightarrow> [glow h (packet_colour f) r (Fin 1)]) @
          (if js_ge prog (snd (snd (snd (p_s p)))) then
             (case way of None \<Rightarrow> [] | Some c \<Rightarrow> [glow c (reply_colour f) (js_mul r (lit (85 / 100))) (fade t)]) @
             md_dots hypot f r t @ trade_dots f r t
           else []),
          if same_batch sel f then
            map_option (\<lambda>c. (c, js_add r (Fin 6))) (case hd of Some h \<Rightarrow> Some h | None \<Rightarrow> way)
          else None))"

text \<open>
  The discs it fills: each dot is a pale disc of 2.3 times its radius and a disc of its radius.
  The ring is a circle drawn with a line 1.5 wide, so its outer edge is that of a disc 0.75 larger.
\<close>

definition discs :: "dot \<Rightarrow> (pt \<times> jsnum) list" where
  "discs dt = [(d_at dt, js_mul (d_r dt) (lit (23 / 10))), (d_at dt, d_r dt)]"

definition ring_discs :: "(pt \<times> jsnum) option \<Rightarrow> (pt \<times> jsnum) list" where
  "ring_discs ring = (case ring of None \<Rightarrow> [] | Some (c, rr) \<Rightarrow> [(c, js_add rr (Fin (3 / 4)))])"

section \<open>The moving parts of the scenery\<close>

definition bot_glow :: "jsnum \<Rightarrow> scope \<Rightarrow> string \<Rightarrow> jsnum" where
  "bot_glow now s nid =
     clamp01 (js_sub (Fin 1) (js_div (js_sub now
       (case omap_get (s_botGlow s) nid of None \<Rightarrow> Fin (- 1000000000) | Some w \<Rightarrow> w)) (Fin 500)))"

definition bot_alpha :: "jsnum \<Rightarrow> scope \<Rightarrow> string \<Rightarrow> jsnum" where
  "bot_alpha now s nid = js_add (lit (6 / 100)) (js_mul (lit (35 / 100)) (bot_glow now s nid))"

definition book_flashes :: "jsnum \<Rightarrow> scope \<Rightarrow> bool" where
  "book_flashes now s \<longleftrightarrow> js_gt (clamp01 (js_sub (Fin 1) (js_div (js_sub now (s_bookFlash s)) (Fin 420)))) (Fin 0)"

text \<open>A cell of the queue: whether it is filled, its left edge and its width.\<close>

definition queue_cells :: "nat \<Rightarrow> (bool \<times> jsnum \<times> jsnum) list" where
  "queue_cells q =
     (let sw = js_div (bw QUEUE) (js_int (int QUEUE_slots))
      in map (\<lambda>i. (slot_filled q i, js_add (js_add (bx QUEUE) (js_mul (js_int (int i)) sw)) (Fin 1), js_sub sw (Fin 2)))
           [0..<QUEUE_slots])"

text \<open>The bars of the small order book: side, top edge and width.\<close>

definition depth_max :: "wire_book \<Rightarrow> jsnum" where
  "depth_max b = foldl js_max (Fin 1) (map (fst \<circ> snd) (take 5 (bk_bids b)) @ map (fst \<circ> snd) (take 5 (bk_asks b)))"

definition depth_bars :: "wire_book \<Rightarrow> (side \<times> jsnum \<times> jsnum) list" where
  "depth_bars b =
     concat (map (\<lambda>i.
       (case nth_opt (bk_asks b) i of None \<Rightarrow> []
        | Some l \<Rightarrow> [(Ask, js_sub (js_add (by' BOOK) (Fin 28)) (js_mul (js_int (int i)) (Fin 5)),
            js_mul (js_div (fst (snd l)) (depth_max b)) (Fin 52))]) @
       (case nth_opt (bk_bids b) i of None \<Rightarrow> []
        | Some l \<Rightarrow> [(Bid, js_add (js_add (by' BOOK) (Fin 40)) (js_mul (js_int (int i)) (Fin 5)),
            js_mul (js_div (fst (snd l)) (depth_max b)) (Fin 52))])) [0..<5])"

record picture =
  pc_bots :: "(string \<times> jsnum \<times> jsnum) list"
  pc_cells :: "(bool \<times> jsnum \<times> jsnum) list"
  pc_busy :: bool
  pc_flash :: bool
  pc_depth :: "(side \<times> jsnum \<times> jsnum) list"
  pc_packets :: "(dot list \<times> (pt \<times> jsnum) option) list"

text \<open>The picture of a frame: the state is that of \<open>draw\<close> before its spotlight step.\<close>

definition paint ::
  "(jsnum \<Rightarrow> jsnum \<Rightarrow> jsnum) \<Rightarrow> jsnum \<Rightarrow> wire_batch option \<Rightarrow> scope \<Rightarrow> feed \<Rightarrow> picture option" where
  "paint hypot now sel s f =
     (case indexAt (f_frames f) (f_vt f) of
        None \<Rightarrow> None
      | Some idx \<Rightarrow>
          let slots = botSlots (f_roster f)
          in Some \<lparr>pc_bots = map (\<lambda>(nid, i). (nid, botY slots nid, bot_alpha now s nid)) slots,
               pc_cells = queue_cells (inQueue now s), pc_busy = engineBusy now s, pc_flash = book_flashes now s,
               pc_depth = (case bookAt (f_frames f) idx of None \<Rightarrow> [] | Some b \<Rightarrow> depth_bars b),
               pc_packets =
                 map (\<lambda>p. snd (drawPacket hypot slots sel p (clamp01 (progress now p)) False)) (s_packets s) @
                 (case s_spot s of
                    None \<Rightarrow> []
                  | Some p \<Rightarrow> if js_ge (progress now p) (lit (102 / 100)) then []
                      else [snd (drawPacket hypot slots sel p (clamp01 (progress now p)) True)])\<rparr>)"

section \<open>The last frames of a reply\<close>

text \<open>Rounding of a number between powers of two, away from ties.\<close>

lemma fl_round:
  assumes "\<bar>x * 2 ^ k - of_int m\<bar> < 1 / 2" and "2 ^ 52 \<le> x * 2 ^ k" and "x * 2 ^ k < 2 ^ 53" and "k < 1000"
  shows "fl x = Fin (of_int m / 2 ^ k)"
proof -
  have x0: "0 < x" using assms(2) by (metis less_le_trans zero_less_mult_pos2 zero_less_numeral zero_less_power)
  have pk: "(2 :: rat) powi (52 - int k) = 2 ^ 52 / 2 ^ k" "(2 :: rat) powi (53 - int k) = 2 ^ 53 / 2 ^ k"
    by (simp_all add: power_int_diff)
  have "2 powi (52 - int k) \<le> x" "x < 2 powi (53 - int k)"
    using assms(2,3) unfolding pk by (simp_all add: field_simps)
  then have "expo x = 52 - int k"
    using expo_bounds [OF x0] two_powi_less_iff [of "expo x" "53 - int k"] two_powi_less_iff [of "52 - int k" "expo x + 1"]
    by linarith
  then have u: "ulp x = 1 / 2 ^ k" using assms(4) by (simp add: ulp_def power_int_minus_divide)
  have r: "round_even (x * 2 ^ k) = m"
  proof -
    have "\<lfloor>x * 2 ^ k\<rfloor> = m \<or> \<lfloor>x * 2 ^ k\<rfloor> = m - 1" using assms(1) by linarith
    then show ?thesis using assms(1) by (auto simp: round_even_def Let_def)
  qed
  have "fl_pos x = of_int m / 2 ^ k" by (simp add: fl_pos_def u r)
  moreover have "of_int m / 2 ^ k < (2 :: rat) ^ 1024"
  proof -
    have "1 \<le> x * 2 ^ k" using assms(2) by simp
    then have "0 \<le> (of_int m :: rat)" using assms(1) by linarith
    have "of_int m < (2 :: rat) ^ 53 + 1" using assms(1,3) by linarith
    then have "of_int m < (2 :: rat) ^ 1024" by (rule order.strict_trans) simp
    moreover have "(of_int m :: rat) / 2 ^ k \<le> of_int m"
      using \<open>0 \<le> (of_int m :: rat)\<close> mult_left_mono [of 1 "2 ^ k" "of_int m :: rat"] by (simp add: divide_le_eq)
    ultimately show ?thesis by linarith
  qed
  ultimately show ?thesis using x0 by (simp add: fl_def)
qed

lemma fl_85: "lit (85 / 100) = Fin (7656119366529843 / 2 ^ 53)"
  using fl_round [of "85 / 100" 53 7656119366529843] by simp

lemma fl_15: "lit (15 / 100) = Fin (5404319552844595 / 2 ^ 55)"
  using fl_round [of "15 / 100" 55 5404319552844595] by simp

lemma fade_at_end: "fade (Fin 1) = Fin (- 1 / 2 ^ 52)"
proof -
  have a: "js_sub (Fin 1) (lit (85 / 100)) = Fin (1351079888211149 / 2 ^ 53)"
    unfolding fl_85 using fl_sc [of 1351079888211149 53] by (simp add: js_sub_def sc_def)
  have b: "fl (5404319552844596 / 5404319552844595) = Fin ((2 ^ 52 + 1) / 2 ^ 52)"
    using fl_round [of "5404319552844596 / 5404319552844595" 52 "2 ^ 52 + 1"] by simp
  have c: "fl (- 1 / 2 ^ 52) = Fin (- 1 / 2 ^ 52)" using fl_sc [of "- 1" 52] by (simp add: sc_def)
  have g: "js_gt (Fin 1) (lit (85 / 100))" unfolding fl_85 by (simp add: js_lt_def)
  then have "fade (Fin 1) = js_sub (Fin 1) (js_div (Fin (1351079888211149 / 2 ^ 53)) (Fin (5404319552844595 / 2 ^ 55)))"
    by (simp only: fade_def if_True a fl_15)
  also have "\<dots> = Fin (- 1 / 2 ^ 52)" using b c by (simp add: js_sub_def)
  finally show ?thesis .
qed


lemma poly_walk_Some: "pts \<noteq> [] \<Longrightarrow> \<exists>c. poly_walk pts ls d = Some c"
  by (induction pts ls d rule: poly_walk.induct) (auto simp: last_opt_def)

lemma reply_t_end:
  assumes "ordered (p_s p)"
  shows "reply_t p (Fin 1) = Fin 1"
proof -
  obtain x0 x1 x2 x3 where s: "p_s p = (Fin x0, Fin x1, Fin x2, Fin x3)" "x3 < 7 / 10" by (rule orderedE [OF assms])
  have "x3 \<ge> 0" using assms s by simp
  then obtain y where y: "fl (1 - x3) = Fin y" using fl_in [of 0 "1 - x3" 1] s(2) by (auto simp: safe_int_def)
  have "fl (1 / 2 ^ 2) = Fin (1 / 2 ^ 2)" using fl_sc [of 1 2] by (simp add: sc_def)
  then have "1 / 4 \<le> y" using fl_mono [of "1 / 2 ^ 2" "1 - x3"] s(2) y by simp
  then show ?thesis using y by (simp add: reply_t_def s(1) js_sub_def)
qed

text \<open>
  The reply dot flashes at the end of its journey. While a finished packet is still drawn,
  its reply is painted with the opacity \<open>1 - (1 - 0.85) / 0.15\<close>, which in binary64 is not 0 but
  \<open>- 2 ^ -52\<close>. The canvas ignores a negative \<^verbatim>\<open>globalAlpha\<close>, so the dot that should have faded
  out is painted opaque.
\<close>

lemma finished_reply_not_faded_out:
  assumes "whole_trace (b_trace (p_f p)) a b c" and "p_s p = boundaries (p_f p)" and "js_ge (progress now p) (Fin 1)"
  shows "\<exists>dt \<in> set (fst (snd (drawPacket hypot slots sel p (clamp01 (progress now p)) big))).
    d_col dt = reply_colour (p_f p) \<and> d_a dt = Fin (- 1 / 2 ^ 52)"
proof -
  have o: "ordered (p_s p)" using boundaries_ordered [OF assms(1)] assms(2) by simp
  then obtain x0 x1 x2 x3 where s: "p_s p = (Fin x0, Fin x1, Fin x2, Fin x3)" "x3 < 7 / 10" by (rule orderedE)
  have c: "clamp01 (progress now p) = Fin 1"
    using assms(3) by (cases "progress now p") (auto simp: clamp01_def js_min_def js_max_def js_le_def)
  obtain w where w: "polyAt hypot (reply_route slots (p_f p)) (ease (Fin 1)) = Some w"
  proof -
    have "reply_route slots (p_f p) \<noteq> []" by (simp add: reply_route_def Let_def)
    from poly_walk_Some [OF this] show thesis by (metis that polyAt_def)
  qed
  have ge: "js_ge (Fin 1) (snd (snd (snd (p_s p))))" using s by (simp add: js_le_def)
  show ?thesis
    unfolding c using w ge
    by (simp add: drawPacket_def Let_def reply_t_end [OF o] fade_at_end glow_def)
qed

theorem finished_reply_not_faded_out_witness:
  "\<exists>dt \<in> set (fst (snd (drawPacket (\<lambda>x y. js_max (js_abs x) (js_abs y)) (botSlots []) None
       \<lparr>p_f = ex_timed, p_start = Fin 0, p_dur = Fin 2600, p_s = boundaries ex_timed\<rparr> (Fin 1) False))).
     js_lt (d_a dt) (Fin 0)"
proof -
  let ?p = "\<lparr>p_f = ex_timed, p_start = Fin 0, p_dur = Fin 2600, p_s = boundaries ex_timed\<rparr>"
  have pr: "progress (Fin 2600) ?p = Fin 1" by (simp add: progress_def js_sub_def)
  have cl: "clamp01 (Fin 1) = Fin 1" by (simp add: clamp01_def js_min_def js_max_def)
  have "\<exists>dt \<in> set (fst (snd (drawPacket (\<lambda>x y. js_max (js_abs x) (js_abs y)) (botSlots []) None ?p
      (clamp01 (progress (Fin 2600) ?p)) False))). d_col dt = reply_colour (p_f ?p) \<and> d_a dt = Fin (- 1 / 2 ^ 52)"
    by (rule finished_reply_not_faded_out [of _ 12 15 240]) (use ex_timed_whole pr in \<open>auto simp: js_le_def\<close>)
  then show ?thesis unfolding pr cl by (force simp: js_lt_def)
qed

section \<open>Everything is painted inside the canvas\<close>

text \<open>
  What is relied on of \<^verbatim>\<open>Math.hypot\<close>: for numbers of moderate size it is finite, not negative, and
  within 1 of lying between the larger of the two absolute values and their sum.
\<close>

definition hypot_ok :: "(jsnum \<Rightarrow> jsnum \<Rightarrow> jsnum) \<Rightarrow> bool" where
  "hypot_ok hypot \<longleftrightarrow> (\<forall>x y. \<bar>x\<bar> \<le> 2000 \<longrightarrow> \<bar>y\<bar> \<le> 2000 \<longrightarrow>
     (\<exists>l. hypot (Fin x) (Fin y) = Fin l \<and> 0 \<le> l \<and> max \<bar>x\<bar> \<bar>y\<bar> - 1 \<le> l \<and> l \<le> \<bar>x\<bar> + \<bar>y\<bar> + 1))"

definition in_box :: "pt \<Rightarrow> bool" where
  "in_box c = (case c of (Fin x, Fin y) \<Rightarrow> 40 \<le> x \<and> x \<le> 1160 \<and> 36 \<le> y \<and> y \<le> 404 | _ \<Rightarrow> False)"

lemma in_boxE:
  assumes "in_box c"
  obtains x y where "c = (Fin x, Fin y)" "40 \<le> x" "x \<le> 1160" "36 \<le> y" "y \<le> 404"
  using assms by (cases c; cases "fst c"; cases "snd c") (auto simp: in_box_def)

lemma in_box_Fin [simp]: "in_box (Fin x, Fin y) \<longleftrightarrow> 40 \<le> x \<and> x \<le> 1160 \<and> 36 \<le> y \<and> y \<le> 404"
  by (simp add: in_box_def)

lemma lerp_box: "in_box a \<Longrightarrow> in_box b \<Longrightarrow> 0 \<le> t \<Longrightarrow> t \<le> 101 / 100 \<Longrightarrow> well_inside (lerp a b (Fin t))"
  by (elim in_boxE) (auto intro!: lerp_well_inside)

lemma diff_box:
  assumes "\<bar>x' - x\<bar> \<le> 1999"
  obtains d where "js_sub (Fin x') (Fin x) = Fin d" "\<bar>d\<bar> \<le> 2000" "\<bar>x' - x\<bar> - eps \<le> \<bar>d\<bar>" "\<bar>d\<bar> \<le> \<bar>x' - x\<bar> + eps"
proof -
  have "near (fl (x' - x)) (x' - x) eps" using assms by (intro near_fl_exact) simp
  then obtain d where "fl (x' - x) = Fin d" "x' - x - eps \<le> d" "d \<le> x' - x + eps" by (rule nearE)
  with assms show thesis by (intro that [of d]) (auto simp: js_sub_def eps_def)
qed

lemma seg_length:
  assumes "hypot_ok hypot" and "in_box a" and "in_box b"
  obtains l where "hypot (js_sub (fst b) (fst a)) (js_sub (snd b) (snd a)) = Fin l" "0 \<le> l" "l \<le> 3000"
    "\<And>x x'. fst a = Fin x \<Longrightarrow> fst b = Fin x' \<Longrightarrow> \<bar>x' - x\<bar> - 2 \<le> l"
proof -
  obtain x y where a: "a = (Fin x, Fin y)" "40 \<le> x" "x \<le> 1160" "36 \<le> y" "y \<le> 404" using assms(2) by (rule in_boxE)
  obtain x' y' where b: "b = (Fin x', Fin y')" "40 \<le> x'" "x' \<le> 1160" "36 \<le> y'" "y' \<le> 404" using assms(3) by (rule in_boxE)
  have xx: "\<bar>x' - x\<bar> \<le> 1158" and yy: "\<bar>y' - y\<bar> \<le> 398" using a b by (auto simp: abs_le_iff)
  obtain dx where dx: "js_sub (Fin x') (Fin x) = Fin dx" "\<bar>dx\<bar> \<le> 2000" "\<bar>x' - x\<bar> - eps \<le> \<bar>dx\<bar>" "\<bar>dx\<bar> \<le> \<bar>x' - x\<bar> + eps"
    by (rule diff_box [of x' x]) (use xx in simp)
  obtain dy where dy: "js_sub (Fin y') (Fin y) = Fin dy" "\<bar>dy\<bar> \<le> 2000" "\<bar>dy\<bar> \<le> \<bar>y' - y\<bar> + eps"
    by (rule diff_box [of y' y]) (use yy in simp_all)
  obtain l where l: "hypot (Fin dx) (Fin dy) = Fin l" "0 \<le> l" "max \<bar>dx\<bar> \<bar>dy\<bar> - 1 \<le> l" "l \<le> \<bar>dx\<bar> + \<bar>dy\<bar> + 1"
    using assms(1) dx(2) dy(2) unfolding hypot_ok_def by blast
  have "\<bar>dx\<bar> - 1 \<le> l" using l(3) by linarith
  then have "\<bar>x' - x\<bar> - 2 \<le> l" "l \<le> 3000" using l(4) dx dy xx yy by (simp_all add: eps_def)
  then show thesis using that [of l] l(1,2) dx(1) dy(1) by (auto simp: a(1) b(1))
qed

lemma seg_lengths_ok:
  assumes "hypot_ok hypot" and "list_all in_box (a # pts)"
  shows "\<exists>ls. seg_lengths hypot (a # pts) = map Fin ls \<and> length ls = length pts \<and> (\<forall>l \<in> set ls. 0 \<le> l \<and> l \<le> 3000)"
  using assms(2)
proof (induction pts arbitrary: a)
  case (Cons b pts)
  then have "list_all in_box (b # pts)" by simp
  from Cons.IH [OF this]
  obtain ls where ls: "seg_lengths hypot (b # pts) = map Fin ls" "length ls = length pts" "\<forall>l \<in> set ls. 0 \<le> l \<and> l \<le> 3000"
    by blast
  obtain l where "hypot (js_sub (fst b) (fst a)) (js_sub (snd b) (snd a)) = Fin l" "0 \<le> l" "l \<le> 3000"
  proof -
    have "in_box a" "in_box b" using Cons.prems by simp_all
    then show thesis by (rule seg_length [OF assms(1)]) (rule that)
  qed
  with ls show ?case by (intro exI [of _ "l # ls"]) simp
qed simp

lemma seg_lengths_last: "seg_lengths hypot (ps @ [a, b]) \<noteq> [] \<and> last (seg_lengths hypot (ps @ [a, b])) =
    hypot (js_sub (fst b) (fst a)) (js_sub (snd b) (snd a))"
proof (induction ps)
  case (Cons p ps)
  then show ?case by (cases "ps @ [a, b]") auto
qed simp

lemma poly_walk_inside:
  assumes "list_all in_box (a # pts)" and "length ls = length pts" and "ls \<noteq> []" and "\<forall>l \<in> set ls. 0 \<le> l \<and> l \<le> 3000"
    and "90 \<le> last ls" and "0 \<le> d" and "d \<le> sum_list ls + e" and "0 \<le> e" and "e + of_nat (length ls) * eps \<le> 1 / 4"
    and "length ls \<le> 8"
  shows "\<exists>c. poly_walk (a # pts) (map Fin ls) (Fin d) = Some c \<and> well_inside c"
  using assms
proof (induction ls arbitrary: a pts d e)
  case (Cons l ls)
  then obtain b ps where pts: "pts = b # ps" by (cases pts) auto
  have l: "0 \<le> l" "l \<le> 3000" using Cons.prems(4) by auto
  show ?case
  proof (cases "d \<le> l \<or> ls = []")
    case True
    have "\<exists>t. (if Fin l = Fin 0 \<or> Fin l = NaN then Fin 0 else js_div (Fin d) (Fin l)) = Fin t \<and> 0 \<le> t \<and> t \<le> 101 / 100"
    proof (cases "d \<le> l")
      case True
      then show ?thesis
        using ratio_unit [of d l] Cons.prems(6) l by (cases "l = 0") (auto elim!: unitE)
    next
      case False
      then have lb: "90 \<le> l" "d \<le> l + 1 / 4" using True Cons.prems(5,7,8,9) by (auto simp: eps_def)
      then have q: "1 \<le> d / l" "d / l \<le> 1 + 1 / 360" using False by (simp_all add: field_simps)
      have "(1 :: rat) + 1 / 360 < 2 ^ 40" by simp
      with q have "\<bar>d / l\<bar> < 2 ^ 40" by linarith
      then have "near (fl (d / l)) (d / l) eps" by (rule near_fl_exact)
      then obtain t where "fl (d / l) = Fin t" "d / l - eps \<le> t" "t \<le> d / l + eps" by (rule nearE)
      moreover have "eps \<le> 1 / 1000" by (simp add: eps_def)
      ultimately have "0 \<le> t" "t \<le> 101 / 100" using q by linarith+
      then show ?thesis using \<open>fl (d / l) = Fin t\<close> lb by auto
    qed
    then obtain t where "(if Fin l = Fin 0 \<or> Fin l = NaN then Fin 0 else js_div (Fin d) (Fin l)) = Fin t" "0 \<le> t" "t \<le> 101 / 100" by blast
    then show ?thesis using True Cons.prems(1) lerp_box [of a b t] by (auto simp: pts js_le_def)
  next
    case False
    then have dl: "0 \<le> d - l" by simp
    have "sum_list ls \<le> of_nat (length ls) * 3000"
      using Cons.prems(4) sum_list_mono [of ls "\<lambda>x. x" "\<lambda>_. 3000"] by (simp add: sum_list_triv)
    moreover have "(of_nat (length ls) :: rat) \<le> 7" using Cons.prems(10) of_nat_mono [of "length ls" 7, where 'a = rat] by simp
    moreover have "e \<le> 1 / 4"
    proof -
      have "0 \<le> of_nat (length (l # ls)) * eps" by (simp add: eps_def)
      then show ?thesis using Cons.prems(9) by linarith
    qed
    moreover have "d \<le> l + sum_list ls + e" using Cons.prems(7) by simp
    ultimately have "d - l \<le> 30000" by linarith
    with dl have "near (fl (d - l)) (d - l) eps" by (intro near_fl_exact) simp
    then obtain d' where d': "fl (d - l) = Fin d'" "d' \<le> d - l + eps" by (auto elim!: nearE)
    have "0 \<le> d'" using fl_mono [OF dl] d'(1) by simp
    have "\<exists>c. poly_walk (b # ps) (map Fin ls) (Fin d') = Some c \<and> well_inside c"
    proof (rule Cons.IH [of b ps d' "e + eps"])
      show "d' \<le> sum_list ls + (e + eps)" using d'(2) Cons.prems(7) by simp
      show "e + eps + of_nat (length ls) * eps \<le> 1 / 4" using Cons.prems(9) by (simp add: algebra_simps)
      show "0 \<le> e + eps" using Cons.prems(8) by (simp add: eps_def)
    qed (use Cons.prems False \<open>0 \<le> d'\<close> in \<open>auto simp: pts\<close>)
    then show ?thesis using False d'(1) by (simp add: pts js_le_def js_sub_def)
  qed
qed simp


lemma sum_near:
  "near v x e \<Longrightarrow> \<forall>l \<in> set ls. 0 \<le> l \<and> l \<le> 3000 \<Longrightarrow> 0 \<le> x \<Longrightarrow> 0 \<le> e \<Longrightarrow> e + of_nat (length ls) * eps \<le> 1 \<Longrightarrow>
   x + 3000 * of_nat (length ls) \<le> 2 ^ 30 \<Longrightarrow>
   near (foldl js_add v (map Fin ls)) (x + sum_list ls) (e + of_nat (length ls) * eps)"
proof (induction ls arbitrary: v x e)
  case (Cons l ls)
  have l: "0 \<le> l" "l \<le> 3000" using Cons.prems(2) by auto
  have ep: "0 \<le> of_nat (length ls) * eps" "0 \<le> eps" by (simp_all add: eps_def)
  have e: "e + eps + of_nat (length ls) * eps \<le> 1" using Cons.prems(5) by (simp add: algebra_simps)
  have x: "x + l + 3000 * of_nat (length ls) \<le> 2 ^ 30" using Cons.prems(6) l(2) by simp
  have "0 \<le> 3000 * (of_nat (length ls) :: rat)" by simp
  then have "x + l \<le> 2 ^ 30" "e \<le> 1" using x e ep by linarith+
  moreover have "(2 :: rat) ^ 30 + 1 < 2 ^ 40" by simp
  ultimately have "\<bar>x + l\<bar> + (e + 0) < 2 ^ 40" using Cons.prems(3) l by linarith
  from near_add [OF Cons.prems(1) _ this] have "near (js_add v (Fin l)) (x + l) (e + eps)" by simp
  from Cons.IH [OF this] Cons.prems(2,3,4) l e x ep show ?case by (simp add: algebra_simps)
qed simp

lemma polyAt_inside:
  assumes "hypot_ok hypot" and "list_all in_box (ps @ [a, b])" and "length ps \<le> 7"
    and "fst a = Fin x" and "fst b = Fin x'" and "92 \<le> \<bar>x' - x\<bar>" and "t \<noteq> NaN"
  shows "\<exists>c. polyAt hypot (ps @ [a, b]) t = Some c \<and> well_inside c"
proof -
  obtain p pts where pts: "ps @ [a, b] = p # pts" "length pts = Suc (length ps)" by (cases ps) auto
  obtain ls where ls: "seg_lengths hypot (ps @ [a, b]) = map Fin ls" "length ls = length pts" "\<forall>l \<in> set ls. 0 \<le> l \<and> l \<le> 3000"
    using seg_lengths_ok [OF assms(1), of p pts] assms(2) unfolding pts(1) by blast
  have ne: "ls \<noteq> []" using ls(2) pts(2) by auto
  have ab: "in_box a" "in_box b" using assms(2) by auto
  obtain l where l: "hypot (js_sub (fst b) (fst a)) (js_sub (snd b) (snd a)) = Fin l" "90 \<le> l"
  proof (rule seg_length [OF assms(1) ab])
    fix l assume "hypot (js_sub (fst b) (fst a)) (js_sub (snd b) (snd a)) = Fin l"
      "\<And>x x'. fst a = Fin x \<Longrightarrow> fst b = Fin x' \<Longrightarrow> \<bar>x' - x\<bar> - 2 \<le> l"
    then show thesis using that [of l] assms(4-6) by force
  qed
  have last: "90 \<le> last ls" using seg_lengths_last [of hypot ps a b] l ne by (auto simp: ls(1) last_map)
  have n: "length ls \<le> 8" using ls(2) pts(2) assms(3) by simp
  then have n': "(of_nat (length ls) :: rat) \<le> 8" using of_nat_mono [of "length ls" 8, where 'a = rat] by simp
  have "near (foldl js_add (Fin 0) (map Fin ls)) (0 + sum_list ls) (0 + of_nat (length ls) * eps)"
    using ls(3) n' by (intro sum_near) (simp_all add: eps_def)
  then obtain tot where tot: "foldl js_add (Fin 0) (map Fin ls) = Fin tot" "sum_list ls - of_nat (length ls) * eps \<le> tot"
    "tot \<le> sum_list ls + of_nat (length ls) * eps" by (auto elim!: nearE)
  have ep: "0 \<le> eps" "of_nat (length ls) * eps \<le> 8 * eps" "eps \<le> 1 / 4096"
    using n' by (simp_all add: eps_def)
  have "last ls \<le> sum_list ls" using ls(3) ne by (intro member_le_sum_list) auto
  then have t0: "0 \<le> tot" "tot \<le> sum_list ls + 8 * eps" using last tot ep by linarith+
  have "sum_list ls \<le> 3000 * of_nat (length ls)"
    using sum_list_mono [of ls "\<lambda>x. x" "\<lambda>_. 3000"] ls(3) by (simp add: sum_list_triv mult.commute)
  then have big: "tot \<le> 30000" using t0(2) n' ep by linarith
  obtain u where u: "clamp01 t = Fin u" "0 \<le> u" "u \<le> 1" using clamp01_unit [OF assms(7)] by (rule unitE)
  have ut: "0 \<le> u * tot" "u * tot \<le> tot" using u t0 by (simp_all add: mult_left_le_one_le)
  then have "near (fl (u * tot)) (u * tot) eps" using big by (intro near_fl_exact) (simp add: abs_less_iff)
  then obtain d where d: "fl (u * tot) = Fin d" "d \<le> u * tot + eps" by (auto elim!: nearE)
  have "0 \<le> d" using fl_mono [OF ut(1)] d(1) by simp
  moreover have "d \<le> sum_list ls + 9 * eps" using d(2) ut(2) t0(2) by linarith
  ultimately have "\<exists>c. poly_walk (p # pts) (map Fin ls) (Fin d) = Some c \<and> well_inside c"
    using assms(2) ls(2,3) ne last n ep by (intro poly_walk_inside [where e = "9 * eps"]) (simp_all add: pts(1))
  then show ?thesis unfolding polyAt_def ls(1) Let_def tot(1) u(1) by (simp add: d(1) pts(1))
qed


lemma unit_not_NaN: "unit t \<Longrightarrow> t \<noteq> NaN"
  by (auto simp: unit_def)

lemma lit_fraction:
  assumes "1 / 4 \<le> q" and "q \<le> 1"
  obtains y where "lit q = Fin y" "1 / 4 \<le> y" "y \<le> 1"
proof -
  have "fl (1 / 2 ^ 2) = Fin (1 / 2 ^ 2)" using fl_sc [of 1 2] by (simp add: sc_def)
  then have "Fin (1 / 4) \<le> fl q" "fl q \<le> Fin 1" using fl_mono [of "1 / 2 ^ 2" q] fl_mono [of q 1] assms by simp_all
  then show thesis by (cases "fl q") (auto intro: that)
qed

lemma reply_t_unit:
  assumes "ordered (p_s p)" and "unit prog" and "js_ge prog (snd (snd (snd (p_s p))))"
  shows "unit (reply_t p prog)"
proof -
  obtain x0 x1 x2 x3 where s: "p_s p = (Fin x0, Fin x1, Fin x2, Fin x3)" "1 / 10 < x0" "x0 + 1 / 20 < x1"
    "x1 + 1 / 20 < x2" "x2 + 1 / 20 < x3" "x3 < 7 / 10" by (rule orderedE [OF assms(1)])
  obtain x where x: "prog = Fin x" "0 \<le> x" "x \<le> 1" using assms(2) by (rule unitE)
  have "x3 \<le> x" using assms(3) by (simp add: s x js_le_def)
  then have "unit (js_div (js_sub (Fin x) (Fin x3)) (js_sub (Fin 1) (Fin x3)))" using x s by (intro segment_unit) auto
  then show ?thesis by (simp add: reply_t_def s x)
qed

lemma bot_pt_box:
  assumes "roster_ok r"
  obtains y where "bot_pt (botSlots r) f = (Fin 128, Fin y)" "36 \<le> y" "y \<le> 398"
  using botY_bounds [OF assms, of "o_node (b_order f)"] by (auto simp: bot_pt_def BOT_X_def BOT_W_def)

lemma reply_inside:
  assumes "hypot_ok hypot" and "roster_ok r" and "t \<noteq> NaN"
  shows "\<exists>c. polyAt hypot (reply_route (botSlots r) f) t = Some c \<and> well_inside c"
proof -
  obtain y where y: "bot_pt (botSlots r) f = (Fin 128, Fin y)" "36 \<le> y" "y \<le> 398" by (rule bot_pt_box [OF assms(2)])
  have r: "reply_route (botSlots r) f = [(Fin 800, Fin 270), (Fin 800, Fin 300), (Fin 330, Fin 300)] @ [(Fin 330, Fin 270), (Fin 128, Fin y)]"
    by (simp add: reply_route_def y(1) ENGINE_def GRPC_def Let_def)
  show ?thesis unfolding r
    by (rule polyAt_inside [OF assms(1), where x = 330 and x' = 128]) (use y assms(3) in simp_all)
qed

lemma md_inside:
  assumes "hypot_ok hypot" and "unit t" and "dt \<in> set (md_dots hypot f r t)"
  shows "well_inside (d_at dt)"
proof -
  obtain x where x: "t = Fin x" "0 \<le> x" "x \<le> 1" using assms(2) by (rule unitE)
  obtain k where k: "lit (8 / 10) = Fin k" "1 / 4 \<le> k" by (rule lit_fraction [of "8 / 10"]) simp_all
  have "js_div t (lit (8 / 10)) \<noteq> NaN" unfolding k(1) using k(2) by (simp add: x(1) fl_def)
  then obtain u where u: "clamp01 (js_div t (lit (8 / 10))) = Fin u" "0 \<le> u" "u \<le> 1" by (rule clamp01_unit [THEN unitE])
  have fan: "\<exists>c. polyAt hypot fan_route (js_div (Fin u) (Fin (1 / 2))) = Some c \<and> well_inside c"
  proof -
    have r: "fan_route = [(Fin 890, Fin 220)] @ [(Fin 960, Fin 220), (Fin 1060, Fin 220)]"
      by (simp add: fan_route_def ENGINE_def FAN_def)
    have "js_div (Fin u) (Fin (1 / 2)) \<noteq> NaN" by (simp add: fl_def)
    then show ?thesis unfolding r
      by (intro polyAt_inside [OF assms(1), where x = 960 and x' = 1060]) simp_all
  qed
  show ?thesis
  proof (cases "u < 1 / 2")
    case True
    then show ?thesis using assms(3) fan u by (auto simp: md_dots_def Let_def glow_def js_lt_def split: if_splits option.splits)
  next
    case False
    have "0 \<le> u - 1 / 2" "u - 1 / 2 \<le> 1 / 2" using u False by simp_all
    moreover have "fl (1 / 2) = Fin (1 / 2)" using fl_sc [of 1 1] by (simp add: sc_def)
    ultimately have "Fin 0 \<le> fl (u - 1 / 2)" "fl (u - 1 / 2) \<le> Fin (1 / 2)"
      using fl_mono [of 0 "u - 1 / 2"] fl_mono [of "u - 1 / 2" "1 / 2"] by simp_all
    then obtain z where "fl (u - 1 / 2) = Fin z" "0 \<le> z" "z \<le> 1 / 2" by (cases "fl (u - 1 / 2)") auto
    then have "unit (js_div (js_sub (Fin u) (Fin (1 / 2))) (Fin (1 / 2)))"
      using ratio_unit [of z "1 / 2"] by (simp add: js_sub_def)
    then obtain e where e: "ease (js_div (js_sub (Fin u) (Fin (1 / 2))) (Fin (1 / 2))) = Fin e" "0 \<le> e" "e \<le> 101 / 100"
      by (rule ease_bounds)
    have b: "in_box (js_add (bx FAN) (bw FAN), Fin 220)" "in_box (Fin 1110, js_add (Fin 128) (Fin 12))"
      "in_box (Fin 1110, js_add (Fin 290) (Fin 12))" by (simp_all add: FAN_def)
    show ?thesis
      using assms(3) False u lerp_box [OF b(1,2) e(2,3)] lerp_box [OF b(1,3) e(2,3)]
      by (auto simp: md_dots_def Let_def glow_def js_lt_def SUBS_def e(1) simp del: js_add.simps js_div.simps split: if_splits)
  qed
qed


lemma trade_inside:
  assumes "unit t" and "dt \<in> set (trade_dots f r t)"
  shows "well_inside (d_at dt)"
proof -
  obtain x where x: "t = Fin x" "0 \<le> x" "x \<le> 1" using assms(1) by (rule unitE)
  obtain k where k: "lit (35 / 100) = Fin k" "1 / 4 \<le> k" by (rule lit_fraction [of "35 / 100"]) simp_all
  have lt: "js_lt t (lit (35 / 100))" using assms(2) by (simp add: trade_dots_def split: if_splits)
  then have "x < k" unfolding k(1) x(1) by (simp add: js_lt_def)
  then have "unit (js_div t (lit (35 / 100)))" unfolding k(1) x(1) using x k by (intro ratio_unit) simp_all
  then obtain v where v: "js_div t (lit (35 / 100)) = Fin v" "0 \<le> v" "v \<le> 1" by (rule unitE)
  have b: "in_box (js_add (bx ENGINE) (js_div (bw ENGINE) (Fin 2)), js_add (by' ENGINE) (bh ENGINE))"
    "in_box (js_add (bx BOOK) (js_div (bw BOOK) (Fin 2)), by' BOOK)" by (simp_all add: ENGINE_def BOOK_def)
  have "v \<le> 101 / 100" using v(3) by simp
  from lerp_box [OF b v(2) this] assms(2) show ?thesis unfolding trade_dots_def v(1) by (auto simp: glow_def split: if_splits)
qed

text \<open>The radii: none is larger than 8, so that no pale disc is larger than 19.\<close>

definition disc_on_canvas :: "pt \<times> jsnum \<Rightarrow> bool" where
  "disc_on_canvas d \<longleftrightarrow>
     (case d of ((Fin x, Fin y), Fin rr) \<Rightarrow> 0 \<le> rr \<and> 0 \<le> x - rr \<and> x + rr \<le> 1200 \<and> 0 \<le> y - rr \<and> y + rr \<le> 440
      | _ \<Rightarrow> False)"

lemma inside_disc: "well_inside c \<Longrightarrow> 0 \<le> z \<Longrightarrow> z \<le> 19 \<Longrightarrow> disc_on_canvas (c, Fin z)"
  by (elim well_insideE) (simp add: disc_on_canvas_def)

definition small_radius :: "jsnum \<Rightarrow> bool" where
  "small_radius rr \<longleftrightarrow> (case rr of Fin z \<Rightarrow> 0 \<le> z \<and> z \<le> 8 | _ \<Rightarrow> False)"

lemma small_radius_scaled:
  assumes "1 / 4 \<le> q" and "q \<le> 1" and "0 \<le> z" and "z \<le> 8"
  shows "small_radius (js_mul (Fin z) (lit q))"
proof -
  obtain y where y: "lit q = Fin y" "1 / 4 \<le> y" "y \<le> 1" by (rule lit_fraction [OF assms(1,2)])
  have "z * y \<le> 8 * 1" using assms(3,4) y by (intro mult_mono) auto
  moreover have "0 \<le> z * y" using assms(3) y by simp
  ultimately obtain v where "fl (z * y) = Fin v" "0 \<le> v" "v \<le> 8"
    using fl_in [of 0 "z * y" 8] by (auto simp: safe_int_def)
  then show ?thesis by (simp add: y(1) small_radius_def)
qed

lemma pale_disc:
  assumes "small_radius rr"
  obtains z where "js_mul rr (lit (23 / 10)) = Fin z" "0 \<le> z" "z \<le> 19"
proof -
  obtain v where v: "rr = Fin v" "0 \<le> v" "v \<le> 8" using assms by (cases rr) (auto simp: small_radius_def)
  have "fl (19 / 2 ^ 3) = Fin (19 / 2 ^ 3)" using fl_sc [of 19 3] by (simp add: sc_def)
  then have "Fin 0 \<le> fl (23 / 10)" "fl (23 / 10) \<le> Fin (19 / 8)"
    using fl_mono [of 0 "23 / 10"] fl_mono [of "23 / 10" "19 / 2 ^ 3"] by simp_all
  then obtain k where k: "lit (23 / 10) = Fin k" "0 \<le> k" "k \<le> 19 / 8" by (cases "lit (23 / 10)") auto
  have "v * k \<le> 8 * (19 / 8)" using v k by (intro mult_mono) auto
  moreover have "0 \<le> v * k" using v k by simp
  ultimately obtain z where "fl (v * k) = Fin z" "0 \<le> z" "z \<le> 19"
    using fl_in [of 0 "v * k" 19] by (auto simp: safe_int_def)
  then show thesis by (intro that) (simp_all add: v(1) k(1))
qed

lemma dot_discs:
  assumes "well_inside (d_at dt)" and "small_radius (d_r dt)"
  shows "list_all disc_on_canvas (discs dt)"
proof -
  obtain v where v: "d_r dt = Fin v" "0 \<le> v" "v \<le> 8" using assms(2) by (cases "d_r dt") (auto simp: small_radius_def)
  obtain z where "js_mul (d_r dt) (lit (23 / 10)) = Fin z" "0 \<le> z" "z \<le> 19" by (rule pale_disc [OF assms(2)])
  then show ?thesis using v inside_disc [OF assms(1)] by (simp add: discs_def)
qed

lemma dot_radii:
  assumes "r = (if big then Fin 8 else Fin (9 / 2))"
  shows "small_radius r" and "small_radius (js_mul r (lit (85 / 100)))"
    and "dt \<in> set (md_dots hypot f r t) \<Longrightarrow> small_radius (d_r dt)"
    and "dt \<in> set (trade_dots f r t) \<Longrightarrow> small_radius (d_r dt)"
proof -
  have "\<exists>z. r = Fin z \<and> 0 \<le> z \<and> z \<le> 8" using assms by (intro exI [of _ "if big then 8 else 9 / 2"]) auto
  then obtain z where z: "r = Fin z" "0 \<le> z" "z \<le> 8" by blast
  have "fl (3 / 2 ^ 2) = Fin (3 / 2 ^ 2)" using fl_sc [of 3 2] by (simp add: sc_def)
  then have "small_radius (js_mul r (Fin (3 / 4)))" using small_radius_scaled [of "3 / 4" z] z by simp
  then show "dt \<in> set (md_dots hypot f r t) \<Longrightarrow> small_radius (d_r dt)"
    using small_radius_scaled [of "7 / 10" z] z
    by (auto simp: md_dots_def glow_def Let_def split: if_splits option.splits)
  show "dt \<in> set (trade_dots f r t) \<Longrightarrow> small_radius (d_r dt)"
    using small_radius_scaled [of "6 / 10" z] z by (auto simp: trade_dots_def glow_def split: if_splits)
  show "small_radius r" "small_radius (js_mul r (lit (85 / 100)))"
    using small_radius_scaled [of "85 / 100" z] z by (simp_all add: small_radius_def)
qed

text \<open>
  C37. Everything a packet paints is on the canvas, to its full extent: the two discs of its head
  on the way in, of the reply on its way back, of the market data on its way to the subscribers
  and of the trade on its way to the book, and the ring around a selected order with the width
  of its line. For any bot of a roster without duplicates, whole microsecond traces, any
  progress, and both sizes of dots, rounding included.
\<close>

theorem packets_painted_on_canvas:
  assumes "hypot_ok hypot" and "roster_ok r" and "whole_trace (b_trace (p_f p)) a b c" and "p_s p = boundaries (p_f p)"
    and "progress now p \<noteq> NaN"
  shows "let (hd, dots, ring) = drawPacket hypot (botSlots r) sel p (clamp01 (progress now p)) big in
    list_all disc_on_canvas (concat (map discs dots) @ ring_discs ring)"
proof -
  let ?prog = "clamp01 (progress now p)"
  let ?r = "if big then Fin 8 else Fin (9 / 2)"
  have o: "ordered (p_s p)" using boundaries_ordered [OF assms(3)] assms(4) by simp
  have u: "unit ?prog" using clamp01_unit [OF assms(5)] .
  have hd: "well_inside h" if "packet_head (botSlots r) p ?prog = Some h" for h
    using head_well_inside [OF assms(2) o u that] .
  let ?ge = "js_ge ?prog (snd (snd (snd (p_s p))))"
  have nohead: "?ge" if "packet_head (botSlots r) p ?prog = None"
    using that o u by (auto elim!: orderedE unitE simp: packet_head_def Let_def js_lt_def js_le_def split: if_splits)
  have way: "\<exists>c. polyAt hypot (reply_route (botSlots r) (p_f p)) (ease (reply_t p ?prog)) = Some c \<and> well_inside c" if ?ge
  proof (rule reply_inside [OF assms(1,2)])
    show "ease (reply_t p ?prog) \<noteq> NaN" by (rule ease_bounds [OF reply_t_unit [OF o u that]]) simp
  qed
  note md = md_inside [OF assms(1) reply_t_unit [OF o u]] and tr = trade_inside [OF reply_t_unit [OF o u]]
  note radii = dot_radii [of ?r big, OF refl]
  obtain hd dots ring where d: "drawPacket hypot (botSlots r) sel p ?prog big = (hd, dots, ring)" by (metis prod_cases3)
  have "well_inside (d_at dt) \<and> small_radius (d_r dt)" if "dt \<in> set dots" for dt
  proof (cases ?ge)
    case True
    then show ?thesis using d that way [OF True] hd md [OF True] tr [OF True] radii
      by (auto simp: drawPacket_def Let_def glow_def simp del: js_mul.simps split: option.splits)
  next
    case False
    then show ?thesis using d that hd nohead radii
      by (auto simp: drawPacket_def Let_def glow_def simp del: js_mul.simps split: option.splits)
  qed
  then have "list_all disc_on_canvas (concat (map discs dots))"
    using dot_discs by (auto simp: list_all_iff)
  moreover have "list_all disc_on_canvas (ring_discs ring)"
  proof (cases ring)
    case (Some q)
    obtain c rr where q: "q = (c, rr)" by (cases q)
    have "well_inside c"
      using d Some hd way nohead by (auto simp: q drawPacket_def Let_def split: option.splits if_splits)
    moreover have "rr = js_add ?r (Fin 6)"
      using d Some by (auto simp: q drawPacket_def Let_def split: option.splits if_splits)
    then have "rr = (if big then Fin 14 else Fin (21 / 2))" using fl_sc [of 21 1] by (simp add: sc_def)
    then have "js_add rr (Fin (3 / 4)) = (if big then Fin (59 / 4) else Fin (45 / 4))"
      using fl_sc [of 59 2] fl_sc [of 45 2] by (simp add: sc_def)
    ultimately show ?thesis using inside_disc [of c] by (auto simp: Some q ring_discs_def)
  qed (simp add: ring_discs_def)
  ultimately show ?thesis by (simp add: d)
qed

theorem packets_painted_on_canvas_witness:
  "let (hd, dots, ring) = drawPacket (\<lambda>x y. js_max (js_abs x) (js_abs y)) (botSlots []) (Some ex_timed)
     \<lparr>p_f = ex_timed, p_start = Fin 0, p_dur = Fin 2600, p_s = boundaries ex_timed\<rparr> (clamp01 (Fin 1)) True in
   list_all disc_on_canvas (concat (map discs dots) @ ring_discs ring)"
proof -
  let ?p = "\<lparr>p_f = ex_timed, p_start = Fin 0, p_dur = Fin 2600, p_s = boundaries ex_timed\<rparr>"
    and ?h = "\<lambda>x y. js_max (js_abs x) (js_abs y)"
  have pr: "progress (Fin 2600) ?p = Fin 1" by (simp add: progress_def js_sub_def)
  have h: "hypot_ok ?h" by (auto simp: hypot_ok_def js_max_def max_def)
  have w: "whole_trace (b_trace (p_f ?p)) 12 15 240" "p_s ?p = boundaries (p_f ?p)" "roster_ok []" "progress (Fin 2600) ?p \<noteq> NaN"
    using ex_timed_whole pr by (simp_all add: roster_ok_def)
  show ?thesis
    using packets_painted_on_canvas [OF h w(3,1,2,4), of "Some ex_timed" True] unfolding pr .
qed

end
