(* ===== verification/Scenery.thy ===== *)
theory Scenery
  imports Canvas Panels
begin

text \<open>
  The scenery of the animation, the part of \<^verbatim>\<open>draw\<close> in \<^verbatim>\<open>web/src/components/Scope.tsx\<close> that comes
  before the packets: grid, connecting lines, bots, boxes and captions, as the list of painting
  operations in the order of the code; and the size of the canvas with the transformation
  that maps the 1200 by 440 diagram to its pixels. Fonts are left out. The theorem is that no line and
  no box leaves the diagram.
\<close>

section \<open>Painting operations\<close>

definition BOT_H :: jsnum where "BOT_H = Fin 24"
definition SUB_labels :: "string list" where
  "SUB_labels = [''bots'' @ [CHR 0x27] @ '' feeds'', ''this page'']"

definition C_bg :: string where "C_bg = ''#0a1320''"
definition C_grid :: string where "C_grid = ''#122338''"
definition C_line :: string where "C_line = ''#2a4460''"
definition C_text :: string where "C_text = ''#c9dcef''"
definition C_dim :: string where "C_dim = ''#6f89a6''"
definition C_cyan :: string where "C_cyan = ''#56d4ff''"
definition C_bid :: string where "C_bid = ''#2fd1a0''"
definition C_ask :: string where "C_ask = ''#ff7a6b''"
definition C_human :: string where "C_human = ''#ffb938''"
definition C_queued :: string where "C_queued = ''#7fb2ff''"

datatype fill = Hex string | Rgba nat nat nat jsnum

text \<open>A segment of a path is a line or a Bezier curve with its two control points.\<close>

datatype seg = Seg pt pt | Bezier pt pt pt pt

datatype paint_op =
  FillRect string jsnum box
| StrokePath string jsnum bool "seg list"
| RoundBox fill string jsnum jsnum box
| Caption string bool string pt

definition mk_box :: "jsnum \<Rightarrow> jsnum \<Rightarrow> jsnum \<Rightarrow> jsnum \<Rightarrow> box" where
  "mk_box x y w h = \<lparr>bx = x, by' = y, bw = w, bh = h\<rparr>"

text \<open>\<^verbatim>\<open>for (let x = 0; x <= limit; x += 40)\<close>, for the two limits of the source.\<close>

definition ticks40 :: "nat \<Rightarrow> jsnum list" where
  "ticks40 limit = map (\<lambda>i. js_int (int (40 * i))) [0..<limit div 40 + 1]"

definition grid :: paint_op where
  "grid = StrokePath C_grid (Fin 1) False
     (map (\<lambda>x. Seg (x, Fin 0) (x, H)) (ticks40 1200) @ map (\<lambda>y. Seg (Fin 0, y) (W, y)) (ticks40 440))"

definition wires :: "(string, nat) omap \<Rightarrow> paint_op" where
  "wires slots = StrokePath C_line (Fin (3 / 2)) False
     (map (\<lambda>(nid, i). let y = botY slots nid
        in Bezier (js_add BOT_X BOT_W, y) (Fin 200, y) (Fin 210, Fin 220) (bx GRPC, Fin 220)) slots @
      [Seg (js_add (bx GRPC) (bw GRPC), Fin 220) (bx QUEUE, Fin 220),
       Seg (js_add (bx QUEUE) (bw QUEUE), Fin 220) (bx ENGINE, Fin 220),
       Seg (js_add (bx ENGINE) (js_div (bw ENGINE) (Fin 2)), js_add (by' ENGINE) (bh ENGINE))
         (js_add (bx BOOK) (js_div (bw BOOK) (Fin 2)), by' BOOK),
       Seg (js_add (bx ENGINE) (bw ENGINE), Fin 220) (bx FAN, Fin 220)] @
      map (\<lambda>s. Bezier (js_add (bx FAN) (bw FAN), Fin 220) (Fin 1090, Fin 220)
        (Fin 1090, js_add (snd s) (Fin 12)) (fst s, js_add (snd s) (Fin 12))) SUBS)"

definition reply_wire :: paint_op where
  "reply_wire =
     (let ex = js_add (bx ENGINE) (Fin 30); ey = js_add (by' ENGINE) (bh ENGINE); gx = js_add (bx GRPC) (Fin 60)
      in StrokePath ''#35597a'' (Fin (3 / 2)) True
        [Seg (ex, ey) (ex, Fin 300), Seg (ex, Fin 300) (gx, Fin 300),
         Seg (gx, Fin 300) (gx, js_add (by' GRPC) (bh GRPC))])"

definition bot_ops :: "jsnum \<Rightarrow> scope \<Rightarrow> (string, nat) omap \<Rightarrow> string \<Rightarrow> paint_op list" where
  "bot_ops now s slots nid =
     (let y = botY slots nid; human = (nid = ''human''); a = bot_alpha now s nid
      in [RoundBox (if human then Rgba 255 185 56 a else Rgba 86 212 255 a) (if human then C_human else ''#34607f'')
            (Fin (3 / 2)) (Fin 5) (mk_box BOT_X (js_sub y (js_div BOT_H (Fin 2))) BOT_W BOT_H),
          Caption (if human then C_human else C_text) False (if human then ''you'' else nid)
            (js_add BOT_X (Fin 10), js_add y (Fin (1 / 2)))])"

text \<open>\<^verbatim>\<open>node\<close>\<close>

definition node_ops :: "box \<Rightarrow> string \<Rightarrow> string \<Rightarrow> bool \<Rightarrow> paint_op list" where
  "node_ops n title sub busy =
     (let cx = js_add (bx n) (js_div (bw n) (Fin 2)); cy = js_add (by' n) (js_div (bh n) (Fin 2))
      in [RoundBox (Hex (if busy then ''#12304a'' else ''#0e1c2e'')) (if busy then C_cyan else C_line)
            (if busy then Fin 2 else Fin (3 / 2)) (Fin 10) n,
          Caption C_text True title (cx, js_sub cy (Fin 6)), Caption C_dim True sub (cx, js_add cy (Fin 12))])"

definition queue_ops :: "nat \<Rightarrow> paint_op list" where
  "queue_ops q =
     RoundBox (Hex ''#0e1c2e'') C_line (Fin (3 / 2)) (Fin 8)
       (mk_box (js_sub (bx QUEUE) (Fin 8)) (js_sub (by' QUEUE) (Fin 22)) (js_add (bw QUEUE) (Fin 16)) (js_add (bh QUEUE) (Fin 44))) #
     map (\<lambda>(filled, x, w). FillRect (if filled then C_queued else ''#13273d'') (Fin 1) (mk_box x (by' QUEUE) w (bh QUEUE)))
       (queue_cells q) @
     (let cx = js_add (bx QUEUE) (js_div (bw QUEUE) (Fin 2))
      in [Caption C_text True ''MPSC queue'' (cx, js_add (js_sub (by' QUEUE) (Fin 36)) (Fin 12)),
          Caption C_dim True ''lock-free, many producers, one consumer''
            (cx, js_add (js_add (by' QUEUE) (bh QUEUE)) (Fin 36))])"

definition book_ops :: "bool \<Rightarrow> wire_book option \<Rightarrow> paint_op list" where
  "book_ops flash bk =
     RoundBox (Hex ''#0e1c2e'') (if flash then C_cyan else C_line) (Fin (3 / 2)) (Fin 8) BOOK #
     (case bk of None \<Rightarrow> []
      | Some b \<Rightarrow> map (\<lambda>(sd, y, w). FillRect (if sd = Ask then C_ask else C_bid) (lit (85 / 100))
          (mk_box (js_add (bx BOOK) (Fin 60)) y w (Fin 4))) (depth_bars b)) @
     [Caption C_text False ''Order book'' (js_add (bx BOOK) (Fin 10), js_add (by' BOOK) (Fin 80)),
      Caption C_dim False ''depth'' (js_add (bx BOOK) (Fin 10), js_add (by' BOOK) (Fin 14))]"

definition sub_ops :: "pt \<times> string \<Rightarrow> paint_op list" where
  "sub_ops sl =
     (case sl of ((x, y), label) \<Rightarrow>
        [RoundBox (Hex ''#0e1c2e'') ''#34607f'' (Fin (3 / 2)) (Fin 5) (mk_box (js_sub x (Fin 20)) y (Fin 100) (Fin 24)),
         Caption C_text False label (js_sub x (Fin 12), js_add y (Fin (25 / 2)))])"

definition scenery :: "jsnum \<Rightarrow> scope \<Rightarrow> feed \<Rightarrow> paint_op list option" where
  "scenery now s f =
     (case indexAt (f_frames f) (f_vt f) of
        None \<Rightarrow> None
      | Some idx \<Rightarrow>
          let slots = botSlots (f_roster f)
          in Some ([FillRect C_bg (Fin 1) (mk_box (Fin 0) (Fin 0) W H), grid, wires slots, reply_wire] @
               concat (map (\<lambda>(nid, i). bot_ops now s slots nid) slots) @
               node_ops GRPC ''gRPC handlers'' ''one thread per call'' False @
               queue_ops (inQueue now s) @
               node_ops ENGINE ''Matching engine'' ''one thread, busy-spins'' (engineBusy now s) @
               book_ops (book_flashes now s) (bookAt (f_frames f) idx) @
               node_ops FAN ''Market data'' ''queue per subscriber'' False @
               concat (map sub_ops (zip SUBS SUB_labels))))"

section \<open>The size of the canvas\<close>

text \<open>\<^verbatim>\<open>resize\<close>: the width and height in pixels; \<open>dpr\<close> is \<^verbatim>\<open>window.devicePixelRatio\<close>, which may
  be absent. \<open>scale\<close> is the factor of the transformation set before painting.\<close>

definition resize :: "jsnum option \<Rightarrow> jsnum \<Rightarrow> jsnum \<times> jsnum" where
  "resize dpr w =
     (let d = js_min (case dpr of None \<Rightarrow> Fin 1 | Some r \<Rightarrow> if r = Fin 0 \<or> r = NaN then Fin 1 else r) (Fin 2)
      in (js_round (js_mul w d), js_round (js_mul (js_mul w (js_div H W)) d)))"

definition scale :: "jsnum \<Rightarrow> jsnum \<Rightarrow> jsnum" where
  "scale cv_width clientWidth = js_mul (js_div clientWidth W) (js_div cv_width clientWidth)"

section \<open>Nothing leaves the diagram\<close>

fun seg_pts :: "seg \<Rightarrow> pt list" where
  "seg_pts (Seg a b) = [a, b]"
| "seg_pts (Bezier a b c d) = [a, b, c, d]"

definition box_on_canvas :: "box \<Rightarrow> bool" where
  "box_on_canvas b \<longleftrightarrow> on_canvas (bx b, by' b) \<and> on_canvas (js_add (bx b) (bw b), js_add (by' b) (bh b)) \<and>
     js_le (Fin 0) (bw b) \<and> js_le (Fin 0) (bh b)"

fun op_on_canvas :: "paint_op \<Rightarrow> bool" where
  "op_on_canvas (FillRect c a b) = box_on_canvas b"
| "op_on_canvas (StrokePath c w dash segs) = list_all on_canvas (concat (map seg_pts segs))"
| "op_on_canvas (RoundBox fc st w r b) = box_on_canvas b"
| "op_on_canvas (Caption c ctr txt p) = on_canvas p"

lemmas scenery_defs = W_def H_def BOT_X_def BOT_W_def BOT_H_def GRPC_def QUEUE_def ENGINE_def BOOK_def FAN_def SUBS_def
  mk_box_def box_on_canvas_def on_canvas_def js_le_def js_sub_def Let_def

lemma grid_on_canvas: "op_on_canvas grid"
  by (simp add: grid_def ticks40_def scenery_defs upt_conv_Cons)

lemma reply_wire_on_canvas: "op_on_canvas reply_wire"
  by (simp add: reply_wire_def scenery_defs)

lemma nodes_on_canvas:
  "list_all op_on_canvas (node_ops GRPC t s b)" "list_all op_on_canvas (node_ops ENGINE t s b)" "list_all op_on_canvas (node_ops FAN t s b)"
  by (simp_all add: node_ops_def scenery_defs)

lemma subs_on_canvas: "list_all op_on_canvas (concat (map sub_ops (zip SUBS SUB_labels)))"
proof -
  have "fl (281 / 2) = Fin (281 / 2)" "fl (605 / 2) = Fin (605 / 2)"
    using fl_sc [of 281 1] fl_sc [of 605 1] by (simp_all add: sc_def)
  then show ?thesis by (simp add: sub_ops_def SUB_labels_def scenery_defs)
qed

lemma queue_on_canvas: "list_all op_on_canvas (queue_ops q)"
  by (simp add: queue_ops_def queue_cells_def QUEUE_slots_def scenery_defs upt_conv_Cons)

lemma wires_on_canvas:
  assumes "roster_ok r"
  shows "op_on_canvas (wires (botSlots r))"
proof -
  have "list_all on_canvas (seg_pts (let y = botY (botSlots r) nid
      in Bezier (js_add BOT_X BOT_W, y) (Fin 200, y) (Fin 210, Fin 220) (bx GRPC, Fin 220)))" for nid
    by (rule botY_bounds [OF assms, of nid]) (simp add: scenery_defs)
  then show ?thesis by (simp add: wires_def) (simp add: scenery_defs list_all_iff split_beta)
qed

lemma bots_on_canvas:
  assumes "roster_ok r"
  shows "list_all op_on_canvas (bot_ops now s (botSlots r) nid)"
proof -
  obtain y where y: "botY (botSlots r) nid = Fin y" "36 \<le> y" "y \<le> 398" by (rule botY_bounds [OF assms])
  obtain z where z: "fl (y - 12) = Fin z" "24 \<le> z" "z \<le> 386"
    using y(2,3) fl_in [of 24 "y - 12" 386] by (auto simp: safe_int_def)
  obtain u where u: "fl (z + 24) = Fin u" "48 \<le> u" "u \<le> 410"
    using z(2,3) fl_in [of 48 "z + 24" 410] by (auto simp: safe_int_def)
  obtain v where v: "fl (y + 1 / 2) = Fin v" "36 \<le> v" "v \<le> 399"
    using y(2,3) fl_in [of 36 "y + 1 / 2" 399] by (auto simp: safe_int_def)
  show ?thesis using y z u v by (simp add: bot_ops_def scenery_defs)
qed

lemma nth_opt_take:
  assumes "nth_opt xs i = Some l" and "i < n"
  shows "l \<in> set (take n xs)"
proof -
  have "take n xs ! i = l" "i < length (take n xs)" using assms by (auto simp: nth_opt_def split: if_splits)
  then show ?thesis by (metis nth_mem)
qed

lemma depth_bars_level:
  assumes "(sd, y, w) \<in> set (depth_bars b)"
  obtains i l where "i < 5" "l \<in> set (take 5 (bk_bids b)) \<union> set (take 5 (bk_asks b))"
    "w = js_mul (js_div (fst (snd l)) (depth_max b)) (Fin 52)"
    "y = js_sub (Fin 346) (js_mul (js_int (int i)) (Fin 5)) \<or> y = js_add (Fin 358) (js_mul (js_int (int i)) (Fin 5))"
proof -
  have c: "js_add (by' BOOK) (Fin 28) = Fin 346" "js_add (by' BOOK) (Fin 40) = Fin 358" by (simp_all add: BOOK_def)
  obtain i where i: "i < 5" and m: "(sd, y, w) \<in> set (
       (case nth_opt (bk_asks b) i of None \<Rightarrow> []
        | Some l \<Rightarrow> [(Ask, js_sub (Fin 346) (js_mul (js_int (int i)) (Fin 5)), js_mul (js_div (fst (snd l)) (depth_max b)) (Fin 52))]) @
       (case nth_opt (bk_bids b) i of None \<Rightarrow> []
        | Some l \<Rightarrow> [(Bid, js_add (Fin 358) (js_mul (js_int (int i)) (Fin 5)), js_mul (js_div (fst (snd l)) (depth_max b)) (Fin 52))]))"
    using assms unfolding depth_bars_def c set_concat set_map by (elim UN_E imageE) (simp only: set_upt, metis atLeastLessThan_iff)
  show thesis
  proof (cases "sd = Ask")
    case True
    with m obtain l where "nth_opt (bk_asks b) i = Some l" "y = js_sub (Fin 346) (js_mul (js_int (int i)) (Fin 5))"
      "w = js_mul (js_div (fst (snd l)) (depth_max b)) (Fin 52)"
      by (cases "nth_opt (bk_asks b) i"; cases "nth_opt (bk_bids b) i") (simp_all del: js_add.simps js_mul.simps)
    then show ?thesis using nth_opt_take [of "bk_asks b" i l 5] i by (intro that [OF i, of l]) (simp_all only: Un_iff simp_thms)
  next
    case False
    with m obtain l where "nth_opt (bk_bids b) i = Some l" "y = js_add (Fin 358) (js_mul (js_int (int i)) (Fin 5))"
      "w = js_mul (js_div (fst (snd l)) (depth_max b)) (Fin 52)"
      by (cases "nth_opt (bk_asks b) i"; cases "nth_opt (bk_bids b) i") (simp_all del: js_add.simps js_mul.simps)
    then show ?thesis using nth_opt_take [of "bk_bids b" i l 5] i by (intro that [OF i, of l]) (simp_all only: Un_iff simp_thms)
  qed
qed

lemma book_on_canvas:
  assumes "\<forall>b. bk = Some b \<longrightarrow> (\<forall>l \<in> set (bk_bids b) \<union> set (bk_asks b). sane_level l)"
  shows "list_all op_on_canvas (book_ops flash bk)"
proof -
  have bar: "box_on_canvas (mk_box (js_add (bx BOOK) (Fin 60)) y w (Fin 4))"
    if b: "bk = Some b" and i: "(sd, y, w) \<in> set (depth_bars b)" for b sd y w
  proof -
    have mx: "depth_max b = lad_max (take 5 (bk_bids b)) (take 5 (bk_asks b))" by (simp add: depth_max_def lad_max_def)
    have sane: "\<forall>l \<in> set (take 5 (bk_bids b)) \<union> set (take 5 (bk_asks b)). sane_level l"
      using assms b by (auto dest: in_set_takeD)
    obtain i l where il: "i < 5" "l \<in> set (take 5 (bk_bids b)) \<union> set (take 5 (bk_asks b))"
      "w = js_mul (js_div (fst (snd l)) (depth_max b)) (Fin 52)"
      "y = js_sub (Fin 346) (js_mul (js_int (int i)) (Fin 5)) \<or> y = js_add (Fin 358) (js_mul (js_int (int i)) (Fin 5))"
      by (rule depth_bars_level [OF i])
    obtain x where x: "js_div (fst (snd l)) (depth_max b) = Fin x" "0 \<le> x" "x \<le> 1"
      unfolding mx by (rule unitE [OF level_share [OF il(2) sane]])
    obtain v where v: "w = Fin v" "0 \<le> v" "v \<le> 52"
      using x il(3) fl_in [of 0 "x * 52" 52] by (auto simp: safe_int_def)
    obtain u where u: "fl (830 + v) = Fin u" "830 \<le> u" "u \<le> 882"
      using v fl_in [of 830 "830 + v" 882] by (auto simp: safe_int_def)
    have "i = 0 \<or> i = 1 \<or> i = 2 \<or> i = 3 \<or> i = 4" using il(1) by auto
    then obtain y' where "y = Fin y'" "y' \<in> {326, 331, 336, 341, 346, 358, 363, 368, 373, 378}"
      using il(4) by (auto simp: js_sub_def)
    then show ?thesis using v u by (auto simp: scenery_defs)
  qed
  show ?thesis
    using bar by (auto simp: book_ops_def list_all_iff) (auto simp: scenery_defs)
qed

text \<open>
  The diagram fits: for a roster without repetition and a book of sane quantities, every segment,
  curve with its control points, box and caption of the scenery lies inside the 1200 by 440
  diagram, whatever is on the move, rounding included.
\<close>

lemma scenery_on_canvas:
  assumes "roster_ok (f_roster f)" and "scenery now s f = Some ops"
    and "\<And>idx b. bookAt (f_frames f) idx = Some b \<Longrightarrow> \<forall>l \<in> set (bk_bids b) \<union> set (bk_asks b). sane_level l"
  shows "list_all op_on_canvas ops"
proof -
  obtain idx where idx: "indexAt (f_frames f) (f_vt f) = Some idx"
    using assms(2) by (auto simp: scenery_def split: option.splits)
  have ops: "ops = [FillRect C_bg (Fin 1) (mk_box (Fin 0) (Fin 0) W H), grid, wires (botSlots (f_roster f)), reply_wire] @
               concat (map (\<lambda>(nid, i). bot_ops now s (botSlots (f_roster f)) nid) (botSlots (f_roster f))) @
               node_ops GRPC ''gRPC handlers'' ''one thread per call'' False @
               queue_ops (inQueue now s) @
               node_ops ENGINE ''Matching engine'' ''one thread, busy-spins'' (engineBusy now s) @
               book_ops (book_flashes now s) (bookAt (f_frames f) idx) @
               node_ops FAN ''Market data'' ''queue per subscriber'' False @
               concat (map sub_ops (zip SUBS SUB_labels))"
    using assms(2) unfolding scenery_def idx by (simp add: Let_def)
  have bg: "op_on_canvas (FillRect C_bg (Fin 1) (mk_box (Fin 0) (Fin 0) W H))" by (simp add: scenery_defs)
  have bots: "list_all op_on_canvas (concat (map (\<lambda>(nid, i). bot_ops now s (botSlots (f_roster f)) nid) xs))" for xs :: "(string \<times> nat) list"
    using bots_on_canvas [OF assms(1)] by (induction xs) auto
  have "list_all op_on_canvas (book_ops (book_flashes now s) (bookAt (f_frames f) idx))"
    using assms(3) by (intro book_on_canvas) auto
  with bg bots wires_on_canvas [OF assms(1)] show ?thesis
    unfolding ops by (simp only: list_all_append list.pred_inject grid_on_canvas reply_wire_on_canvas nodes_on_canvas
        subs_on_canvas queue_on_canvas simp_thms)
qed

end
