(* ===== verification/Launch.thy ===== *)
theory Launch
  imports Gateway Format
begin

text \<open>
  Starting and stopping: the command line of \<^verbatim>\<open>web/gateway/server.ts\<close>, the demo mode with its
  child processes, the shutdown, and the address under which \<^verbatim>\<open>web/src/feed.ts\<close> looks for the
  gateway. Whether a file exists is a predicate; spawning and killing a process are entries
  of a log.
\<close>

section \<open>The command line\<close>

text \<open>\<^verbatim>\<open>split("=")\<close>.\<close>

fun split_eq :: "string \<Rightarrow> string list" where
  "split_eq [] = [[]]"
| "split_eq (c # s) = (if c = CHR ''='' then [] # split_eq s
     else case split_eq s of w # ws \<Rightarrow> (c # w) # ws | [] \<Rightarrow> [[c]])"

definition strip_dashes :: "string \<Rightarrow> string" where
  "strip_dashes a = (if take 2 a = ''--'' then drop 2 a else a)"

definition parse_arg :: "string \<Rightarrow> string \<times> string" where
  "parse_arg a = (case split_eq (strip_dashes a) of
     k # v # _ \<Rightarrow> (k, v) | [k] \<Rightarrow> (k, ''true'') | [] \<Rightarrow> ([], ''true''))"

definition parse_args :: "string list \<Rightarrow> (string, string) omap" where
  "parse_args argv = foldl (\<lambda>m a. case parse_arg a of (k, v) \<Rightarrow> omap_set k v m) [] argv"

definition EXCHANGE :: "(string, string) omap \<Rightarrow> string" where
  "EXCHANGE args = (case omap_get args ''exchange'' of None \<Rightarrow> ''localhost:50051'' | Some v \<Rightarrow> v)"

definition PORT :: "(string, string) omap \<Rightarrow> jsnum" where
  "PORT args = (case omap_get args ''port'' of None \<Rightarrow> Fin 8787 | Some v \<Rightarrow> to_number v)"

text \<open>The page: an address set at build time, or this host.\<close>

definition GATEWAY_URL :: "string option \<Rightarrow> string \<Rightarrow> string" where
  "GATEWAY_URL vite host = (case vite of Some u \<Rightarrow> u
     | None \<Rightarrow> ''ws://'' @ (if host = [] then ''localhost'' else host) @ '':8787'')"

definition LOCAL_HOSTS :: "string list" where
  "LOCAL_HOSTS = [''localhost'', ''127.0.0.1'', ''[::1]'', []]"

definition GATEWAY_REACHABLE :: "string option \<Rightarrow> string \<Rightarrow> bool" where
  "GATEWAY_REACHABLE vite host \<longleftrightarrow> (case vite of Some u \<Rightarrow> u \<noteq> [] | None \<Rightarrow> False) \<or> host \<in> set LOCAL_HOSTS"

section \<open>The demo\<close>

text \<open>A command: the build directory, the program, its arguments.\<close>

datatype command = Command (cmd_dir: string) (cmd_exe: string) (cmd_args: "string list")

datatype proc_effect = Spawn nat command | Kill nat | Exit int

record server =
  sv_gw :: gateway
  sv_children :: "(nat \<times> command) list"
  sv_timer :: "string option"
  sv_log :: "proc_effect list"
  sv_exited :: bool

definition run_cmd :: "command \<Rightarrow> server \<Rightarrow> server" where
  "run_cmd c s = (let i = length (sv_children s)
     in s\<lparr>sv_children := sv_children s @ [(i, c)], sv_log := sv_log s @ [Spawn i c]\<rparr>)"

definition build_dir :: "(string \<Rightarrow> bool) \<Rightarrow> string option" where
  "build_dir exists = find exists [''build-release'', ''build'']"

definition startDemo :: "(string \<Rightarrow> bool) \<Rightarrow> server \<Rightarrow> server" where
  "startDemo exists s =
     (case build_dir exists of
        None \<Rightarrow> s
      | Some d \<Rightarrow> (run_cmd (Command d ''exchangeService.exe'' []) s)\<lparr>sv_timer := Some d\<rparr>)"

text \<open>The callback of the timer, 1500 ms later.\<close>

definition demo_timer :: "string \<Rightarrow> string \<Rightarrow> server \<Rightarrow> server" where
  "demo_timer exchange replayFile s =
     (case sv_timer s of
        None \<Rightarrow> s
      | Some d \<Rightarrow> foldl (\<lambda>s b. run_cmd (Command d ''node.exe'' (bot_argv exchange replayFile b)) s)
          (s\<lparr>sv_timer := None\<rparr>) ROSTER)"

definition shutdown :: "server \<Rightarrow> server" where
  "shutdown s =
     s\<lparr>sv_gw := stopRecording (sv_gw s),
       sv_log := sv_log s @ map (\<lambda>(i, c). Kill i) (sv_children s) @ [Exit 0],
       sv_timer := None, sv_exited := True\<rparr>"

text \<open>The module body after the sockets are set up: demo, recorder, subscription; \<open>file\<close> is the name
  that \<^verbatim>\<open>startRecording\<close> makes from the date.\<close>

definition launch :: "string list \<Rightarrow> (string \<Rightarrow> bool) \<Rightarrow> string \<Rightarrow> server" where
  "launch argv exists file =
     (let args = parse_args argv;
          s0 = \<lparr>sv_gw = new_gateway, sv_children = [], sv_timer = None, sv_log = [], sv_exited = False\<rparr>;
          s1 = (if omap_get args ''demo'' \<noteq> None then startDemo exists s0 else s0)
      in s1\<lparr>sv_gw := gw_start (if omap_get args ''record'' \<noteq> None then Some file else None)\<rparr>)"

section \<open>Arguments read back\<close>

lemma split_eq_plain: "CHR ''='' \<notin> set v \<Longrightarrow> split_eq v = [v]"
  by (induction v) auto

lemma split_eq_pair:
  assumes "CHR ''='' \<notin> set k" and "CHR ''='' \<notin> set v"
  shows "split_eq (k @ CHR ''='' # v) = [k, v]"
  using assms by (induction k) (auto simp: split_eq_plain)

lemma parse_arg_pair:
  "CHR ''='' \<notin> set k \<Longrightarrow> CHR ''='' \<notin> set v \<Longrightarrow> parse_arg (''--'' @ k @ ''='' @ v) = (k, v)"
  by (simp add: parse_arg_def strip_dashes_def split_eq_pair)

lemma parse_args_append:
  "parse_args (argv @ [a]) = (case parse_arg a of (k, v) \<Rightarrow> omap_set k v (parse_args argv))"
  by (simp add: parse_args_def)

lemma parse_args_read_back:
  assumes "distinct (map fst kvs)" and "\<forall>(k, v) \<in> set kvs. CHR ''='' \<notin> set k \<union> set v"
  shows "omap_get (parse_args (map (\<lambda>(k, v). ''--'' @ k @ ''='' @ v) kvs)) = omap_get kvs"
  using assms
proof (induction kvs rule: rev_induct)
  case (snoc kv kvs)
  obtain k v where kv: "kv = (k, v)" by (cases kv)
  then have "parse_arg (''--'' @ k @ ''='' @ v) = (k, v)" using snoc.prems(2) by (intro parse_arg_pair) auto
  then have "omap_get (parse_args (map (\<lambda>(k, v). ''--'' @ k @ ''='' @ v) (kvs @ [kv]))) = (omap_get kvs)(k \<mapsto> v)"
    using snoc by (simp add: kv parse_args_append omap.get_put)
  also have "\<dots> = omap_get (kvs @ [kv])"
  proof -
    have "omap_get kvs k = None" using snoc.prems(1) by (simp add: kv map_of_eq_None_iff)
    then show ?thesis by (auto simp: kv map_add_def fun_eq_iff split: option.split)
  qed
  finally show ?case .
qed (simp add: parse_args_def)

lemma default_port_matches: "GATEWAY_URL None host = ''ws://'' @ (if host = [] then ''localhost'' else host) @ '':'' @ toFixed 0 (PORT [])"
proof -
  have "\<lfloor>(8787 :: rat) + 1 / 2\<rfloor> = 8787" by (intro floor_unique) simp_all
  moreover have "digits 8787 = ''8787''" by (simp add: digits.simps digit_def) code_simp
  ultimately show ?thesis by (simp add: GATEWAY_URL_def PORT_def fixed_pos_def round_up_def)
qed

section \<open>The demo starts and stops\<close>

lemma run_one:
  "sv_children (run_cmd c s) = sv_children s @ [(length (sv_children s), c)]"
  "sv_log (run_cmd c s) = sv_log s @ [Spawn (length (sv_children s)) c]" "sv_gw (run_cmd c s) = sv_gw s"
  by (simp_all add: run_cmd_def Let_def)

lemma run_cmds:
  "sv_children (foldl (\<lambda>s b. run_cmd (g b) s) s bs) =
     sv_children s @ enumerate (length (sv_children s)) (map g bs) \<and>
   sv_log (foldl (\<lambda>s b. run_cmd (g b) s) s bs) =
     sv_log s @ map (\<lambda>(i, c). Spawn i c) (enumerate (length (sv_children s)) (map g bs)) \<and>
   sv_gw (foldl (\<lambda>s b. run_cmd (g b) s) s bs) = sv_gw s"
  by (induction bs arbitrary: s) (simp_all add: run_one)

text \<open>
  The demo starts everyone and leaves nobody behind. Started with \<^verbatim>\<open>--demo\<close> where a build exists,
  the gateway starts the exchange and then, when the timer has fired, exactly one process per
  bot of the roster, in its order, from the same build (the release build if there is one) and
  connected to the configured exchange; without a build nothing is started. A shutdown
  ends the recording, kills every process that was started, each once, and exits.
\<close>

lemma demo_leaves_no_process:
  assumes "omap_get (parse_args argv) ''demo'' \<noteq> None"
  shows "let ex = EXCHANGE (parse_args argv); s = demo_timer ex rf (launch argv exists file); s' = shutdown s;
      cmds = (case build_dir exists of
          None \<Rightarrow> []
        | Some d \<Rightarrow> Command d ''exchangeService.exe'' [] # map (\<lambda>b. Command d ''node.exe'' (bot_argv ex rf b)) ROSTER)
    in sv_log s = map (\<lambda>(i, c). Spawn i c) (enumerate 0 cmds) \<and>
       sv_log s' = sv_log s @ map Kill [0..<length cmds] @ [Exit 0] \<and>
       g_recorder (sv_gw s') = None \<and>
       (\<forall>d. build_dir exists = Some d \<longrightarrow> exists d \<and> (exists ''build-release'' \<longrightarrow> d = ''build-release''))"
proof -
  let ?ex = "EXCHANGE (parse_args argv)"
  let ?s = "demo_timer ?ex rf (launch argv exists file)"
  define cmds where "cmds = (case build_dir exists of
          None \<Rightarrow> []
        | Some d \<Rightarrow> Command d ''exchangeService.exe'' [] # map (\<lambda>b. Command d ''node.exe'' (bot_argv ?ex rf b)) ROSTER)"
  have s: "sv_log ?s = map (\<lambda>(i, c). Spawn i c) (enumerate 0 cmds)" "sv_children ?s = enumerate 0 cmds"
    using assms run_cmds [of "\<lambda>b. Command d ''node.exe'' (bot_argv ?ex rf b)" _ ROSTER for d]
    by (auto simp: launch_def startDemo_def demo_timer_def Let_def cmds_def run_one split: option.split)
  have k: "map (\<lambda>(i, c). Kill i) (enumerate 0 cmds) = map Kill [0..<length cmds]"
    by (rule nth_equalityI) (simp_all add: nth_enumerate_eq)
  have r: "g_recorder (stopRecording g) = None" for g
    by (cases "g_recorder g") (simp_all add: stopRecording_def Let_def)
  have d: "exists d \<and> (exists ''build-release'' \<longrightarrow> d = ''build-release'')" if "build_dir exists = Some d" for d
    using that by (auto simp: build_dir_def split: if_splits)
  show ?thesis unfolding Let_def using s k r d by (simp add: shutdown_def flip: cmds_def)
qed

theorem demo_leaves_no_process_witness:
  "sv_log (shutdown (demo_timer ''localhost:50051'' [] (launch [''--demo''] (\<lambda>d. d = ''build'') []))) =
     map (\<lambda>(i, c). Spawn i c) (enumerate 0 (Command ''build'' ''exchangeService.exe'' [] #
       map (\<lambda>b. Command ''build'' ''node.exe'' (bot_argv ''localhost:50051'' [] b)) ROSTER)) @ map Kill [0..<11] @ [Exit 0]"
proof -
  have "omap_get (parse_args [''--demo'']) ''demo'' \<noteq> None" "EXCHANGE (parse_args [''--demo'']) = ''localhost:50051''"
    "build_dir (\<lambda>d. d = ''build'') = Some ''build''" "length ROSTER = 10" by code_simp+
  from demo_leaves_no_process [OF this(1), of "[]" "\<lambda>d. d = ''build''" "[]"] this
  show ?thesis by (simp add: Let_def del: upt_conv_Cons)
qed

end
