(* ===== verification/Order_Book.thy ===== *)
theory Order_Book
  imports Prelude Format
begin

text \<open>
  The order book of the exchange, \<^verbatim>\<open>exchange/OrderProcessor/engine/orderBook.{h,cpp}\<close>: two maps
  from prices to queues of resting orders, ordered best price first, and an index from order ids to
  the place where the order rests.

  Prices are binary64 values. Quantities are 64-bit signed integers in the source; their overflow
  is undefined there, and the model computes with unbounded ones (matching stays within the
  quantity of the order, \<open>submission_conserves_quantity\<close>). An iterator into a queue is the id of the order
  it points to: ids are unique in a book (\<open>book_ok\<close>). Following an iterator of a missing level is
  undefined behaviour, the value \<open>None\<close>.

  This theory holds the data and the operations; \<open>Price_Time\<close> relates the loops to a reference on
  flat lists, and \<open>Book_Laws\<close> states what a book promises.
\<close>

section \<open>Data\<close>

text \<open>The enumerations are \<^verbatim>\<open>int\<close> wide and filled by casts, so that other values can occur.\<close>

datatype order_side = SIDE_UNSPECIFIED | BID | ASK | Other_side int
datatype order_type = ORDER_TYPE_UNSPECIFIED | MARKET | LIMIT | Other_type int
datatype order_status = ORDER_STATUS_UNSPECIFIED | FILLED | PARTIAL | QUEUED | REJECTED

record xorder =
  od_side :: order_side
  od_type :: order_type
  od_price :: jsnum
  od_qty :: int
  od_id :: string
  od_node :: string

record trade =
  td_id :: string
  td_price :: jsnum
  td_qty :: int
  td_side :: order_side
  td_aggressor :: string
  td_resting :: string
  td_time :: int

record top_of_book =
  tp_bid :: "jsnum option"
  tp_bidQty :: "int option"
  tp_ask :: "jsnum option"
  tp_askQty :: "int option"
  tp_time :: int

datatype market_event = Monostate | Trade trade | Top top_of_book

record engine_result =
  er_status :: order_status
  er_orderId :: string
  er_filled :: int
  er_avg :: jsnum
  er_time :: int
  er_reason :: string
  er_cancelOk :: bool

record depth_level =
  dl_price :: jsnum
  dl_qty :: int
  dl_orders :: nat

record book_depth =
  dp_bids :: "depth_level list"
  dp_asks :: "depth_level list"

type_synonym book_side = "(jsnum \<times> xorder list) list"
type_synonym index = "(string, order_side \<times> jsnum) omap"

record book =
  ob_bids :: book_side
  ob_asks :: book_side
  ob_index :: index

definition empty_book :: book where
  "empty_book = \<lparr>ob_bids = [], ob_asks = [], ob_index = []\<rparr>"

definition reduceQuantity :: "int \<Rightarrow> xorder \<Rightarrow> xorder" where
  "reduceQuantity n r = r\<lparr>od_qty := od_qty r - n\<rparr>"

text \<open>The values of a \<^verbatim>\<open>double\<close> and the text that \<^verbatim>\<open>std::to_string\<close> give for an integer.\<close>

definition dbl :: "int \<Rightarrow> jsnum" where
  "dbl i = fl (of_int i)"

definition int_text :: "int \<Rightarrow> string" where
  "int_text i = (if i < 0 then CHR ''-'' # digits (nat (- i)) else digits (nat i))"

definition trade_id :: "nat \<Rightarrow> string" where
  "trade_id n = ''TRD-'' @ digits n"

section \<open>The ordered maps\<close>

text \<open>
  \<^verbatim>\<open>_asks[price].push_back(order)\<close> and erasing an order, on the list of the levels in the order
  of the map: \<open>before\<close> is its comparison, \<^verbatim>\<open>std::less\<close> for asks and \<^verbatim>\<open>std::greater\<close> for bids.
\<close>

fun level_push :: "(jsnum \<Rightarrow> jsnum \<Rightarrow> bool) \<Rightarrow> xorder \<Rightarrow> book_side \<Rightarrow> book_side" where
  "level_push before r [] = [(od_price r, [r])]"
| "level_push before r ((p, rs) # ls) =
     (if before p (od_price r) then (p, rs) # level_push before r ls
      else if before (od_price r) p then (od_price r, [r]) # (p, rs) # ls
      else (p, rs @ [r]) # ls)"

fun level_erase :: "string \<Rightarrow> jsnum \<Rightarrow> book_side \<Rightarrow> book_side option" where
  "level_erase i p [] = None"
| "level_erase i p ((q, rs) # ls) =
     (if p = q
      then (if i \<in> set (map od_id rs)
            then (let rs' = filter (\<lambda>r. od_id r \<noteq> i) rs in Some (if rs' = [] then ls else (q, rs') # ls))
            else None)
      else map_option ((#) (q, rs)) (level_erase i p ls))"

definition restBid :: "xorder \<Rightarrow> book \<Rightarrow> book" where
  "restBid r b = b\<lparr>ob_bids := level_push js_gt r (ob_bids b),
     ob_index := omap_set (od_id r) (BID, od_price r) (ob_index b)\<rparr>"

definition restAsk :: "xorder \<Rightarrow> book \<Rightarrow> book" where
  "restAsk r b = b\<lparr>ob_asks := level_push js_lt r (ob_asks b),
     ob_index := omap_set (od_id r) (ASK, od_price r) (ob_index b)\<rparr>"

section \<open>Views\<close>

definition level_qty :: "xorder list \<Rightarrow> int" where
  "level_qty rs = sum_list (map od_qty rs)"

definition currentTopOfBook :: "int \<Rightarrow> book \<Rightarrow> top_of_book" where
  "currentTopOfBook ts b =
     \<lparr>tp_bid = (case ob_bids b of [] \<Rightarrow> None | (p, rs) # _ \<Rightarrow> Some p),
      tp_bidQty = (case ob_bids b of [] \<Rightarrow> None | (p, rs) # _ \<Rightarrow> Some (level_qty rs)),
      tp_ask = (case ob_asks b of [] \<Rightarrow> None | (p, rs) # _ \<Rightarrow> Some p),
      tp_askQty = (case ob_asks b of [] \<Rightarrow> None | (p, rs) # _ \<Rightarrow> Some (level_qty rs)),
      tp_time = ts\<rparr>"

fun collect :: "nat \<Rightarrow> book_side \<Rightarrow> depth_level list" where
  "collect (Suc n) ((p, rs) # ls) =
     \<lparr>dl_price = p, dl_qty = level_qty rs, dl_orders = length rs\<rparr> # collect n ls"
| "collect _ _ = []"

definition depth :: "nat \<Rightarrow> book \<Rightarrow> book_depth" where
  "depth n b = \<lparr>dp_bids = collect n (ob_bids b), dp_asks = collect n (ob_asks b)\<rparr>"

section \<open>Matching\<close>

text \<open>
  The variables the loops update: the filled quantity, its value, the trades in the order they are
  pushed, the next trade number, and the index.
\<close>

record matching =
  mt_filled :: int
  mt_notional :: jsnum
  mt_trades :: "trade list"
  mt_next :: nat
  mt_index :: index

definition fill_order :: "xorder \<Rightarrow> int \<Rightarrow> jsnum \<Rightarrow> xorder \<Rightarrow> matching \<Rightarrow> xorder \<times> matching" where
  "fill_order ord ts p r s =
     (let q = min (od_qty ord - mt_filled s) (od_qty r);
          r' = reduceQuantity q r
      in (r', s\<lparr>mt_filled := mt_filled s + q,
               mt_notional := js_add (mt_notional s) (js_mul (dbl q) p),
               mt_trades := mt_trades s @
                 [\<lparr>td_id = trade_id (mt_next s), td_price = p, td_qty = q, td_side = od_side ord,
                   td_aggressor = od_id ord, td_resting = od_id r, td_time = ts\<rparr>],
               mt_next := Suc (mt_next s),
               mt_index := (if od_qty r' = 0 then omap_del (od_id r) (mt_index s) else mt_index s)\<rparr>))"

fun match_level ::
  "xorder \<Rightarrow> int \<Rightarrow> jsnum \<Rightarrow> xorder list \<Rightarrow> matching \<Rightarrow> xorder list \<times> matching" where
  "match_level ord ts p [] s = ([], s)"
| "match_level ord ts p (r # rs) s =
     (if mt_filled s < od_qty ord
      then (let (r', s') = fill_order ord ts p r s;
                (rs', s'') = match_level ord ts p rs s'
            in (if od_qty r' = 0 then rs' else r' # rs', s''))
      else (r # rs, s))"

fun match_levels ::
  "xorder \<Rightarrow> int \<Rightarrow> (jsnum \<Rightarrow> bool) \<Rightarrow> book_side \<Rightarrow> matching \<Rightarrow> book_side \<times> matching" where
  "match_levels ord ts worse [] s = ([], s)"
| "match_levels ord ts worse ((p, rs) # ls) s =
     (if mt_filled s < od_qty ord \<and> \<not> (od_type ord = LIMIT \<and> worse p)
      then (let (rs', s') = match_level ord ts p rs s;
                (ls', s'') = match_levels ord ts worse ls s'
            in (if rs' = [] then ls' else (p, rs') # ls', s''))
      else ((p, rs) # ls, s))"

definition matching_start :: "nat \<Rightarrow> index \<Rightarrow> matching" where
  "matching_start n ix =
     \<lparr>mt_filled = 0, mt_notional = Fin 0, mt_trades = [], mt_next = n, mt_index = ix\<rparr>"

definition averagePrice :: "matching \<Rightarrow> jsnum" where
  "averagePrice s =
     (if mt_filled s > 0 then js_div (mt_notional s) (dbl (mt_filled s)) else Fin 0)"

definition liquidity_text :: "int \<Rightarrow> int \<Rightarrow> string" where
  "liquidity_text filled qty =
     ''insufficient liquidity: filled '' @ int_text filled @ '' of '' @ int_text qty"

definition submit_status :: "xorder \<Rightarrow> int \<Rightarrow> order_status" where
  "submit_status ord filled =
     (if filled = od_qty ord then FILLED
      else if od_type ord = MARKET then REJECTED
      else if filled = 0 then QUEUED else PARTIAL)"

definition submit_result :: "xorder \<Rightarrow> int \<Rightarrow> matching \<Rightarrow> engine_result" where
  "submit_result ord ts s =
     \<lparr>er_status = submit_status ord (mt_filled s), er_orderId = od_id ord,
      er_filled = mt_filled s, er_avg = averagePrice s, er_time = ts,
      er_reason = (if submit_status ord (mt_filled s) = REJECTED
        then liquidity_text (mt_filled s) (od_qty ord) else []),
      er_cancelOk = False\<rparr>"

type_synonym submit_outcome = "engine_result \<times> market_event list \<times> book \<times> nat"

text \<open>What follows the loops: a rest stays in the book unless the order is a market order.\<close>

definition settle_order ::
  "(xorder \<Rightarrow> book \<Rightarrow> book) \<Rightarrow> xorder \<Rightarrow> int \<Rightarrow> matching \<Rightarrow> book \<Rightarrow> submit_outcome" where
  "settle_order rest ord ts s b =
     (let b' = (if od_type ord = MARKET \<or> mt_filled s = od_qty ord then b
                else rest (reduceQuantity (mt_filled s) ord) b)
      in (submit_result ord ts s, map Trade (mt_trades s) @ [Top (currentTopOfBook ts b')], b',
          mt_next s))"

definition submitBid :: "xorder \<Rightarrow> int \<Rightarrow> book \<Rightarrow> nat \<Rightarrow> submit_outcome" where
  "submitBid ord ts b n =
     (let (asks, s) = match_levels ord ts (\<lambda>p. js_gt p (od_price ord)) (ob_asks b)
            (matching_start n (ob_index b))
      in settle_order restBid ord ts s (b\<lparr>ob_asks := asks, ob_index := mt_index s\<rparr>))"

definition submitAsk :: "xorder \<Rightarrow> int \<Rightarrow> book \<Rightarrow> nat \<Rightarrow> submit_outcome" where
  "submitAsk ord ts b n =
     (let (bids, s) = match_levels ord ts (\<lambda>p. js_lt p (od_price ord)) (ob_bids b)
            (matching_start n (ob_index b))
      in settle_order restAsk ord ts s (b\<lparr>ob_bids := bids, ob_index := mt_index s\<rparr>))"

definition submit_order :: "xorder \<Rightarrow> int \<Rightarrow> book \<Rightarrow> nat \<Rightarrow> submit_outcome" where
  "submit_order ord ts b n = (if od_side ord = BID then submitBid ord ts b n else submitAsk ord ts b n)"

definition cancel_result :: "string \<Rightarrow> int \<Rightarrow> bool \<Rightarrow> engine_result" where
  "cancel_result i ts ok =
     \<lparr>er_status = ORDER_STATUS_UNSPECIFIED, er_orderId = i, er_filled = 0, er_avg = Fin 0,
      er_time = ts, er_reason = (if ok then [] else ''order not found: '' @ i), er_cancelOk = ok\<rparr>"

definition cancel :: "string \<Rightarrow> int \<Rightarrow> book \<Rightarrow> (engine_result \<times> market_event list \<times> book) option" where
  "cancel i ts b =
     (case omap_get (ob_index b) i of
        None \<Rightarrow> Some (cancel_result i ts False, [], b)
      | Some (sd, p) \<Rightarrow>
          map_option (\<lambda>b'. (cancel_result i ts True, [Top (currentTopOfBook ts b')], b'))
            (if sd = BID
             then map_option (\<lambda>ls. b\<lparr>ob_bids := ls, ob_index := omap_del i (ob_index b)\<rparr>)
                    (level_erase i p (ob_bids b))
             else map_option (\<lambda>ls. b\<lparr>ob_asks := ls, ob_index := omap_del i (ob_index b)\<rparr>)
                    (level_erase i p (ob_asks b))))"

end
