(* ===== verification/Price_Time.thy ===== *)
theory Price_Time
  imports Order_Book
begin

text \<open>
  The reference the order book is compared with: each side is one list of resting orders in order
  of priority. The nested loops over levels and queues do on the levels what \<open>take_fills\<close> does on
  the list (\<open>match_levels_flat\<close>); pushing onto a level is an insertion behind equal or better
  prices (\<open>push_flat\<close>). The two orders of the sides are the instances of the locale
  \<open>price_order\<close>.
\<close>

section \<open>Price-time priority on a flat list\<close>

text \<open>
  The reference: one side of the book is the list of its resting orders in order of priority. A
  new order goes behind every order with an equal or better price, and an incoming order consumes
  the list from the front.
\<close>

definition flat :: "book_side \<Rightarrow> xorder list" where
  "flat ls = concat (map snd ls)"

definition price_time_insert ::
  "(jsnum \<Rightarrow> jsnum \<Rightarrow> bool) \<Rightarrow> xorder \<Rightarrow> xorder list \<Rightarrow> xorder list" where
  "price_time_insert before r xs =
     takeWhile (\<lambda>x. \<not> before (od_price r) (od_price x)) xs @
     r # dropWhile (\<lambda>x. \<not> before (od_price r) (od_price x)) xs"

fun take_fills ::
  "(jsnum \<Rightarrow> bool) \<Rightarrow> int \<Rightarrow> xorder list \<Rightarrow> (xorder \<times> int) list \<times> xorder list" where
  "take_fills stop n [] = ([], [])"
| "take_fills stop n (r # rs) =
     (if n \<le> 0 \<or> stop (od_price r) then ([], r # rs)
      else if n < od_qty r then ([(r, n)], reduceQuantity n r # rs)
      else (let (fs, rs') = take_fills stop (n - od_qty r) rs in ((r, od_qty r) # fs, rs')))"

definition fills_qty :: "(xorder \<times> int) list \<Rightarrow> int" where
  "fills_qty fs = sum_list (map snd fs)"

fun fill_trades :: "xorder \<Rightarrow> int \<Rightarrow> nat \<Rightarrow> (xorder \<times> int) list \<Rightarrow> trade list" where
  "fill_trades ord ts n [] = []"
| "fill_trades ord ts n ((r, q) # fs) =
     \<lparr>td_id = trade_id n, td_price = od_price r, td_qty = q, td_side = od_side ord,
      td_aggressor = od_id ord, td_resting = od_id r, td_time = ts\<rparr> #
     fill_trades ord ts (Suc n) fs"

definition live :: "xorder list \<Rightarrow> bool" where
  "live xs = list_all (\<lambda>r. 0 < od_qty r \<and> od_price r \<noteq> NaN) xs"

lemma live_simps [simp]:
  "live []"
  "live (r # rs) \<longleftrightarrow> 0 < od_qty r \<and> od_price r \<noteq> NaN \<and> live rs"
  "live (xs @ ys) \<longleftrightarrow> live xs \<and> live ys"
  by (auto simp: live_def)

lemma flat_simps [simp]:
  "flat [] = []"
  "flat ((p, rs) # ls) = rs @ flat ls"
  by (simp_all add: flat_def)

lemma fills_qty_simps [simp]:
  "fills_qty [] = 0"
  "fills_qty ((r, q) # fs) = q + fills_qty fs"
  "fills_qty (fs @ gs) = fills_qty fs + fills_qty gs"
  by (simp_all add: fills_qty_def)

lemma reduceQuantity_simps [simp]:
  "od_qty (reduceQuantity n r) = od_qty r - n"
  "od_id (reduceQuantity n r) = od_id r"
  "od_price (reduceQuantity n r) = od_price r"
  "od_side (reduceQuantity n r) = od_side r"
  "od_type (reduceQuantity n r) = od_type r"
  "od_node (reduceQuantity n r) = od_node r"
  by (simp_all add: reduceQuantity_def)

lemma take_fills_none [simp]: "n \<le> 0 \<Longrightarrow> take_fills stop n xs = ([], xs)"
  by (cases xs) auto

lemma take_fills_bounds:
  assumes "live xs" and "0 \<le> n" and "take_fills stop n xs = (fs, ys)"
  shows "fills_qty fs \<le> n" and "list_all (\<lambda>(r, q). 0 < q \<and> q \<le> od_qty r) fs" and "live ys"
    and "fills_qty fs < n \<Longrightarrow> ys = [] \<or> stop (od_price (hd ys))"
proof -
  have "fills_qty fs \<le> n \<and> list_all (\<lambda>(r, q). 0 < q \<and> q \<le> od_qty r) fs \<and> live ys \<and>
      (fills_qty fs < n \<longrightarrow> ys = [] \<or> stop (od_price (hd ys)))"
    using assms
  proof (induction stop n xs arbitrary: fs ys rule: take_fills.induct)
    case (2 stop n r rs)
    then show ?case by (auto split: if_splits prod.splits)
  qed simp
  then show "fills_qty fs \<le> n" and "list_all (\<lambda>(r, q). 0 < q \<and> q \<le> od_qty r) fs" and "live ys"
    and "fills_qty fs < n \<Longrightarrow> ys = [] \<or> stop (od_price (hd ys))" by blast+
qed

lemma fills_qty_nonneg: "list_all (\<lambda>(r, q). 0 < q \<and> q \<le> od_qty r) fs \<Longrightarrow> 0 \<le> fills_qty fs"
  by (induction fs) auto

text \<open>Which orders are hit: a prefix of the list, every one of them but the last completely.\<close>

lemma take_fills_prefix:
  assumes "live xs" and "take_fills stop n xs = (fs, ys)"
  shows "map fst fs = take (length fs) xs"
    and "list_all (\<lambda>(r, q). q = od_qty r \<and> \<not> stop (od_price r)) (butlast fs)"
    and "list_all (\<lambda>(r, q). \<not> stop (od_price r)) fs"
    and "ys = (if fs = [] \<or> snd (last fs) = od_qty (fst (last fs)) then drop (length fs) xs
      else reduceQuantity (snd (last fs)) (fst (last fs)) # drop (length fs) xs)"
proof -
  have "map fst fs = take (length fs) xs \<and>
      list_all (\<lambda>(r, q). q = od_qty r \<and> \<not> stop (od_price r)) (butlast fs) \<and>
      list_all (\<lambda>(r, q). \<not> stop (od_price r)) fs \<and>
      ys = (if fs = [] \<or> snd (last fs) = od_qty (fst (last fs)) then drop (length fs) xs
        else reduceQuantity (snd (last fs)) (fst (last fs)) # drop (length fs) xs)"
    using assms
  proof (induction stop n xs arbitrary: fs ys rule: take_fills.induct)
    case (2 stop n r rs)
    consider (none) "n \<le> 0 \<or> stop (od_price r)" | (part) "0 < n" "\<not> stop (od_price r)" "n < od_qty r"
      | (full) "0 < n" "\<not> stop (od_price r)" "od_qty r \<le> n" by linarith
    then show ?case
    proof cases
      case full
      then obtain fs' where fs: "fs = (r, od_qty r) # fs'"
        and rec: "take_fills stop (n - od_qty r) rs = (fs', ys)"
        using 2(3) by (auto split: prod.splits)
      then show ?thesis using 2(1) [OF _ _ _ rec] 2(2) full by (cases fs') auto
    qed (use 2(3) in auto)
  qed simp
  then show "map fst fs = take (length fs) xs"
    and "list_all (\<lambda>(r, q). q = od_qty r \<and> \<not> stop (od_price r)) (butlast fs)"
    and "list_all (\<lambda>(r, q). \<not> stop (od_price r)) fs"
    and "ys = (if fs = [] \<or> snd (last fs) = od_qty (fst (last fs)) then drop (length fs) xs
      else reduceQuantity (snd (last fs)) (fst (last fs)) # drop (length fs) xs)" by blast+
qed

lemma take_fills_append:
  assumes "live xs" and "list_all (\<lambda>r. \<not> stop (od_price r)) xs" and "0 \<le> n"
    and "take_fills stop n xs = (fs, xs')"
    and "take_fills stop (n - fills_qty fs) ys = (gs, ys')"
  shows "take_fills stop n (xs @ ys) = (fs @ gs, xs' @ ys')"
  using assms
proof (induction stop n xs arbitrary: fs xs' rule: take_fills.induct)
  case (1 stop n)
  then show ?case by simp
next
  case (2 stop n r rs)
  consider "n \<le> 0" | (part) "0 < n" "n < od_qty r" | (full) "0 < n" "od_qty r \<le> n" by linarith
  then show ?case
  proof cases
    case full
    then obtain fs' where fs: "fs = (r, od_qty r) # fs'"
      and rec: "take_fills stop (n - od_qty r) rs = (fs', xs')"
      using 2(3-6) by (auto split: prod.splits)
    have "take_fills stop (n - od_qty r) (rs @ ys) = (fs' @ gs, xs' @ ys')"
      by (rule 2(1) [OF _ _ _ _ _ rec]) (use 2(2-6) full fs in \<open>auto simp: algebra_simps\<close>)
    then show ?thesis using full 2(3) fs by simp
  qed (use 2(2-6) in auto)
qed

text \<open>What matching does to the variables of the loops, from the list of the fills.\<close>

definition record_fill :: "xorder \<Rightarrow> int \<Rightarrow> xorder \<times> int \<Rightarrow> matching \<Rightarrow> matching" where
  "record_fill ord ts f s =
     (case f of (r, q) \<Rightarrow> s\<lparr>mt_filled := mt_filled s + q,
        mt_notional := js_add (mt_notional s) (js_mul (dbl q) (od_price r)),
        mt_trades := mt_trades s @ fill_trades ord ts (mt_next s) [(r, q)],
        mt_next := Suc (mt_next s),
        mt_index := (if od_qty r = q then omap_del (od_id r) (mt_index s) else mt_index s)\<rparr>)"

abbreviation record_fills :: "xorder \<Rightarrow> int \<Rightarrow> (xorder \<times> int) list \<Rightarrow> matching \<Rightarrow> matching" where
  "record_fills ord ts \<equiv> fold (record_fill ord ts)"

lemma fill_order_record:
  "od_price r = p \<Longrightarrow> fill_order ord ts p r s =
    (let q = min (od_qty ord - mt_filled s) (od_qty r)
     in (reduceQuantity q r, record_fill ord ts (r, q) s))"
  by (auto simp: fill_order_def record_fill_def Let_def)

lemma record_fills_simps [simp]:
  "mt_filled (record_fills ord ts fs s) = mt_filled s + fills_qty fs"
  "mt_trades (record_fills ord ts fs s) = mt_trades s @ fill_trades ord ts (mt_next s) fs"
  "mt_next (record_fills ord ts fs s) = mt_next s + length fs"
  "mt_index (record_fills ord ts fs s) =
     fold (\<lambda>(r, q) ix. if od_qty r = q then omap_del (od_id r) ix else ix) fs (mt_index s)"
  by (induction fs arbitrary: s) (auto simp: record_fill_def)

section \<open>The loops implement the flat list\<close>

lemma match_level_flat:
  assumes "live rs" and "list_all (\<lambda>r. od_price r = p \<and> \<not> stop p) rs"
    and "mt_filled s \<le> od_qty ord"
    and "take_fills stop (od_qty ord - mt_filled s) rs = (fs, ys)"
  shows "match_level ord ts p rs s = (ys, record_fills ord ts fs s)"
  using assms
proof (induction rs arbitrary: s fs ys)
  case (Cons r rs)
  let ?n = "od_qty ord - mt_filled s"
  consider (none) "?n \<le> 0" | (part) "0 < ?n" "?n < od_qty r" | (full) "0 < ?n" "od_qty r \<le> ?n"
    by linarith
  then show ?case
  proof cases
    case none
    then show ?thesis using Cons.prems by auto
  next
    case part
    let ?s = "record_fill ord ts (r, ?n) s"
    have "mt_filled ?s = od_qty ord" by (simp add: record_fill_def)
    then have "match_level ord ts p rs ?s = (rs, ?s)" by (cases rs) auto
    moreover have "min ?n (od_qty r) = ?n" using part by simp
    ultimately show ?thesis
      using part Cons.prems by (auto simp: fill_order_record Let_def)
  next
    case full
    let ?s = "record_fill ord ts (r, od_qty r) s"
    have f: "mt_filled ?s = mt_filled s + od_qty r" by (simp add: record_fill_def)
    have "min ?n (od_qty r) = od_qty r" using full by simp
    moreover obtain fs' where fs: "fs = (r, od_qty r) # fs'"
      and rec: "take_fills stop (?n - od_qty r) rs = (fs', ys)"
      using Cons.prems full by (auto split: prod.splits)
    moreover have "match_level ord ts p rs ?s = (ys, record_fills ord ts fs' ?s)"
      by (rule Cons.IH) (use Cons.prems full f rec in \<open>auto simp: algebra_simps\<close>)
    ultimately show ?thesis
      using full Cons.prems by (auto simp: fill_order_record Let_def)
  qed
qed simp

text \<open>
  A well formed side: the levels in strict order, none empty, each order at the price of its level
  and with something left.
\<close>

definition level_ok :: "jsnum \<times> xorder list \<Rightarrow> bool" where
  "level_ok l = (case l of (p, rs) \<Rightarrow> p \<noteq> NaN \<and> rs \<noteq> [] \<and> list_all (\<lambda>r. od_price r = p \<and> 0 < od_qty r) rs)"

definition side_ok :: "(jsnum \<Rightarrow> jsnum \<Rightarrow> bool) \<Rightarrow> book_side \<Rightarrow> bool" where
  "side_ok before ls = (sorted_wrt before (map fst ls) \<and> list_all level_ok ls)"

lemma side_ok_simps [simp]:
  "side_ok before []"
  "side_ok before ((p, rs) # ls) \<longleftrightarrow>
     list_all (before p) (map fst ls) \<and> level_ok (p, rs) \<and> side_ok before ls"
  by (auto simp: side_ok_def list_all_iff)

lemma level_ok_live: "level_ok (p, rs) \<Longrightarrow> live rs \<and> list_all (\<lambda>r. od_price r = p) rs"
  by (auto simp: level_ok_def live_def list_all_iff)

lemma side_ok_live: "side_ok before ls \<Longrightarrow> live (flat ls)"
  by (induction ls) (auto simp: level_ok_live)

lemma match_levels_flat:
  assumes "side_ok before ls" and "mt_filled s \<le> od_qty ord"
    and "take_fills (\<lambda>p. od_type ord = LIMIT \<and> worse p) (od_qty ord - mt_filled s) (flat ls) = (fs, ys)"
  shows "flat (fst (match_levels ord ts worse ls s)) = ys"
    and "snd (match_levels ord ts worse ls s) = record_fills ord ts fs s"
proof -
  let ?stop = "\<lambda>p. od_type ord = LIMIT \<and> worse p"
  have "flat (fst (match_levels ord ts worse ls s)) = ys \<and>
      snd (match_levels ord ts worse ls s) = record_fills ord ts fs s"
    using assms
  proof (induction ls arbitrary: s fs ys)
    case (Cons l ls)
    obtain p rs where l: "l = (p, rs)" by (cases l)
    let ?n = "od_qty ord - mt_filled s"
    have rs: "live rs" "list_all (\<lambda>r. od_price r = p) rs" "rs \<noteq> []"
      using Cons.prems(1) level_ok_live [of p rs] by (auto simp: l level_ok_def)
    show ?case
    proof (cases "mt_filled s < od_qty ord \<and> \<not> ?stop p")
      case False
      then have "take_fills ?stop ?n (rs @ flat ls) = ([], rs @ flat ls)"
        using rs by (cases rs) auto
      then show ?thesis using False Cons.prems by (auto simp: l)
    next
      case True
      obtain fs1 rs' where one: "take_fills ?stop ?n rs = (fs1, rs')" by fastforce
      obtain fs2 ys2 where two: "take_fills ?stop (?n - fills_qty fs1) (flat ls) = (fs2, ys2)"
        by fastforce
      have split: "fs = fs1 @ fs2" "ys = rs' @ ys2"
        using take_fills_append [OF rs(1) _ _ one two] rs(2) True Cons.prems(3)
        by (auto simp: l list_all_iff)
      have lvl: "match_level ord ts p rs s = (rs', record_fills ord ts fs1 s)"
        by (rule match_level_flat [OF rs(1) _ _ one]) (use rs(2) True in \<open>auto simp: list_all_iff\<close>)
      let ?s = "record_fills ord ts fs1 s"
      have "flat (fst (match_levels ord ts worse ls ?s)) = ys2 \<and>
          snd (match_levels ord ts worse ls ?s) = record_fills ord ts fs2 ?s"
        by (rule Cons.IH)
          (use Cons.prems(1) take_fills_bounds(1) [OF rs(1) _ one] True two in
            \<open>auto simp: l algebra_simps\<close>)
      then show ?thesis using True by (auto simp: l lvl split split_beta)
    qed
  qed simp
  then show "flat (fst (match_levels ord ts worse ls s)) = ys"
    and "snd (match_levels ord ts worse ls s) = record_fills ord ts fs s" by blast+
qed

section \<open>The order of the map\<close>

text \<open>
  The comparison of an ordered map: a strict order that compares all prices but \<open>NaN\<close>. The two
  sides of the book are its instances.
\<close>

locale price_order =
  fixes before :: "jsnum \<Rightarrow> jsnum \<Rightarrow> bool"
  assumes before_NaN: "before a b \<Longrightarrow> a \<noteq> NaN \<and> b \<noteq> NaN"
    and before_asym: "before a b \<Longrightarrow> \<not> before b a"
    and before_trans: "before a b \<Longrightarrow> before b c \<Longrightarrow> before a c"
    and before_total: "a \<noteq> NaN \<Longrightarrow> b \<noteq> NaN \<Longrightarrow> before a b \<or> a = b \<or> before b a"
begin

lemma before_irrefl: "\<not> before a a"
  using before_asym by blast

lemma not_before_trans: "before a b \<Longrightarrow> \<not> before c b \<Longrightarrow> c \<noteq> NaN \<Longrightarrow> before a c"
  using before_total [of b c] before_NaN [of a b] before_trans [of a b c] by blast

lemma push_keys:
  "l \<in> set (level_push before r ls) \<Longrightarrow> fst l = od_price r \<or> (\<exists>l' \<in> set ls. fst l = fst l')"
  by (induction before r ls rule: level_push.induct) (auto split: if_splits)

lemma push_ok:
  assumes "side_ok before ls" and "od_price r \<noteq> NaN" and "0 < od_qty r"
  shows "side_ok before (level_push before r ls)"
  using assms
proof (induction ls)
  case (Cons l ls)
  obtain p rs where l: "l = (p, rs)" by (cases l)
  then have "p \<noteq> NaN" using Cons.prems(1) by (simp add: level_ok_def)
  then consider "before p (od_price r)" | "before (od_price r) p" "\<not> before p (od_price r)" | "p = od_price r"
    using before_total [of p "od_price r"] Cons.prems(2) before_asym by blast
  then show ?case
  proof cases
    case 1
    have "set (map fst ls) \<subseteq> Collect (before p)" using Cons.prems(1) by (auto simp: l list_all_iff)
    then have "list_all (before p) (map fst (level_push before r ls))"
      using push_keys [of _ r ls] 1 by (fastforce simp: list_all_iff)
    then show ?thesis using 1 Cons by (simp add: l)
  next
    case 2
    then show ?thesis
      using Cons.prems by (auto simp: l level_ok_def list_all_iff intro: before_trans)
  next
    case 3
    then show ?thesis using Cons.prems by (auto simp: l before_irrefl level_ok_def)
  qed
qed (simp add: level_ok_def)

lemma push_flat:
  assumes "side_ok before ls" and "od_price r \<noteq> NaN"
  shows "flat (level_push before r ls) = price_time_insert before r (flat ls)"
  using assms
proof (induction ls)
  case (Cons l ls)
  obtain p rs where l: "l = (p, rs)" by (cases l)
  have ok: "level_ok (p, rs)" "list_all (before p) (map fst ls)" "side_ok before ls"
    using Cons.prems(1) by (simp_all add: l)
  then have p: "p \<noteq> NaN" "\<And>x. x \<in> set rs \<Longrightarrow> od_price x = p" "rs \<noteq> []"
    by (auto simp: level_ok_def list_all_iff)
  let ?keep = "\<lambda>x. \<not> before (od_price r) (od_price x)"
  have pass: "takeWhile ?keep (rs @ ys) = rs @ takeWhile ?keep ys"
    "dropWhile ?keep (rs @ ys) = dropWhile ?keep ys" if "\<not> before (od_price r) p" for ys
    using that p(2) by simp_all
  consider "before p (od_price r)" | "before (od_price r) p" | "p = od_price r"
    using before_total [OF p(1) Cons.prems(2)] by blast
  then show ?case
  proof cases
    case 1
    then show ?thesis
      using Cons.IH [OF ok(3) Cons.prems(2)] pass before_asym [of p "od_price r"]
      by (simp add: l price_time_insert_def)
  next
    case 2
    then have "takeWhile ?keep (rs @ flat ls) = []" "dropWhile ?keep (rs @ flat ls) = rs @ flat ls"
      using p(2,3) by (cases rs; simp)+
    then show ?thesis using 2 before_asym [of "od_price r" p] by (simp add: l price_time_insert_def)
  next
    case 3
    have "takeWhile ?keep (flat ls) = [] \<and> dropWhile ?keep (flat ls) = flat ls"
    proof (cases ls)
      case (Cons l' ls')
      obtain q qs where l': "l' = (q, qs)" by (cases l')
      then have "before p q" "level_ok (q, qs)" using ok(2,3) Cons by auto
      then show ?thesis using 3 Cons l' by (cases qs) (auto simp: level_ok_def)
    qed simp
    then show ?thesis
      using 3 pass before_irrefl [of p] by (simp add: l price_time_insert_def)
  qed
qed (simp add: price_time_insert_def)

lemma flat_sorted:
  "side_ok before ls \<Longrightarrow> sorted_wrt (\<lambda>x y. \<not> before (od_price y) (od_price x)) (flat ls)"
proof (induction ls)
  case (Cons l ls)
  obtain p rs where l: "l = (p, rs)" by (cases l)
  have p: "\<And>x. x \<in> set rs \<Longrightarrow> od_price x = p"
    using Cons.prems by (auto simp: l level_ok_def list_all_iff)
  then have "sorted_wrt (\<lambda>x y. \<not> before (od_price y) (od_price x)) rs"
    by (intro sorted_wrt_iff_nth_less [THEN iffD2]) (auto simp: before_irrefl)
  moreover have "\<not> before (od_price y) p" if y: "y \<in> set (flat ls)" for y
  proof -
    obtain q qs where q: "(q, qs) \<in> set ls" "y \<in> set qs" using y by (force simp: flat_def)
    then have "before p q" "od_price y = q"
      using Cons.prems by (auto simp: l side_ok_def level_ok_def list_all_iff)
    then show ?thesis using before_asym by blast
  qed
  ultimately show ?case using Cons p by (auto simp: l sorted_wrt_append)
qed simp

text \<open>What is left behind a stopped match is out of reach of the order's price.\<close>

lemma stopped_out_of_reach:
  assumes "sorted_wrt (\<lambda>x y. \<not> before (od_price y) (od_price x)) ys" and "live ys"
    and "ys = [] \<or> before p (od_price (hd ys))"
  shows "list_all (\<lambda>y. before p (od_price y)) ys"
proof (cases ys)
  case (Cons y zs)
  then show ?thesis
    using assms by (auto simp: list_all_iff live_def intro: not_before_trans)
qed simp

lemma sorted_take_fills:
  "sorted_wrt (\<lambda>x y. \<not> before (od_price y) (od_price x)) xs \<Longrightarrow>
   take_fills stop n xs = (fs, ys) \<Longrightarrow> sorted_wrt (\<lambda>x y. \<not> before (od_price y) (od_price x)) ys"
  by (induction stop n xs arbitrary: fs ys rule: take_fills.induct)
     (auto split: if_splits prod.splits)

lemma match_level_ok:
  "list_all (\<lambda>r. od_price r = p \<and> 0 < od_qty r) rs \<Longrightarrow>
   list_all (\<lambda>r. od_price r = p \<and> 0 < od_qty r) (fst (match_level ord ts p rs s))"
  by (induction rs arbitrary: s) (auto simp: fill_order_def split_beta Let_def min_def)

lemma match_levels_keys:
  "l \<in> set (fst (match_levels ord ts worse ls s)) \<Longrightarrow> \<exists>l' \<in> set ls. fst l = fst l'"
  by (induction ls arbitrary: s) (auto simp: split_beta Let_def split: if_splits, blast+)

lemma match_levels_ok:
  "side_ok before ls \<Longrightarrow> side_ok before (fst (match_levels ord ts worse ls s))"
proof (induction ls arbitrary: s)
  case (Cons l ls)
  obtain p rs where l: "l = (p, rs)" by (cases l)
  obtain rs' s' where m: "match_level ord ts p rs s = (rs', s')" by fastforce
  have keys: "set (map fst ls) \<subseteq> Collect (before p)"
    using Cons.prems by (auto simp: l list_all_iff)
  have "list_all (\<lambda>r. od_price r = p \<and> 0 < od_qty r) rs'"
    using match_level_ok [of p rs ord ts s] Cons.prems by (simp add: l m level_ok_def)
  moreover have "list_all (before p) (map fst (fst (match_levels ord ts worse ls s')))"
    using match_levels_keys [where ls = ls and s = s'] keys by (fastforce simp: list_all_iff)
  ultimately show ?case
    using Cons.IH [of s'] Cons.prems by (auto simp: l m split_beta Let_def level_ok_def)
qed simp

lemma erase_flat:
  assumes "side_ok before ls" and "r \<in> set (flat ls)" and "distinct (map od_id (flat ls))"
  obtains ls' where "level_erase (od_id r) (od_price r) ls = Some ls'"
    and "flat ls' = filter (\<lambda>x. od_id x \<noteq> od_id r) (flat ls)" and "side_ok before ls'"
    and "\<forall>l \<in> set ls'. fst l \<in> fst ` set ls"
proof -
  have "\<exists>ls'. level_erase (od_id r) (od_price r) ls = Some ls' \<and>
      flat ls' = filter (\<lambda>x. od_id x \<noteq> od_id r) (flat ls) \<and> side_ok before ls' \<and>
      (\<forall>l \<in> set ls'. fst l \<in> fst ` set ls)"
    using assms
  proof (induction ls)
    case (Cons l ls)
    obtain p rs where l: "l = (p, rs)" by (cases l)
    have rs: "list_all (\<lambda>x. od_price x = p \<and> 0 < od_qty x) rs"
      using Cons.prems(1) by (simp add: l level_ok_def)
    show ?case
    proof (cases "r \<in> set rs")
      case True
      then have "od_price r = p" using rs by (auto simp: list_all_iff)
      moreover have "filter (\<lambda>x. od_id x \<noteq> od_id r) (flat ls) = flat ls"
        using Cons.prems(3) True by (intro filter_True) (force simp: l)
      ultimately show ?thesis using Cons.prems(1) rs True by (auto simp: l level_ok_def Let_def list_all_iff)
    next
      case False
      then have r: "r \<in> set (flat ls)" using Cons.prems(2) by (simp add: l)
      then obtain q qs where "(q, qs) \<in> set ls" "r \<in> set qs" by (force simp: flat_def)
      then have "before p (od_price r)"
        using Cons.prems(1) by (fastforce simp: l side_ok_def level_ok_def list_all_iff)
      then have "od_price r \<noteq> p" using before_irrefl by blast
      moreover have "filter (\<lambda>x. od_id x \<noteq> od_id r) rs = rs"
        using Cons.prems(3) r by (intro filter_True) (force simp: l)
      moreover obtain ls' where ls': "level_erase (od_id r) (od_price r) ls = Some ls'"
        "flat ls' = filter (\<lambda>x. od_id x \<noteq> od_id r) (flat ls)" "side_ok before ls'"
        "\<forall>l \<in> set ls'. fst l \<in> fst ` set ls"
        using Cons.IH r Cons.prems(1,3) by (auto simp: l)
      moreover have "list_all (before p) (map fst ls')"
        using ls'(4) Cons.prems(1) by (force simp: l list_all_iff)
      ultimately show ?thesis using Cons.prems(1) by (auto simp: l)
    qed
  qed simp
  then show thesis using that by blast
qed

end

interpretation asks: price_order js_lt
  by unfold_locales (auto simp: js_lt_def)

interpretation bids: price_order "\<lambda>a b. js_gt a b"
  by unfold_locales (auto simp: js_lt_def)

section \<open>Keyed views of a side\<close>

text \<open>
  The index, and the table of resting orders that the gateway keeps, are maps over the ids of the
  resting orders. The two lemmas on association lists carry both through fills and insertions.
\<close>

definition by_id :: "(xorder \<Rightarrow> 'a) \<Rightarrow> xorder list \<Rightarrow> (string \<times> 'a) list" where
  "by_id f xs = map (\<lambda>r. (od_id r, f r)) xs"

lemma by_id_simps [simp]:
  "by_id f [] = []"
  "by_id f (r # rs) = (od_id r, f r) # by_id f rs"
  "by_id f (xs @ ys) = by_id f xs @ by_id f ys"
  "map fst (by_id f xs) = map od_id xs"
  "fst ` set (by_id f xs) = od_id ` set xs"
  by (auto simp: by_id_def image_comp)

lemma map_of_remove:
  assumes "k \<notin> fst ` set ws" and "k \<notin> fst ` set zs"
  shows "(map_of (ws @ (k, v) # zs))(k := None) = map_of (ws @ zs)"
proof
  fix x
  have "map_of zs k = None" "map_of ws k = None" using assms by (simp_all add: map_of_eq_None_iff)
  then show "((map_of (ws @ (k, v) # zs))(k := None)) x = map_of (ws @ zs) x"
    by (simp add: map_add_def split: option.split)
qed

lemma map_of_insert:
  assumes "k \<notin> fst ` set ws"
  shows "(map_of (ws @ zs))(k \<mapsto> v) = map_of (ws @ (k, v) # zs)"
proof
  fix x
  have "map_of ws k = None" using assms by (simp add: map_of_eq_None_iff)
  then show "((map_of (ws @ zs))(k \<mapsto> v)) x = map_of (ws @ (k, v) # zs) x"
    by (simp add: map_add_def split: option.split)
qed

lemma map_of_filter_key: "(map_of xs)(k := None) = map_of (filter (\<lambda>x. fst x \<noteq> k) xs)"
proof
  fix x
  show "((map_of xs)(k := None)) x = map_of (filter (\<lambda>x. fst x \<noteq> k) xs) x"
    by (induction xs) auto
qed

lemma price_time_insert_split:
  obtains xs1 xs2 where "xs = xs1 @ xs2" and "price_time_insert before r xs = xs1 @ r # xs2"
  by (rule that) (simp_all add: price_time_insert_def)

lemma take_fills_drop:
  assumes "live xs" and "take_fills stop n xs = (fs, ys)" and "\<And>n r. f (reduceQuantity n r) = f r"
  obtains k where "map f ys = drop k (map f xs)"
proof -
  have "\<exists>k. map f ys = drop k (map f xs)"
    using assms(1,2)
  proof (induction stop n xs arbitrary: fs ys rule: take_fills.induct)
    case (2 stop n r rs)
    consider (none) "n \<le> 0 \<or> stop (od_price r)" | (part) "0 < n" "\<not> stop (od_price r)" "n < od_qty r"
      | (full) "0 < n" "\<not> stop (od_price r)" "od_qty r \<le> n" by linarith
    then show ?case
    proof cases
      case full
      then obtain fs' where "take_fills stop (n - od_qty r) rs = (fs', ys)"
        using 2(3) by (auto split: prod.splits)
      then obtain k where "map f ys = drop k (map f rs)" using 2(1,2) full by fastforce
      then show ?thesis by (intro exI [of _ "Suc k"]) simp
    qed (use 2(3) assms(3) in \<open>auto intro: exI [of _ 0]\<close>)
  qed simp
  then show thesis using that by blast
qed

lemma take_fills_ids:
  assumes "live xs" and "take_fills stop n xs = (fs, ys)" and "distinct (map od_id xs)"
  shows "distinct (map od_id ys)" and "od_id ` set ys \<subseteq> od_id ` set xs"
    and "od_price ` set ys \<subseteq> od_price ` set xs"
proof -
  obtain k where k: "map od_id ys = drop k (map od_id xs)"
    by (rule take_fills_drop [OF assms(1,2), of od_id]) simp_all
  then show "distinct (map od_id ys)" using assms(3) by (metis distinct_drop)
  show "od_id ` set ys \<subseteq> od_id ` set xs"
    using k set_drop_subset [of k "map od_id xs"] by (metis list.set_map)
  obtain k where "map od_price ys = drop k (map od_price xs)"
    by (rule take_fills_drop [OF assms(1,2), of od_price]) simp_all
  then show "od_price ` set ys \<subseteq> od_price ` set xs"
    using set_drop_subset [of k "map od_price xs"] by (metis list.set_map)
qed

lemma take_fills_index:
  assumes "live xs" and "take_fills stop n xs = (fs, ys)" and "distinct (map od_id xs)"
    and "od_id ` set xs \<inter> fst ` set (ws @ zs) = {}" and "\<And>n r. f (reduceQuantity n r) = f r"
    and "map_of ix = map_of (ws @ by_id f xs @ zs)"
  shows "map_of (fold (\<lambda>(r, q) ix. if od_qty r = q then omap_del (od_id r) ix else ix) fs ix) =
    map_of (ws @ by_id f ys @ zs)"
  using assms(1-4,6)
proof (induction stop n xs arbitrary: fs ys ix rule: take_fills.induct)
  case (2 stop n r rs)
  consider (none) "n \<le> 0 \<or> stop (od_price r)" | (part) "0 < n" "\<not> stop (od_price r)" "n < od_qty r"
    | (full) "0 < n" "\<not> stop (od_price r)" "od_qty r \<le> n" by linarith
  then show ?case
  proof cases
    case full
    then obtain fs' where fs: "fs = (r, od_qty r) # fs'"
      and rec: "take_fills stop (n - od_qty r) rs = (fs', ys)"
      using 2(3) by (auto split: prod.splits)
    have "map_of (omap_del (od_id r) ix) = map_of (ws @ by_id f rs @ zs)"
      using 2(4-6) by (subst delete_conv') (simp add: map_of_remove image_Un del: map_of_append)
    then show ?thesis using 2(1) [OF _ _ _ rec] 2(2,4,5) full fs by auto
  qed (use 2(3,6) assms(5) in auto)
qed simp

section \<open>The book\<close>

definition resting_orders :: "book \<Rightarrow> xorder list" where
  "resting_orders b = flat (ob_bids b) @ flat (ob_asks b)"

definition index_list :: "book \<Rightarrow> (string \<times> order_side \<times> jsnum) list" where
  "index_list b = by_id (\<lambda>r. (BID, od_price r)) (flat (ob_bids b)) @
     by_id (\<lambda>r. (ASK, od_price r)) (flat (ob_asks b))"

definition uncrossed :: "xorder list \<Rightarrow> xorder list \<Rightarrow> bool" where
  "uncrossed bs as = list_all (\<lambda>x. list_all (\<lambda>y. js_lt (od_price x) (od_price y)) as) bs"

text \<open>
  The invariant of the book: both sides ordered, with no empty level and nothing used up; no bid
  reaches an ask; ids are unique; and the index locates exactly the resting orders.
\<close>

definition book_ok :: "book \<Rightarrow> bool" where
  "book_ok b = (side_ok (\<lambda>p q. js_gt p q) (ob_bids b) \<and> side_ok js_lt (ob_asks b) \<and>
     uncrossed (flat (ob_bids b)) (flat (ob_asks b)) \<and> distinct (map od_id (resting_orders b)) \<and>
     map_of (ob_index b) = map_of (index_list b))"

definition spec_rest ::
  "(jsnum \<Rightarrow> jsnum \<Rightarrow> bool) \<Rightarrow> xorder \<Rightarrow> (xorder \<times> int) list \<Rightarrow> xorder list \<Rightarrow> xorder list" where
  "spec_rest before ord fs xs =
     (if od_type ord = MARKET \<or> fills_qty fs = od_qty ord then xs
      else price_time_insert before (reduceQuantity (fills_qty fs) ord) xs)"

definition spec_submit ::
  "xorder \<Rightarrow> xorder list \<Rightarrow> xorder list \<Rightarrow> (xorder \<times> int) list \<times> xorder list \<times> xorder list" where
  "spec_submit ord bs as =
     (if od_side ord = BID
      then (let (fs, as') = take_fills (\<lambda>p. od_type ord = LIMIT \<and> js_gt p (od_price ord)) (od_qty ord) as
            in (fs, spec_rest (\<lambda>p q. js_gt p q) ord fs bs, as'))
      else (let (fs, bs') = take_fills (\<lambda>p. od_type ord = LIMIT \<and> js_lt p (od_price ord)) (od_qty ord) bs
            in (fs, bs', spec_rest js_lt ord fs as)))"

lemma matching_start_simps [simp]:
  "mt_filled (matching_start n ix) = 0"
  "mt_trades (matching_start n ix) = []"
  "mt_next (matching_start n ix) = n"
  "mt_index (matching_start n ix) = ix"
  by (simp_all add: matching_start_def)

lemma index_simps [simp]:
  "ob_bids (restBid r b) = level_push (\<lambda>p q. js_gt p q) r (ob_bids b)"
  "ob_asks (restBid r b) = ob_asks b"
  "ob_asks (restAsk r b) = level_push js_lt r (ob_asks b)"
  "ob_bids (restAsk r b) = ob_bids b"
  by (simp_all add: restBid_def restAsk_def)

end
