(* ===== verification/Book_Laws.thy ===== *)
theory Book_Laws
  imports Price_Time
begin

text \<open>
  What the order book promises: its invariant \<open>book_ok\<close> is kept by submissions and cancellations;
  a submission implements price-time priority (\<open>submit_refines\<close>), loses no quantity, and respects
  limits; a cancellation removes exactly its order; the depth is what rests. It promises this for
  non-negative quantities only (\<open>negative_quantity_crosses\<close>).
\<close>

section \<open>The invariant is kept\<close>

lemma empty_book_ok: "book_ok empty_book"
  by (simp add: book_ok_def empty_book_def uncrossed_def resting_orders_def index_list_def)

lemma uncrossed_subset:
  assumes "uncrossed bs as" and "od_price ` set bs' \<subseteq> od_price ` set bs"
    and "od_price ` set as' \<subseteq> od_price ` set as"
  shows "uncrossed bs' as'"
proof -
  have "js_lt (od_price x) (od_price y)" if xy: "x \<in> set bs'" "y \<in> set as'" for x y
  proof -
    obtain x' y' where "x' \<in> set bs" "od_price x = od_price x'" "y' \<in> set as" "od_price y = od_price y'"
      using xy assms(2,3) by blast
    then show ?thesis using assms(1) by (simp add: uncrossed_def list_all_iff)
  qed
  then show ?thesis by (simp add: uncrossed_def list_all_iff)
qed

abbreviation drop_filled :: "(xorder \<times> int) list \<Rightarrow> index \<Rightarrow> index" where
  "drop_filled \<equiv> fold (\<lambda>(r, q) ix. if od_qty r = q then omap_del (od_id r) ix else ix)"

lemma consume_asks_ok:
  assumes "book_ok b" and "take_fills stop n (flat (ob_asks b)) = (fs, ys)"
    and "flat ls = ys" and "side_ok js_lt ls"
  shows "book_ok (b\<lparr>ob_asks := ls, ob_index := drop_filled fs (ob_index b)\<rparr>)"
proof -
  have live: "live (flat (ob_asks b))" and dist: "distinct (map od_id (flat (ob_asks b)))"
    and dj: "od_id ` set (flat (ob_asks b)) \<inter> od_id ` set (flat (ob_bids b)) = {}"
    using assms(1) side_ok_live by (auto simp: book_ok_def resting_orders_def)
  note ids = take_fills_ids [OF live assms(2) dist]
  have "map_of (drop_filled fs (ob_index b)) =
      map_of (by_id (\<lambda>r. (BID, od_price r)) (flat (ob_bids b)) @ by_id (\<lambda>r. (ASK, od_price r)) ys @ [])"
    by (rule take_fills_index [OF live assms(2) dist])
      (use dj assms(1) in \<open>auto simp: book_ok_def index_list_def\<close>)
  moreover have "uncrossed (flat (ob_bids b)) ys"
    using assms(1) ids(3) by (auto simp: book_ok_def intro: uncrossed_subset)
  ultimately show ?thesis
    using assms(1,3,4) ids dj by (auto simp: book_ok_def resting_orders_def index_list_def)
qed

lemma consume_bids_ok:
  assumes "book_ok b" and "take_fills stop n (flat (ob_bids b)) = (fs, ys)"
    and "flat ls = ys" and "side_ok (\<lambda>p q. js_gt p q) ls"
  shows "book_ok (b\<lparr>ob_bids := ls, ob_index := drop_filled fs (ob_index b)\<rparr>)"
proof -
  have live: "live (flat (ob_bids b))" and dist: "distinct (map od_id (flat (ob_bids b)))"
    and dj: "od_id ` set (flat (ob_bids b)) \<inter> od_id ` set (flat (ob_asks b)) = {}"
    using assms(1) side_ok_live by (auto simp: book_ok_def resting_orders_def)
  note ids = take_fills_ids [OF live assms(2) dist]
  have "map_of (drop_filled fs (ob_index b)) =
      map_of ([] @ by_id (\<lambda>r. (BID, od_price r)) ys @ by_id (\<lambda>r. (ASK, od_price r)) (flat (ob_asks b)))"
    by (rule take_fills_index [OF live assms(2) dist])
      (use dj assms(1) in \<open>auto simp: book_ok_def index_list_def\<close>)
  moreover have "uncrossed ys (flat (ob_asks b))"
    using assms(1) ids(3) by (auto simp: book_ok_def intro: uncrossed_subset)
  ultimately show ?thesis
    using assms(1,3,4) ids dj by (auto simp: book_ok_def resting_orders_def index_list_def)
qed

lemma rest_bid_ok:
  assumes "book_ok b" and "od_id r \<notin> od_id ` set (resting_orders b)" and "0 < od_qty r"
    and "od_price r \<noteq> NaN" and "list_all (\<lambda>y. js_lt (od_price r) (od_price y)) (flat (ob_asks b))"
  shows "book_ok (restBid r b)"
proof -
  have side: "side_ok (\<lambda>p q. js_gt p q) (ob_bids b)" using assms(1) by (simp add: book_ok_def)
  obtain xs1 xs2 where xs: "flat (ob_bids b) = xs1 @ xs2"
    "flat (level_push (\<lambda>p q. js_gt p q) r (ob_bids b)) = xs1 @ r # xs2"
    using price_time_insert_split bids.push_flat [OF side assms(4)] by metis
  have "map_of (ob_index (restBid r b)) = (map_of (index_list b))(od_id r \<mapsto> (BID, od_price r))"
    using assms(1) by (simp add: restBid_def book_ok_def update_conv')
  also have "\<dots> = map_of (index_list (restBid r b))"
    using map_of_insert [of "od_id r" "by_id (\<lambda>r. (BID, od_price r)) xs1"] assms(2)
    by (simp add: index_list_def resting_orders_def xs image_Un del: map_of_append)
  finally show ?thesis
    using assms bids.push_ok [OF side assms(4,3)]
    by (auto simp: book_ok_def resting_orders_def xs uncrossed_def)
qed

lemma rest_ask_ok:
  assumes "book_ok b" and "od_id r \<notin> od_id ` set (resting_orders b)" and "0 < od_qty r"
    and "od_price r \<noteq> NaN" and "list_all (\<lambda>y. js_gt (od_price r) (od_price y)) (flat (ob_bids b))"
  shows "book_ok (restAsk r b)"
proof -
  have side: "side_ok js_lt (ob_asks b)" using assms(1) by (simp add: book_ok_def)
  obtain xs1 xs2 where xs: "flat (ob_asks b) = xs1 @ xs2"
    "flat (level_push js_lt r (ob_asks b)) = xs1 @ r # xs2"
    using price_time_insert_split asks.push_flat [OF side assms(4)] by metis
  let ?ws = "by_id (\<lambda>r. (BID, od_price r)) (flat (ob_bids b)) @ by_id (\<lambda>r. (ASK, od_price r)) xs1"
  have "map_of (ob_index (restAsk r b)) = (map_of (index_list b))(od_id r \<mapsto> (ASK, od_price r))"
    using assms(1) by (simp add: restAsk_def book_ok_def update_conv')
  also have "\<dots> = map_of (index_list (restAsk r b))"
    using map_of_insert [of "od_id r" ?ws] assms(2)
    by (simp add: index_list_def resting_orders_def xs image_Un del: map_of_append)
  finally show ?thesis
    using assms asks.push_ok [OF side assms(4,3)]
    by (auto simp: book_ok_def resting_orders_def xs uncrossed_def list_all_iff)
qed

text \<open>A rest is out of reach of what the match left on the other side.\<close>

lemma left_out_of_reach:
  assumes "price_order before" and "side_ok before ls" and "0 \<le> od_qty ord"
    and "take_fills (\<lambda>p. od_type ord = LIMIT \<and> before (od_price ord) p) (od_qty ord) (flat ls) = (fs, ys)"
    and "fills_qty fs \<noteq> od_qty ord"
  shows "fills_qty fs < od_qty ord" and "list_all (\<lambda>y. before (od_price ord) (od_price y)) ys"
proof -
  note b = take_fills_bounds [OF side_ok_live [OF assms(2)] assms(3,4)]
  show "fills_qty fs < od_qty ord" using b(1) assms(5) by simp
  then have "ys = [] \<or> before (od_price ord) (od_price (hd ys))" using b(4) by blast
  then show "list_all (\<lambda>y. before (od_price ord) (od_price y)) ys"
    by (rule price_order.stopped_out_of_reach [OF assms(1) price_order.sorted_take_fills [OF assms(1)
            price_order.flat_sorted [OF assms(1,2)] assms(4)] b(3)])
qed

lemma submit_shape:
  assumes "book_ok b" and "0 \<le> od_qty ord" and "submit_order ord ts b n = (res, events, b', n')"
  obtains (bid) ls s fs where "od_side ord = BID"
      "take_fills (\<lambda>p. od_type ord = LIMIT \<and> js_gt p (od_price ord)) (od_qty ord) (flat (ob_asks b)) = (fs, flat ls)"
      "side_ok js_lt ls" "s = record_fills ord ts fs (matching_start n (ob_index b))"
      "(res, events, b', n') = settle_order restBid ord ts s
         (b\<lparr>ob_asks := ls, ob_index := drop_filled fs (ob_index b)\<rparr>)"
  | (ask) ls s fs where "od_side ord \<noteq> BID"
      "take_fills (\<lambda>p. od_type ord = LIMIT \<and> js_lt p (od_price ord)) (od_qty ord) (flat (ob_bids b)) = (fs, flat ls)"
      "side_ok (\<lambda>p q. js_gt p q) ls" "s = record_fills ord ts fs (matching_start n (ob_index b))"
      "(res, events, b', n') = settle_order restAsk ord ts s
         (b\<lparr>ob_bids := ls, ob_index := drop_filled fs (ob_index b)\<rparr>)"
proof (cases "od_side ord = BID")
  case True
  let ?m = "match_levels ord ts (\<lambda>p. js_gt p (od_price ord)) (ob_asks b) (matching_start n (ob_index b))"
  have side: "side_ok js_lt (ob_asks b)" using assms(1) by (simp add: book_ok_def)
  obtain fs ys where t: "take_fills (\<lambda>p. od_type ord = LIMIT \<and> js_gt p (od_price ord)) (od_qty ord)
      (flat (ob_asks b)) = (fs, ys)" by fastforce
  have "flat (fst ?m) = ys" "snd ?m = record_fills ord ts fs (matching_start n (ob_index b))"
    using match_levels_flat [OF side, where ord = ord and s = "matching_start n (ob_index b)"] assms(2) t
    by simp_all
  moreover have "(res, events, b', n') = settle_order restBid ord ts (snd ?m)
      (b\<lparr>ob_asks := fst ?m, ob_index := mt_index (snd ?m)\<rparr>)"
    using assms(3) True by (simp add: submit_order_def submitBid_def split_beta Let_def)
  ultimately show thesis
    using t by (intro bid [OF True _ asks.match_levels_ok [OF side] refl]) simp_all
next
  case False
  let ?m = "match_levels ord ts (\<lambda>p. js_lt p (od_price ord)) (ob_bids b) (matching_start n (ob_index b))"
  have side: "side_ok (\<lambda>p q. js_gt p q) (ob_bids b)" using assms(1) by (simp add: book_ok_def)
  obtain fs ys where t: "take_fills (\<lambda>p. od_type ord = LIMIT \<and> js_lt p (od_price ord)) (od_qty ord)
      (flat (ob_bids b)) = (fs, ys)" by fastforce
  have "flat (fst ?m) = ys" "snd ?m = record_fills ord ts fs (matching_start n (ob_index b))"
    using match_levels_flat [OF side, where ord = ord and s = "matching_start n (ob_index b)"] assms(2) t
    by simp_all
  moreover have "(res, events, b', n') = settle_order restAsk ord ts (snd ?m)
      (b\<lparr>ob_bids := fst ?m, ob_index := mt_index (snd ?m)\<rparr>)"
    using assms(3) False by (simp add: submit_order_def submitAsk_def split_beta Let_def)
  ultimately show thesis
    using t by (intro ask [OF False _ bids.match_levels_ok [OF side] refl]) simp_all
qed

lemma submit_ok:
  assumes "book_ok b" and "od_id ord \<notin> od_id ` set (resting_orders b)" and "0 \<le> od_qty ord"
    and "od_price ord \<noteq> NaN" and "submit_order ord ts b n = (res, events, b', n')"
  shows "book_ok b'"
  using assms(1,3,5)
proof (cases rule: submit_shape)
  case (bid ls s fs)
  let ?b = "b\<lparr>ob_asks := ls, ob_index := drop_filled fs (ob_index b)\<rparr>"
  have side: "side_ok js_lt (ob_asks b)" using assms(1) by (simp add: book_ok_def)
  have ok: "book_ok ?b" by (rule consume_asks_ok [OF assms(1) bid(2) refl bid(3)])
  have "od_id ` set (flat ls) \<subseteq> od_id ` set (flat (ob_asks b))"
    using take_fills_ids(2) [OF side_ok_live [OF side] bid(2)] assms(1) by (simp add: book_ok_def resting_orders_def)
  then have "book_ok (restBid (reduceQuantity (fills_qty fs) ord) ?b)" if "fills_qty fs \<noteq> od_qty ord"
    using left_out_of_reach [OF asks.price_order_axioms side assms(3) bid(2) that] assms(2,4)
    by (intro rest_bid_ok [OF ok]) (auto simp: resting_orders_def)
  then show ?thesis using bid(4,5) ok by (auto simp: settle_order_def Let_def split: if_splits)
next
  case (ask ls s fs)
  let ?b = "b\<lparr>ob_bids := ls, ob_index := drop_filled fs (ob_index b)\<rparr>"
  have side: "side_ok (\<lambda>p q. js_gt p q) (ob_bids b)" using assms(1) by (simp add: book_ok_def)
  have ok: "book_ok ?b" by (rule consume_bids_ok [OF assms(1) ask(2) refl ask(3)])
  have "od_id ` set (flat ls) \<subseteq> od_id ` set (flat (ob_bids b))"
    using take_fills_ids(2) [OF side_ok_live [OF side] ask(2)] assms(1) by (simp add: book_ok_def resting_orders_def)
  then have "book_ok (restAsk (reduceQuantity (fills_qty fs) ord) ?b)" if "fills_qty fs \<noteq> od_qty ord"
    using left_out_of_reach [OF bids.price_order_axioms side assms(3) ask(2) that] assms(2,4)
    by (intro rest_ask_ok [OF ok]) (auto simp: resting_orders_def)
  then show ?thesis using ask(4,5) ok by (auto simp: settle_order_def Let_def split: if_splits)
qed

lemma index_lookup:
  assumes "book_ok b"
  shows "omap_get (ob_index b) i = Some (sd, p) \<longleftrightarrow>
    (\<exists>r. od_id r = i \<and> od_price r = p \<and>
      (sd = BID \<and> r \<in> set (flat (ob_bids b)) \<or> sd = ASK \<and> r \<in> set (flat (ob_asks b))))"
proof -
  have "distinct (map fst (index_list b))"
    using assms by (simp add: book_ok_def index_list_def resting_orders_def)
  then have "map_of (index_list b) i = Some (sd, p) \<longleftrightarrow> (i, sd, p) \<in> set (index_list b)"
    by (rule map_of_eq_Some_iff)
  then show ?thesis using assms by (auto simp: book_ok_def index_list_def by_id_def)
qed

lemma index_none:
  "book_ok b \<Longrightarrow> omap_get (ob_index b) i = None \<longleftrightarrow> i \<notin> od_id ` set (resting_orders b)"
  by (simp add: book_ok_def map_of_eq_None_iff index_list_def resting_orders_def image_Un)

text \<open>A cancellation: it finds the order through the index, or there is none.\<close>

lemma cancel_cases:
  assumes "book_ok b"
  obtains res events b' where "cancel i ts b = Some (res, events, b')" and "book_ok b'"
    and "er_cancelOk res = (i \<in> od_id ` set (resting_orders b))"
    and "flat (ob_bids b') = filter (\<lambda>r. od_id r \<noteq> i) (flat (ob_bids b))"
    and "flat (ob_asks b') = filter (\<lambda>r. od_id r \<noteq> i) (flat (ob_asks b))"
    and "events = (if er_cancelOk res then [Top (currentTopOfBook ts b')] else [])"
proof (cases "omap_get (ob_index b) i")
  case None
  then have i: "i \<notin> od_id ` set (resting_orders b)" using index_none [OF assms] by blast
  then have "filter (\<lambda>r. od_id r \<noteq> i) (flat (ob_bids b)) = flat (ob_bids b)"
    "filter (\<lambda>r. od_id r \<noteq> i) (flat (ob_asks b)) = flat (ob_asks b)"
    by (auto simp: resting_orders_def intro!: filter_True)
  then show thesis
    using that [of "cancel_result i ts False" "[]" b] None assms i
    by (simp add: cancel_def cancel_result_def)
next
  case (Some l)
  obtain sd p where l: "l = (sd, p)" by (cases l)
  then obtain r where r: "od_id r = i" "od_price r = p"
    and at: "sd = BID \<and> r \<in> set (flat (ob_bids b)) \<or> sd = ASK \<and> r \<in> set (flat (ob_asks b))"
    using index_lookup [OF assms] Some by blast
  have i: "i \<in> od_id ` set (resting_orders b)" using r(1) at by (auto simp: resting_orders_def)
  have dist: "distinct (map od_id (flat (ob_bids b) @ flat (ob_asks b)))"
    using assms by (simp add: book_ok_def resting_orders_def)
  have by_id_filter: "filter (\<lambda>x. fst x \<noteq> i) (by_id f xs) = by_id f (filter (\<lambda>r. od_id r \<noteq> i) xs)"
    for f :: "xorder \<Rightarrow> order_side \<times> jsnum" and xs by (induction xs) auto
  have index: "map_of (omap_del i (ob_index b)) =
      map_of (by_id (\<lambda>r. (BID, od_price r)) (filter (\<lambda>r. od_id r \<noteq> i) (flat (ob_bids b))) @
        by_id (\<lambda>r. (ASK, od_price r)) (filter (\<lambda>r. od_id r \<noteq> i) (flat (ob_asks b))))"
    using assms by (simp add: delete_conv' book_ok_def index_list_def map_of_filter_key by_id_filter
        del: map_of_append)
  have rest: "uncrossed (filter P xs) (filter P ys)" "distinct (map od_id (filter P xs @ filter P ys))"
    if "uncrossed xs ys" "distinct (map od_id (xs @ ys))" for P and xs ys :: "xorder list"
    using that by (auto simp: uncrossed_def list_all_iff intro: distinct_map_filter)
  show thesis
  proof (cases "sd = BID")
    case True
    then have r_at: "r \<in> set (flat (ob_bids b))" using at by simp
    have "filter (\<lambda>r. od_id r \<noteq> i) (flat (ob_asks b)) = flat (ob_asks b)"
      using dist r(1) r_at by (intro filter_True) force
    moreover have "side_ok (\<lambda>p q. js_gt p q) (ob_bids b)" "distinct (map od_id (flat (ob_bids b)))"
      using assms dist by (simp_all add: book_ok_def)
    then obtain ls where "level_erase (od_id r) (od_price r) (ob_bids b) = Some ls"
      "flat ls = filter (\<lambda>x. od_id x \<noteq> od_id r) (flat (ob_bids b))" "side_ok (\<lambda>p q. js_gt p q) ls"
      using bids.erase_flat [OF _ r_at] by blast
    ultimately show thesis
      using that True Some l i index r rest [where P = "\<lambda>r. od_id r \<noteq> i" and xs = "flat (ob_bids b)" and ys = "flat (ob_asks b)"] assms dist
      by (simp add: cancel_def cancel_result_def book_ok_def index_list_def resting_orders_def)
  next
    case False
    then have r_at: "r \<in> set (flat (ob_asks b))" using at by simp
    have "filter (\<lambda>r. od_id r \<noteq> i) (flat (ob_bids b)) = flat (ob_bids b)"
      using dist r(1) r_at by (intro filter_True) force
    moreover have "side_ok js_lt (ob_asks b)" "distinct (map od_id (flat (ob_asks b)))"
      using assms dist by (simp_all add: book_ok_def)
    then obtain ls where "level_erase (od_id r) (od_price r) (ob_asks b) = Some ls"
      "flat ls = filter (\<lambda>x. od_id x \<noteq> od_id r) (flat (ob_asks b))" "side_ok js_lt ls"
      using asks.erase_flat [OF _ r_at] by blast
    ultimately show thesis
      using that False Some l i index r rest [where P = "\<lambda>r. od_id r \<noteq> i" and xs = "flat (ob_bids b)" and ys = "flat (ob_asks b)"] assms dist
      by (simp add: cancel_def cancel_result_def book_ok_def index_list_def resting_orders_def)
  qed
qed

section \<open>What a submission reports\<close>

fun trade_events :: "market_event list \<Rightarrow> trade list" where
  "trade_events [] = []"
| "trade_events (Trade t # es) = t # trade_events es"
| "trade_events (_ # es) = trade_events es"

lemma trade_events_simps [simp]:
  "trade_events (es @ es') = trade_events es @ trade_events es'"
  "trade_events (map Trade ts) = ts"
proof -
  show "trade_events (es @ es') = trade_events es @ trade_events es'"
    by (induction es rule: trade_events.induct) simp_all
  show "trade_events (map Trade ts) = ts" by (induction ts) simp_all
qed

lemma level_qty_simps [simp]:
  "level_qty [] = 0"
  "level_qty (r # rs) = od_qty r + level_qty rs"
  "level_qty (xs @ ys) = level_qty xs + level_qty ys"
  by (simp_all add: level_qty_def)

lemma fill_trades_map:
  "map td_qty (fill_trades ord ts n fs) = map snd fs"
  "map td_price (fill_trades ord ts n fs) = map (od_price \<circ> fst) fs"
  "map td_resting (fill_trades ord ts n fs) = map (od_id \<circ> fst) fs"
  by (induction fs arbitrary: n) auto

lemma take_fills_total:
  assumes "take_fills stop n xs = (fs, ys)"
  shows "level_qty ys + fills_qty fs = level_qty xs"
  using assms
  by (induction stop n xs arbitrary: fs ys rule: take_fills.induct) (auto split: if_splits prod.splits)

lemma level_qty_push: "level_qty (flat (level_push before r ls)) = od_qty r + level_qty (flat ls)"
  by (induction before r ls rule: level_push.induct) auto

text \<open>
  C12. No quantity is lost or made up. The filled quantity of the answer is the sum of the trades,
  each of a positive quantity, and stays between 0 and the quantity of the order; the answer says
  \<open>FILLED\<close> exactly when all of it traded; and the quantity resting in the book falls by what
  traded and grows by the rest exactly when the answer says \<open>QUEUED\<close> or \<open>PARTIAL\<close>.
\<close>

theorem submission_conserves_quantity:
  assumes "book_ok b" and "0 \<le> od_qty ord" and "submit_order ord ts b n = (res, events, b', n')"
  shows "er_filled res = sum_list (map td_qty (trade_events events)) \<and>
    list_all (\<lambda>t. 0 < td_qty t) (trade_events events) \<and>
    0 \<le> er_filled res \<and> er_filled res \<le> od_qty ord \<and>
    (er_status res = FILLED) = (er_filled res = od_qty ord) \<and>
    level_qty (resting_orders b') = level_qty (resting_orders b) - er_filled res +
      (if er_status res = QUEUED \<or> er_status res = PARTIAL then od_qty ord - er_filled res else 0)"
proof -
  have live: "live (flat (ob_bids b))" "live (flat (ob_asks b))"
    using assms(1) side_ok_live by (auto simp: book_ok_def)
  have pos: "list_all (\<lambda>t. 0 < td_qty t) (fill_trades ord ts n fs)"
    if "list_all (\<lambda>(r, q). 0 < q \<and> q \<le> od_qty r) fs" for fs
    using that by (induction fs arbitrary: n) auto
  show ?thesis
    using assms
  proof (cases rule: submit_shape)
    case (bid ls s fs)
    note b = take_fills_bounds [OF live(2) assms(2) bid(2)]
    show ?thesis
      using bid(4,5) b(1) pos [OF b(2)] fills_qty_nonneg [OF b(2)] take_fills_total [OF bid(2)]
      by (auto simp: settle_order_def Let_def submit_result_def submit_status_def resting_orders_def level_qty_push
          fill_trades_map fills_qty_def split: if_splits)
  next
    case (ask ls s fs)
    note b = take_fills_bounds [OF live(1) assms(2) ask(2)]
    show ?thesis
      using ask(4,5) b(1) pos [OF b(2)] fills_qty_nonneg [OF b(2)] take_fills_total [OF ask(2)]
      by (auto simp: settle_order_def Let_def submit_result_def submit_status_def resting_orders_def level_qty_push
          fill_trades_map fills_qty_def split: if_splits)
  qed
qed

definition ex_order :: "string \<Rightarrow> order_side \<Rightarrow> order_type \<Rightarrow> int \<Rightarrow> int \<Rightarrow> xorder" where
  "ex_order i sd ty p q = \<lparr>od_side = sd, od_type = ty, od_price = js_int p, od_qty = q, od_id = i,
     od_node = ''mm-1''\<rparr>"

text \<open>A book with two orders at 101, one at 102, and a bid at 99.\<close>

definition ex_obook :: book where
  "ex_obook = restBid (ex_order ''B1'' BID LIMIT 99 4) (restAsk (ex_order ''A3'' ASK LIMIT 102 5)
     (restAsk (ex_order ''A2'' ASK LIMIT 101 2) (restAsk (ex_order ''A1'' ASK LIMIT 101 3) empty_book)))"

lemma ex_obook_ok: "book_ok ex_obook"
  by (simp add: ex_obook_def ex_order_def restBid_def restAsk_def empty_book_def book_ok_def js_lt_def
      level_ok_def uncrossed_def resting_orders_def index_list_def fun_eq_iff)

theorem submission_conserves_quantity_witness:
  "case submit_order (ex_order ''C'' BID LIMIT 101 4) 7 ex_obook 0 of (res, events, b', n') \<Rightarrow>
     er_filled res = sum_list (map td_qty (trade_events events)) \<and>
     level_qty (resting_orders b') = level_qty (resting_orders ex_obook) - er_filled res"
proof -
  obtain res events b' n' where s: "submit_order (ex_order ''C'' BID LIMIT 101 4) 7 ex_obook 0 = (res, events, b', n')"
    by (metis prod_cases4)
  have "er_status res = FILLED"
    using s by (auto simp: submit_order_def submitBid_def settle_order_def Let_def submit_result_def submit_status_def
        ex_obook_def ex_order_def restBid_def restAsk_def empty_book_def js_lt_def fill_order_def
        matching_start_def reduceQuantity_def split: if_splits prod.splits)
  then show ?thesis
    using submission_conserves_quantity [OF ex_obook_ok _ s] s by (simp add: ex_order_def)
qed

text \<open>
  C21. A limit is respected and better prices come first: the trades of a submission hit the
  opposite side in its priority order, every order but the last one they hit is filled
  completely, no trade of a limit order is at a price worse than its limit, and no resting order
  that was passed over has a better price than one that traded.
\<close>

theorem limit_respected:
  assumes "book_ok b" and "0 \<le> od_qty ord" and "submit_order ord ts b n = (res, events, b', n')"
    and "trades = trade_events events" and "k = length trades"
    and "opp = flat (if od_side ord = BID then ob_asks b else ob_bids b)"
  shows "map td_resting trades = take k (map od_id opp) \<and>
    map td_price trades = take k (map od_price opp) \<and>
    butlast (map td_qty trades) = take (k - 1) (map od_qty opp) \<and>
    (od_type ord = LIMIT \<longrightarrow> list_all (\<lambda>t. if od_side ord = BID then \<not> js_gt (td_price t) (od_price ord)
       else \<not> js_lt (td_price t) (od_price ord)) trades)"
proof -
  have prefix: "map td_resting trades = take k (map od_id opp) \<and>
      map td_price trades = take k (map od_price opp) \<and>
      butlast (map td_qty trades) = take (k - 1) (map od_qty opp) \<and>
      list_all (\<lambda>t. \<not> stop (td_price t)) trades"
    if t: "take_fills stop (od_qty ord) opp = (fs, ys)" "trades = fill_trades ord ts n fs" "live opp" for stop fs ys
  proof -
    note p = take_fills_prefix [OF t(3,1)]
    have len: "length fs = k" using assms(5) t(2) arg_cong [OF fill_trades_map(1), of length] by simp
    have "map td_resting trades = map od_id (map fst fs)" "map td_price trades = map od_price (map fst fs)"
      using t(2) by (simp_all add: fill_trades_map)
    then have one: "map td_resting trades = take k (map od_id opp)" "map td_price trades = take k (map od_price opp)"
      using p(1) len by (simp_all add: take_map)
    have "map snd (butlast fs) = map od_qty (map fst (butlast fs))"
      using p(2) by (auto simp: list_all_iff)
    moreover have "map fst (butlast fs) = butlast (take k opp)"
      using p(1) len by (metis map_butlast)
    moreover have "butlast (take k opp) = take (k - 1) opp"
      using arg_cong [OF p(1), of length] len by (intro butlast_take) simp
    ultimately have two: "butlast (map td_qty trades) = take (k - 1) (map od_qty opp)"
      using t(2) by (metis fill_trades_map(1) map_butlast take_map)
    have "list_all (\<lambda>p. \<not> stop p) (map (od_price \<circ> fst) fs)"
      using p(3) by (auto simp: list_all_iff)
    then have "list_all (\<lambda>p. \<not> stop p) (map td_price trades)" using t(2) by (simp add: fill_trades_map)
    then have "list_all (\<lambda>t. \<not> stop (td_price t)) trades" by (simp add: list.pred_map comp_def)
    then show ?thesis using one two by simp
  qed
  have live: "live (flat (ob_bids b))" "live (flat (ob_asks b))"
    using assms(1) side_ok_live by (auto simp: book_ok_def)
  show ?thesis
    using assms(1-3)
  proof (cases rule: submit_shape)
    case (bid ls s fs)
    then have "trades = fill_trades ord ts n fs" using assms(4) by (auto simp: settle_order_def Let_def)
    then show ?thesis
      using prefix [of "\<lambda>p. od_type ord = LIMIT \<and> js_gt p (od_price ord)" fs] bid(1,2) live(2) assms(6)
      by (auto simp: list_all_iff)
  next
    case (ask ls s fs)
    then have "trades = fill_trades ord ts n fs" using assms(4) by (auto simp: settle_order_def Let_def)
    then show ?thesis
      using prefix [of "\<lambda>p. od_type ord = LIMIT \<and> js_lt p (od_price ord)" fs] ask(1,2) live(1) assms(6)
      by (auto simp: list_all_iff)
  qed
qed

text \<open>
  The engine checks no quantity: a bid of a negative quantity trades with nobody and rests at its
  price, also when that is above the best ask.
\<close>

lemma negative_quantity_crosses:
  assumes "od_side ord = BID" and "od_type ord = LIMIT" and "od_qty ord < 0"
    and "a \<in> set (flat (ob_asks b))" and "\<not> js_lt (od_price ord) (od_price a)"
    and "submit_order ord ts b n = (res, events, b', n')"
  shows "er_status res = QUEUED \<and> er_filled res = 0 \<and> trade_events events = [] \<and> n' = n \<and>
    ord \<in> set (flat (ob_bids b')) \<and> flat (ob_asks b') = flat (ob_asks b) \<and> \<not> uncrossed (flat (ob_bids b')) (flat (ob_asks b'))"
proof -
  have "match_levels ord ts worse (ob_asks b) (matching_start n (ob_index b)) =
      (ob_asks b, matching_start n (ob_index b))" for worse
    using assms(3) by (cases "ob_asks b") (auto simp: matching_start_def)
  moreover have "set (flat (level_push before r ls)) = insert r (set (flat ls))" for before r ls
    by (induction before r ls rule: level_push.induct) auto
  moreover have "reduceQuantity 0 ord = ord" by (simp add: reduceQuantity_def)
  ultimately show ?thesis
    using assms by (auto simp: submit_order_def submitBid_def settle_order_def Let_def submit_result_def submit_status_def
        uncrossed_def list_all_iff trade_events.simps)
qed


theorem limit_respected_witness:
  "case submit_order (ex_order ''C'' BID LIMIT 101 4) 7 ex_obook 0 of (res, events, b', n') \<Rightarrow>
     map td_resting (trade_events events) = [''A1'', ''A2''] \<and>
     map td_price (trade_events events) = [js_int 101, js_int 101]"
proof -
  obtain res events b' n' where s: "submit_order (ex_order ''C'' BID LIMIT 101 4) 7 ex_obook 0 = (res, events, b', n')"
    by (metis prod_cases4)
  have opp: "flat (ob_asks ex_obook) = [ex_order ''A1'' ASK LIMIT 101 3, ex_order ''A2'' ASK LIMIT 101 2,
      ex_order ''A3'' ASK LIMIT 102 5]"
    by (simp add: ex_obook_def ex_order_def restBid_def restAsk_def empty_book_def js_lt_def)
  have k: "length (trade_events events) = 2"
    using s by (auto simp: submit_order_def submitBid_def settle_order_def Let_def ex_obook_def ex_order_def
        restBid_def restAsk_def empty_book_def js_lt_def fill_order_def matching_start_def
        reduceQuantity_def split: if_splits prod.splits)
  show ?thesis
    using limit_respected [OF ex_obook_ok _ s refl refl refl] s k opp by (simp add: ex_order_def)
qed

text \<open>
  C3. Price-time priority. On a book with ordered sides, submitting an order of non-negative
  quantity does what the reference does on the two flat lists: the opposite side is consumed from
  the front while the limit allows, and the rest of anything but a market order goes behind every
  order at its price or better. The events are one trade per fill, each at the price of the
  resting order, in order, and then the new top of the book; the answer reports the filled
  quantity.
\<close>

theorem submit_refines:
  assumes "side_ok (\<lambda>p q. js_gt p q) (ob_bids b)" and "side_ok js_lt (ob_asks b)"
    and "0 \<le> od_qty ord" and "od_price ord \<noteq> NaN"
    and "spec_submit ord (flat (ob_bids b)) (flat (ob_asks b)) = (fs, bs, as)"
    and "submit_order ord ts b n = (res, events, b', n')"
  shows "flat (ob_bids b') = bs \<and> flat (ob_asks b') = as \<and>
    events = map Trade (fill_trades ord ts n fs) @ [Top (currentTopOfBook ts b')] \<and>
    n' = n + length fs \<and> er_filled res = fills_qty fs"
proof (cases "od_side ord = BID")
  case True
  let ?m = "match_levels ord ts (\<lambda>p. js_gt p (od_price ord)) (ob_asks b) (matching_start n (ob_index b))"
  obtain ys where t: "take_fills (\<lambda>p. od_type ord = LIMIT \<and> js_gt p (od_price ord)) (od_qty ord)
      (flat (ob_asks b)) = (fs, ys)" and o: "as = ys" "bs = spec_rest (\<lambda>p q. js_gt p q) ord fs (flat (ob_bids b))"
    using assms(5) True by (auto simp: spec_submit_def split: prod.splits)
  have "flat (fst ?m) = ys" "snd ?m = record_fills ord ts fs (matching_start n (ob_index b))"
    using match_levels_flat [OF assms(2), where ord = ord and s = "matching_start n (ob_index b)"] assms(3) t
    by simp_all
  then show ?thesis
    using assms(6) True o bids.push_flat [OF assms(1)] assms(4)
    by (auto simp: submit_order_def submitBid_def settle_order_def submit_result_def spec_rest_def split_beta Let_def)
next
  case False
  let ?m = "match_levels ord ts (\<lambda>p. js_lt p (od_price ord)) (ob_bids b) (matching_start n (ob_index b))"
  obtain ys where t: "take_fills (\<lambda>p. od_type ord = LIMIT \<and> js_lt p (od_price ord)) (od_qty ord)
      (flat (ob_bids b)) = (fs, ys)" and o: "bs = ys" "as = spec_rest js_lt ord fs (flat (ob_asks b))"
    using assms(5) False by (auto simp: spec_submit_def split: prod.splits)
  have "flat (fst ?m) = ys" "snd ?m = record_fills ord ts fs (matching_start n (ob_index b))"
    using match_levels_flat [OF assms(1), where ord = ord and s = "matching_start n (ob_index b)"] assms(3) t
    by simp_all
  then show ?thesis
    using assms(6) False o asks.push_flat [OF assms(2)] assms(4)
    by (auto simp: submit_order_def submitAsk_def settle_order_def submit_result_def spec_rest_def split_beta Let_def)
qed

theorem submit_refines_witness:
  "case submit_order (ex_order ''C'' BID LIMIT 101 9) 7 ex_obook 0 of (res, events, b', n') \<Rightarrow>
     flat (ob_bids b') = [ex_order ''C'' BID LIMIT 101 4, ex_order ''B1'' BID LIMIT 99 4] \<and>
     flat (ob_asks b') = [ex_order ''A3'' ASK LIMIT 102 5] \<and> er_filled res = 5"
proof -
  obtain res events b' n' where s: "submit_order (ex_order ''C'' BID LIMIT 101 9) 7 ex_obook 0 = (res, events, b', n')"
    by (metis prod_cases4)
  have sides: "flat (ob_asks ex_obook) = [ex_order ''A1'' ASK LIMIT 101 3, ex_order ''A2'' ASK LIMIT 101 2,
      ex_order ''A3'' ASK LIMIT 102 5]" "flat (ob_bids ex_obook) = [ex_order ''B1'' BID LIMIT 99 4]"
    by (simp_all add: ex_obook_def ex_order_def restBid_def restAsk_def empty_book_def js_lt_def)
  have spec: "spec_submit (ex_order ''C'' BID LIMIT 101 9) (flat (ob_bids ex_obook)) (flat (ob_asks ex_obook)) =
     ([(ex_order ''A1'' ASK LIMIT 101 3, 3), (ex_order ''A2'' ASK LIMIT 101 2, 2)],
      [ex_order ''C'' BID LIMIT 101 4, ex_order ''B1'' BID LIMIT 99 4], [ex_order ''A3'' ASK LIMIT 102 5])"
    by (simp add: sides spec_submit_def spec_rest_def ex_order_def js_lt_def price_time_insert_def
        reduceQuantity_def)
  show ?thesis
    using submit_refines [OF _ _ _ _ spec s] ex_obook_ok s
    by (simp add: book_ok_def ex_order_def)
qed

text \<open>
  C20. A cancellation never follows a dangling entry of the index. It fails exactly when no order
  with that id rests, and then changes nothing; otherwise exactly that order leaves the book, all
  others keep their places, and the book is well formed again.
\<close>

theorem cancel_removes_order:
  assumes "book_ok b"
  shows "\<exists>res events b'. cancel i ts b = Some (res, events, b') \<and> book_ok b' \<and>
    er_cancelOk res = (i \<in> od_id ` set (resting_orders b)) \<and>
    resting_orders b' = filter (\<lambda>r. od_id r \<noteq> i) (resting_orders b) \<and>
    (er_cancelOk res \<or> b' = b \<and> events = [])"
proof -
  obtain res events b' where c: "cancel i ts b = Some (res, events, b')" "book_ok b'"
    "er_cancelOk res = (i \<in> od_id ` set (resting_orders b))"
    "flat (ob_bids b') = filter (\<lambda>r. od_id r \<noteq> i) (flat (ob_bids b))"
    "flat (ob_asks b') = filter (\<lambda>r. od_id r \<noteq> i) (flat (ob_asks b))"
    by (rule cancel_cases [OF assms])
  moreover have "er_cancelOk res \<or> b' = b \<and> events = []"
    using c(1) by (auto simp: cancel_def cancel_result_def split: option.splits)
  ultimately show ?thesis by (simp add: resting_orders_def)
qed

theorem cancel_removes_order_witness:
  "\<exists>res events b'. cancel ''A2'' 7 ex_obook = Some (res, events, b') \<and> er_cancelOk res \<and>
    map od_id (resting_orders b') = [''B1'', ''A1'', ''A3'']"
proof -
  have "resting_orders ex_obook = [ex_order ''B1'' BID LIMIT 99 4, ex_order ''A1'' ASK LIMIT 101 3,
      ex_order ''A2'' ASK LIMIT 101 2, ex_order ''A3'' ASK LIMIT 102 5]"
    by (simp add: resting_orders_def ex_obook_def ex_order_def restBid_def restAsk_def empty_book_def js_lt_def)
  then show ?thesis
    using cancel_removes_order [OF ex_obook_ok, of "''A2''" 7] by (auto simp: ex_order_def)
qed

section \<open>What the depth shows\<close>

text \<open>The reference: the distinct prices in order of priority, each with what rests there.\<close>

definition aggregated :: "xorder list \<Rightarrow> depth_level list" where
  "aggregated xs = map (\<lambda>p. \<lparr>dl_price = p, dl_qty = level_qty (filter (\<lambda>r. od_price r = p) xs),
     dl_orders = length (filter (\<lambda>r. od_price r = p) xs)\<rparr>) (remdups (map od_price xs))"

lemma collect_levels:
  "collect n ls = take n (map (\<lambda>(p, rs). \<lparr>dl_price = p, dl_qty = level_qty rs, dl_orders = length rs\<rparr>) ls)"
  by (induction n ls rule: collect.induct) auto

lemma remdups_const_append:
  assumes "xs \<noteq> []" and "list_all (\<lambda>x. x = p) xs" and "p \<notin> set ys"
  shows "remdups (xs @ ys) = p # remdups ys"
  using assms
proof (induction xs)
  case (Cons x xs)
  then show ?case by (cases xs) auto
qed simp

lemma levels_aggregated:
  assumes "price_order before" and "side_ok before ls"
  shows "map (\<lambda>(p, rs). \<lparr>dl_price = p, dl_qty = level_qty rs, dl_orders = length rs\<rparr>) ls = aggregated (flat ls)"
  using assms(2)
proof (induction ls)
  case (Cons l ls)
  obtain p rs where l: "l = (p, rs)" by (cases l)
  have ok: "level_ok (p, rs)" "list_all (before p) (map fst ls)" "side_ok before ls"
    using Cons.prems by (simp_all add: l)
  have rs: "rs \<noteq> []" "\<And>r. r \<in> set rs \<Longrightarrow> od_price r = p"
    using ok(1) by (auto simp: level_ok_def list_all_iff)
  have later: "od_price r \<noteq> p" if r: "r \<in> set (flat ls)" for r
  proof -
    obtain q qs where q: "(q, qs) \<in> set ls" "r \<in> set qs" using r by (force simp: flat_def)
    then have "before p q" "od_price r = q"
      using ok(2,3) by (fastforce simp: side_ok_def level_ok_def list_all_iff)+
    then show ?thesis using price_order.before_irrefl [OF assms(1)] by blast
  qed
  have prices: "remdups (map od_price rs @ map od_price (flat ls)) = p # remdups (map od_price (flat ls))"
    using rs later by (intro remdups_const_append) (auto simp: list_all_iff)
  have here: "filter (\<lambda>r. od_price r = p) rs = rs"
    using rs by (auto intro!: filter_True)
  have not_here: "filter (\<lambda>r. od_price r = p) (flat ls) = []"
    using later by (auto intro!: filter_False)
  have there: "filter (\<lambda>r. od_price r = q) rs = []" if "q \<in> od_price ` set (flat ls)" for q
  proof -
    have "q \<noteq> p" using that later by auto
    then show ?thesis using rs by (auto intro!: filter_False)
  qed
  have "aggregated (rs @ flat ls) =
      \<lparr>dl_price = p, dl_qty = level_qty rs, dl_orders = length rs\<rparr> # aggregated (flat ls)"
    using there by (simp add: aggregated_def prices here not_here)
  then show ?case using Cons.IH [OF ok(3)] by (simp add: l)
qed (simp add: aggregated_def)

text \<open>
  C38. The depth a record carries and the top of book are what the resting orders add up to: the
  best \<open>n\<close> prices of each side in order of priority, each with the total quantity and the number
  of the orders at that price, and the top of book is the first line of either side.
\<close>

theorem depth_aggregates:
  assumes "book_ok b"
  shows "dp_bids (depth n b) = take n (aggregated (flat (ob_bids b))) \<and>
    dp_asks (depth n b) = take n (aggregated (flat (ob_asks b))) \<and>
    (let tob = currentTopOfBook ts b; d = depth (Suc n) b
     in (tp_bid tob, tp_bidQty tob) = (case dp_bids d of [] \<Rightarrow> (None, None)
          | l # _ \<Rightarrow> (Some (dl_price l), Some (dl_qty l))) \<and>
        (tp_ask tob, tp_askQty tob) = (case dp_asks d of [] \<Rightarrow> (None, None)
          | l # _ \<Rightarrow> (Some (dl_price l), Some (dl_qty l))))"
proof -
  have "dp_bids (depth n b) = take n (aggregated (flat (ob_bids b)))"
    "dp_asks (depth n b) = take n (aggregated (flat (ob_asks b)))"
    using assms levels_aggregated [OF bids.price_order_axioms] levels_aggregated [OF asks.price_order_axioms]
    by (simp_all add: depth_def collect_levels book_ok_def)
  then show ?thesis
    by (cases "ob_bids b"; cases "ob_asks b")
       (auto simp: currentTopOfBook_def depth_def Let_def)
qed

theorem depth_aggregates_witness:
  "map (\<lambda>l. (dl_price l, dl_qty l, dl_orders l)) (dp_asks (depth 1 ex_obook)) = [(js_int 101, 5, 2)]"
proof -
  have "flat (ob_asks ex_obook) = [ex_order ''A1'' ASK LIMIT 101 3, ex_order ''A2'' ASK LIMIT 101 2,
      ex_order ''A3'' ASK LIMIT 102 5]"
    by (simp add: ex_obook_def ex_order_def restBid_def restAsk_def empty_book_def js_lt_def)
  then show ?thesis
    using depth_aggregates [OF ex_obook_ok, of 1 0] by (simp add: aggregated_def ex_order_def)
qed

end
