(* ===== verification/Exchange.thy ===== *)
theory Exchange
  imports Book_Laws "HOL-Library.Multiset"
begin

text \<open>
  The exchange around the order book: the handlers of the gRPC services
  (\<^verbatim>\<open>service/exchangeService.cpp\<close>), the matching engine that serves their messages one by one
  (\<^verbatim>\<open>engine/matchingEngine.{h,cpp}\<close>), and the publishers it feeds
  (\<^verbatim>\<open>engine/marketDataPublisher.cpp\<close>, \<^verbatim>\<open>engine/telemetry.h\<close>).

  The threads of the server interleave: a handler takes an order id and enqueues its message later,
  so that messages may reach the queue in another order than their ids (\<open>Enqueue k\<close> lets the
  \<open>k\<close>-th waiting handler go on). One message is processed in one step of the engine thread. The
  lock-free queue of \<^verbatim>\<open>repo/mpscqueue.h\<close> is the list of what was enqueued and not yet
  dequeued, in order; its buffers and atomics are not modelled. Clock readings come with the
  events. A promise is the number of the call that waits for it.

  Shown here: no message runs into undefined behaviour, the book keeps its invariant, order ids
  never repeat, every call is answered exactly once (\<open>calls_answered_once\<close>), and each subscriber
  of telemetry receives every record since its subscription, numbered without gaps.
\<close>

section \<open>Messages and records\<close>

datatype payload =
    No_payload
  | SubmitPayload xorder
  | CancelPayload string string

record queue_message =
  qm_payload :: payload
  qm_promise :: "nat option"
  qm_tRpcIn :: int
  qm_tEnqueue :: int

record telemetry_record =
  tl_seq :: nat
  tl_time :: int
  tl_isCancel :: bool
  tl_orderId :: string
  tl_nodeId :: string
  tl_side :: order_side
  tl_type :: order_type
  tl_price :: jsnum
  tl_qty :: int
  tl_result :: engine_result
  tl_tRpcIn :: int
  tl_tEnqueue :: int
  tl_tDequeue :: int
  tl_tMatchDone :: int
  tl_tPromiseSet :: int
  tl_tPublish :: int
  tl_events :: "market_event list"
  tl_depth :: book_depth

text \<open>The requests of the services, with the numbers of their enumerations.\<close>

record submit_request =
  rq_node :: string
  rq_side :: int
  rq_type :: int
  rq_price :: jsnum
  rq_qty :: int

record submit_response =
  rp_status :: order_status
  rp_orderId :: string
  rp_qty :: int
  rp_avg :: jsnum
  rp_time :: int
  rp_reason :: string

definition no_result :: "int \<Rightarrow> engine_result" where
  "no_result ts = \<lparr>er_status = ORDER_STATUS_UNSPECIFIED, er_orderId = [], er_filled = 0,
     er_avg = Fin 0, er_time = ts, er_reason = [], er_cancelOk = False\<rparr>"

definition protoToOrderSide :: "int \<Rightarrow> order_side" where
  "protoToOrderSide n = (if n = 0 then SIDE_UNSPECIFIED else if n = 1 then BID else if n = 2 then ASK
     else Other_side n)"

definition protoToOrderType :: "int \<Rightarrow> order_type" where
  "protoToOrderType n = (if n = 0 then ORDER_TYPE_UNSPECIFIED else if n = 1 then MARKET
     else if n = 2 then LIMIT else Other_type n)"

definition protoToOrder :: "submit_request \<Rightarrow> xorder" where
  "protoToOrder rq = \<lparr>od_side = protoToOrderSide (rq_side rq), od_type = protoToOrderType (rq_type rq),
     od_price = rq_price rq, od_qty = rq_qty rq, od_id = [], od_node = []\<rparr>"

definition order_id :: "nat \<Rightarrow> string" where
  "order_id n = ''ORD-'' @ digits n"

definition submit_response :: "engine_result \<Rightarrow> submit_response" where
  "submit_response r = \<lparr>rp_status = er_status r, rp_orderId = er_orderId r, rp_qty = er_filled r,
     rp_avg = er_avg r, rp_time = er_time r, rp_reason = er_reason r\<rparr>"

section \<open>The state of the server\<close>

text \<open>
  A subscriber's queue, and what its stream has written so far. Both publishers number their
  subscribers from 1 on.
\<close>

record 'a subscriber =
  sb_written :: "'a list"
  sb_queue :: "'a list"

record 'a publisher =
  pb_subscribers :: "(nat, 'a subscriber) omap"
  pb_nextId :: nat

record exchange =
  x_nextOrder :: nat
  x_nextCall :: nat
  x_calls :: "queue_message list"
  x_queue :: "queue_message list"
  x_results :: "(nat \<times> engine_result) list"
  x_book :: book
  x_nextTrade :: nat
  x_seq :: nat
  x_market :: "market_event publisher"
  x_telemetry :: "telemetry_record publisher"

definition new_publisher :: "'a publisher" where
  "new_publisher = \<lparr>pb_subscribers = [], pb_nextId = 1\<rparr>"

definition new_exchange :: exchange where
  "new_exchange = \<lparr>x_nextOrder = 0, x_nextCall = 0, x_calls = [], x_queue = [], x_results = [],
     x_book = empty_book, x_nextTrade = 0, x_seq = 0, x_market = new_publisher,
     x_telemetry = new_publisher\<rparr>"

definition subscribe :: "'a publisher \<Rightarrow> 'a publisher" where
  "subscribe p = p\<lparr>pb_subscribers := omap_set (pb_nextId p) \<lparr>sb_written = [], sb_queue = []\<rparr> (pb_subscribers p),
     pb_nextId := Suc (pb_nextId p)\<rparr>"

definition unsubscribe :: "nat \<Rightarrow> 'a publisher \<Rightarrow> 'a publisher" where
  "unsubscribe i p = p\<lparr>pb_subscribers := omap_del i (pb_subscribers p)\<rparr>"

definition publish :: "'a list \<Rightarrow> 'a publisher \<Rightarrow> 'a publisher" where
  "publish es p = p\<lparr>pb_subscribers :=
     map (\<lambda>(i, s). (i, s\<lparr>sb_queue := sb_queue s @ es\<rparr>)) (pb_subscribers p)\<rparr>"

text \<open>The loop of a streaming handler: dequeue an element and write it.\<close>

definition write_next :: "nat \<Rightarrow> 'a publisher \<Rightarrow> 'a publisher" where
  "write_next i p =
     (case omap_get (pb_subscribers p) i of
        Some s \<Rightarrow>
          (case sb_queue s of
             [] \<Rightarrow> p
           | e # es \<Rightarrow> p\<lparr>pb_subscribers := omap_set i \<lparr>sb_written = sb_written s @ [e], sb_queue = es\<rparr>
                          (pb_subscribers p)\<rparr>)
      | None \<Rightarrow> p)"

definition hasSubscribers :: "'a publisher \<Rightarrow> bool" where
  "hasSubscribers p = (pb_subscribers p \<noteq> [])"

section \<open>The handlers\<close>

definition SubmitOrder_rpc :: "submit_request \<Rightarrow> int \<Rightarrow> int \<Rightarrow> exchange \<Rightarrow> exchange" where
  "SubmitOrder_rpc rq tRpcIn tEnqueue x =
     (let ord = (protoToOrder rq)\<lparr>od_id := order_id (x_nextOrder x), od_node := rq_node rq\<rparr>
      in x\<lparr>x_nextOrder := Suc (x_nextOrder x), x_nextCall := Suc (x_nextCall x),
           x_calls := x_calls x @ [\<lparr>qm_payload = SubmitPayload ord, qm_promise = Some (x_nextCall x),
             qm_tRpcIn = tRpcIn, qm_tEnqueue = tEnqueue\<rparr>]\<rparr>)"

definition CancelOrder_rpc :: "string \<Rightarrow> string \<Rightarrow> int \<Rightarrow> int \<Rightarrow> exchange \<Rightarrow> exchange" where
  "CancelOrder_rpc i node tRpcIn tEnqueue x =
     x\<lparr>x_nextCall := Suc (x_nextCall x),
       x_calls := x_calls x @ [\<lparr>qm_payload = CancelPayload i node, qm_promise = Some (x_nextCall x),
         qm_tRpcIn = tRpcIn, qm_tEnqueue = tEnqueue\<rparr>]\<rparr>"

definition enqueue :: "nat \<Rightarrow> exchange \<Rightarrow> exchange" where
  "enqueue k x =
     (if k < length (x_calls x)
      then x\<lparr>x_calls := take k (x_calls x) @ drop (Suc k) (x_calls x),
             x_queue := x_queue x @ [x_calls x ! k]\<rparr>
      else x)"

section \<open>The engine\<close>

record engine_clock =
  ck_millis :: int
  ck_dequeue :: int
  ck_matchDone :: int
  ck_promiseSet :: int
  ck_publish :: int

fun describe_payload :: "payload \<Rightarrow> telemetry_record \<Rightarrow> telemetry_record" where
  "describe_payload (SubmitPayload ord) r = r\<lparr>tl_isCancel := False, tl_orderId := od_id ord,
     tl_nodeId := od_node ord, tl_side := od_side ord, tl_type := od_type ord,
     tl_price := od_price ord, tl_qty := od_qty ord\<rparr>"
| "describe_payload (CancelPayload i node) r = r\<lparr>tl_isCancel := True, tl_orderId := i, tl_nodeId := node\<rparr>"
| "describe_payload No_payload r = r"

fun run_payload :: "payload \<Rightarrow> int \<Rightarrow> book \<Rightarrow> nat \<Rightarrow> submit_outcome option" where
  "run_payload (SubmitPayload ord) ts b n = Some (submit_order ord ts b n)"
| "run_payload (CancelPayload i node) ts b n =
     map_option (\<lambda>(res, events, b'). (res, events, b', n)) (cancel i ts b)"
| "run_payload No_payload ts b n = Some (no_result ts, [], b, n)"

definition telemetry ::
  "nat \<Rightarrow> engine_clock \<Rightarrow> queue_message \<Rightarrow> engine_result \<Rightarrow> market_event list \<Rightarrow> book \<Rightarrow> telemetry_record" where
  "telemetry seq ck msg res events b =
     describe_payload (qm_payload msg)
       \<lparr>tl_seq = seq, tl_time = ck_millis ck, tl_isCancel = False, tl_orderId = [], tl_nodeId = [],
        tl_side = SIDE_UNSPECIFIED, tl_type = ORDER_TYPE_UNSPECIFIED, tl_price = Fin 0, tl_qty = 0,
        tl_result = res, tl_tRpcIn = qm_tRpcIn msg, tl_tEnqueue = qm_tEnqueue msg,
        tl_tDequeue = ck_dequeue ck, tl_tMatchDone = ck_matchDone ck,
        tl_tPromiseSet = ck_promiseSet ck, tl_tPublish = ck_publish ck, tl_events = events,
        tl_depth = depth 10 b\<rparr>"

definition process :: "engine_clock \<Rightarrow> queue_message \<Rightarrow> exchange \<Rightarrow> exchange option" where
  "process ck msg x =
     map_option (\<lambda>(res, events, b', n').
       let on = hasSubscribers (x_telemetry x);
           seq = (if on then Suc (x_seq x) else x_seq x)
       in x\<lparr>x_book := b', x_nextTrade := n', x_seq := seq,
            x_results := (case qm_promise msg of None \<Rightarrow> x_results x
              | Some k \<Rightarrow> x_results x @ [(k, res)]),
            x_market := (if events = [] then x_market x else publish events (x_market x)),
            x_telemetry := (if on then publish [telemetry seq ck msg res events b'] (x_telemetry x)
              else x_telemetry x)\<rparr>)
       (run_payload (qm_payload msg) (ck_millis ck) (x_book x) (x_nextTrade x))"

definition engine_step :: "engine_clock \<Rightarrow> exchange \<Rightarrow> exchange option" where
  "engine_step ck x =
     (case x_queue x of [] \<Rightarrow> Some x | msg # msgs \<Rightarrow> process ck msg (x\<lparr>x_queue := msgs\<rparr>))"

section \<open>The server\<close>

datatype xevent =
    Submit_call submit_request int int
  | Cancel_call string string int int
  | Enqueue nat
  | Engine engine_clock
  | Market_subscribe
  | Market_write nat
  | Market_unsubscribe nat
  | Telemetry_subscribe
  | Telemetry_write nat
  | Telemetry_unsubscribe nat

fun xexec :: "xevent \<Rightarrow> exchange \<Rightarrow> exchange option" where
  "xexec (Submit_call rq t t') x = Some (SubmitOrder_rpc rq t t' x)"
| "xexec (Cancel_call i node t t') x = Some (CancelOrder_rpc i node t t' x)"
| "xexec (Enqueue k) x = Some (enqueue k x)"
| "xexec (Engine ck) x = engine_step ck x"
| "xexec Market_subscribe x = Some (x\<lparr>x_market := subscribe (x_market x)\<rparr>)"
| "xexec (Market_write i) x = Some (x\<lparr>x_market := write_next i (x_market x)\<rparr>)"
| "xexec (Market_unsubscribe i) x = Some (x\<lparr>x_market := unsubscribe i (x_market x)\<rparr>)"
| "xexec Telemetry_subscribe x = Some (x\<lparr>x_telemetry := subscribe (x_telemetry x)\<rparr>)"
| "xexec (Telemetry_write i) x = Some (x\<lparr>x_telemetry := write_next i (x_telemetry x)\<rparr>)"
| "xexec (Telemetry_unsubscribe i) x = Some (x\<lparr>x_telemetry := unsubscribe i (x_telemetry x)\<rparr>)"

section \<open>The publishers\<close>

definition received :: "'a publisher \<Rightarrow> nat \<Rightarrow> 'a list option" where
  "received p i = map_option (\<lambda>s. sb_written s @ sb_queue s) (omap_get (pb_subscribers p) i)"

text \<open>
  The contract of a publisher: a subscriber gets what is published from its subscription to its
  end, in order, whatever the streams have written meanwhile.
\<close>

locale publishing =
  fixes rcv :: "'p \<Rightarrow> nat \<Rightarrow> 'a list option"
    and sub :: "'p \<Rightarrow> 'p"
    and unsub :: "nat \<Rightarrow> 'p \<Rightarrow> 'p"
    and pub :: "'a list \<Rightarrow> 'p \<Rightarrow> 'p"
    and flush :: "nat \<Rightarrow> 'p \<Rightarrow> 'p"
    and fresh :: "'p \<Rightarrow> nat"
    and listening :: "'p \<Rightarrow> bool"
  assumes rcv_sub: "rcv (sub p) = (rcv p)(fresh p \<mapsto> [])"
    and rcv_unsub: "rcv (unsub k p) = (rcv p)(k := None)"
    and rcv_pub: "rcv (pub es p) = (\<lambda>i. map_option (\<lambda>r. r @ es) (rcv p i))"
    and rcv_flush: "rcv (flush k p) = rcv p"
    and listening_rcv: "listening p \<longleftrightarrow> rcv p \<noteq> Map.empty"
begin

text \<open>A property of what every subscriber has received.\<close>

definition every :: "('a list \<Rightarrow> bool) \<Rightarrow> 'p \<Rightarrow> bool" where
  "every P p \<longleftrightarrow> (\<forall>i r. rcv p i = Some r \<longrightarrow> P r)"

lemma every_sub: "every P p \<Longrightarrow> P [] \<Longrightarrow> every P (sub p)"
  and every_unsub: "every P p \<Longrightarrow> every P (unsub k p)"
  and every_flush: "every P p \<Longrightarrow> every P (flush k p)"
  by (auto simp: every_def rcv_sub rcv_unsub rcv_flush)

lemma every_pub: "every P p \<Longrightarrow> (\<And>r. P r \<Longrightarrow> Q (r @ es)) \<Longrightarrow> every Q (pub es p)"
  by (auto simp: every_def rcv_pub)

lemma every_silent: "\<not> listening p \<Longrightarrow> every P p"
  by (simp add: every_def listening_rcv)

end

interpretation subs: publishing received subscribe unsubscribe publish write_next pb_nextId hasSubscribers
proof unfold_locales
  fix p :: "'a publisher" and es :: "'a list" and k
  show "received (subscribe p) = (received p)(pb_nextId p \<mapsto> [])"
    by (auto simp: received_def subscribe_def omap.get_put)
  show "received (unsubscribe k p) = (received p)(k := None)"
    by (auto simp: received_def unsubscribe_def omap.get_del)
  have "omap_get (map (\<lambda>(i, s). (i, s\<lparr>sb_queue := sb_queue s @ es\<rparr>)) xs) i =
      map_option (\<lambda>s. s\<lparr>sb_queue := sb_queue s @ es\<rparr>) (omap_get xs i)" for xs :: "(nat, 'a subscriber) omap" and i
    by (induction xs) auto
  then show "received (publish es p) = (\<lambda>i. map_option (\<lambda>r. r @ es) (received p i))"
    by (auto simp: received_def publish_def option.map_comp comp_def fun_eq_iff)
  show "received (write_next k p) = received p"
    by (auto simp: received_def write_next_def omap.get_put split: option.split list.split)
  show "hasSubscribers p \<longleftrightarrow> received p \<noteq> Map.empty"
    by (cases "pb_subscribers p") (auto simp: hasSubscribers_def received_def fun_eq_iff)
qed

text \<open>The records of a subscriber carry consecutive numbers, up to the current one.\<close>

definition numbered :: "nat \<Rightarrow> telemetry_record list \<Rightarrow> bool" where
  "numbered n rs \<longleftrightarrow> length rs \<le> n \<and> map tl_seq rs = [Suc n - length rs..<Suc n]"

lemma numbered_simps [simp]: "numbered n []"
  by (simp add: numbered_def)

lemma numbered_snoc: "numbered n rs \<Longrightarrow> tl_seq r = Suc n \<Longrightarrow> numbered (Suc n) (rs @ [r])"
  by (simp add: numbered_def)

lemma telemetry_seq [simp]: "tl_seq (telemetry seq ck msg res events b) = seq"
  by (cases "qm_payload msg") (simp_all add: telemetry_def)

section \<open>The invariant of the server\<close>

definition orders_of :: "queue_message \<Rightarrow> xorder list" where
  "orders_of m = (case qm_payload m of SubmitPayload ord \<Rightarrow> [ord] | _ \<Rightarrow> [])"

definition submitted :: "queue_message list \<Rightarrow> xorder list" where
  "submitted msgs = concat (map orders_of msgs)"

lemma submitted_simps [simp]:
  "submitted [] = []"
  "submitted (m # ms) = orders_of m @ submitted ms"
  "submitted (ms @ ms') = submitted ms @ submitted ms'"
  by (simp_all add: submitted_def)

definition admissible :: "xorder \<Rightarrow> bool" where
  "admissible ord \<longleftrightarrow> 0 \<le> od_qty ord \<and> od_price ord \<noteq> NaN"

text \<open>Every order id the server has handed out and that may still be used.\<close>

definition ids_in_use :: "exchange \<Rightarrow> string list" where
  "ids_in_use x = map od_id (submitted (x_calls x) @ submitted (x_queue x) @ resting_orders (x_book x))"

text \<open>The calls: still in their handler, in the queue, or answered.\<close>

definition call_numbers :: "exchange \<Rightarrow> nat option list" where
  "call_numbers x = map qm_promise (x_calls x) @ map qm_promise (x_queue x) @ map (\<lambda>r. Some (fst r)) (x_results x)"

definition exchange_ok :: "exchange \<Rightarrow> bool" where
  "exchange_ok x \<longleftrightarrow> book_ok (x_book x) \<and>
     list_all admissible (submitted (x_calls x) @ submitted (x_queue x)) \<and>
     distinct (ids_in_use x) \<and> set (ids_in_use x) \<subseteq> order_id ` {..<x_nextOrder x} \<and>
     mset (call_numbers x) = mset (map Some [0..<x_nextCall x]) \<and>
     subs.every (numbered (x_seq x)) (x_telemetry x)"

fun valid_event :: "xevent \<Rightarrow> bool" where
  "valid_event (Submit_call rq t t') \<longleftrightarrow> 0 \<le> rq_qty rq \<and> rq_price rq \<noteq> NaN"
| "valid_event _ \<longleftrightarrow> True"

lemma order_id_inject [simp]: "order_id m = order_id n \<longleftrightarrow> m = n"
  using dec_value_digits by (auto simp: order_id_def) (metis dec_value_digits)

lemma set_flat_push: "set (flat (level_push before r ls)) = insert r (set (flat ls))"
  by (induction before r ls rule: level_push.induct) auto

lemma submit_origin:
  assumes "book_ok b" and "0 \<le> od_qty ord" and "submit_order ord ts b n = (res, events, b', n')"
    and "\<And>n r. f (reduceQuantity n r) = f r"
  shows "f ` set (resting_orders b') \<subseteq> insert (f ord) (f ` set (resting_orders b))"
proof -
  have sub: "f ` set ys \<subseteq> f ` set xs" if t: "live xs" "take_fills stop m xs = (fs, ys)" for stop m xs fs ys
  proof -
    obtain k where "map f ys = drop k (map f xs)" using take_fills_drop [OF t, of f] assms(4) by blast
    then show ?thesis using set_drop_subset [of k "map f xs"] by (metis list.set_map)
  qed
  have live: "live (flat (ob_bids b))" "live (flat (ob_asks b))"
    using assms(1) side_ok_live by (auto simp: book_ok_def)
  show ?thesis
    using assms(1-3)
  proof (cases rule: submit_shape)
    case (bid ls s fs)
    then show ?thesis
      using sub [OF live(2) bid(2)] assms(4)
      by (auto simp: settle_order_def Let_def resting_orders_def set_flat_push split: if_splits)
  next
    case (ask ls s fs)
    then show ?thesis
      using sub [OF live(1) ask(2)] assms(4)
      by (auto simp: settle_order_def Let_def resting_orders_def set_flat_push split: if_splits)
  qed
qed

lemma cancel_total:
  assumes "book_ok b"
  shows "\<exists>res events b'. cancel i ts b = Some (res, events, b') \<and> book_ok b' \<and>
    resting_orders b' = filter (\<lambda>r. od_id r \<noteq> i) (resting_orders b)"
  by (rule cancel_cases [OF assms, of i ts]) (simp add: resting_orders_def)

text \<open>Serving a message: it never fails, and keeps the book and the ids.\<close>

lemma run_payload_total:
  assumes "book_ok b" and "list_all admissible (orders_of m)"
    and "distinct (map od_id (orders_of m @ resting_orders b))"
  shows "\<exists>res events b' n'. run_payload (qm_payload m) ts b n = Some (res, events, b', n') \<and>
    book_ok b' \<and> od_id ` set (resting_orders b') \<subseteq> od_id ` set (orders_of m @ resting_orders b)"
proof (cases "qm_payload m")
  case (SubmitPayload ord)
  obtain res events b' n' where s: "submit_order ord ts b n = (res, events, b', n')" by (metis prod_cases4)
  show ?thesis
    using submit_ok [OF assms(1) _ _ _ s] submit_origin [OF assms(1) _ s, of od_id] assms(2,3)
    by (auto simp: SubmitPayload s admissible_def orders_of_def)
next
  case (CancelPayload i node)
  then show ?thesis using cancel_total [OF assms(1), of i ts] by (auto simp: image_iff)
qed (use assms(1) in auto)

lemma distinct_served:
  assumes "distinct (as @ (os @ bs) @ cs)" and "distinct cs'" and "set cs' \<subseteq> set os \<union> set cs"
  shows "distinct (as @ bs @ cs')"
  using assms by auto

lemma process_ok:
  assumes "exchange_ok x" and "x_queue x = m # ms"
  shows "\<exists>x'. process ck m (x\<lparr>x_queue := ms\<rparr>) = Some x' \<and> exchange_ok x'"
proof -
  obtain res events b' n' where run: "run_payload (qm_payload m) (ck_millis ck) (x_book x) (x_nextTrade x)
      = Some (res, events, b', n')" "book_ok b'"
      "od_id ` set (resting_orders b') \<subseteq> od_id ` set (orders_of m @ resting_orders (x_book x))"
  proof -
    have "book_ok (x_book x)" "list_all admissible (orders_of m)"
      "distinct (map od_id (orders_of m @ resting_orders (x_book x)))"
      using assms by (auto simp: exchange_ok_def ids_in_use_def)
    then show thesis using run_payload_total that by blast
  qed
  let ?on = "hasSubscribers (x_telemetry x)"
  let ?seq = "if ?on then Suc (x_seq x) else x_seq x"
  let ?tel = "if ?on then publish [telemetry ?seq ck m res events b'] (x_telemetry x) else x_telemetry x"
  have tel: "subs.every (numbered ?seq) ?tel"
    using assms(1) subs.every_pub [of "numbered (x_seq x)" "x_telemetry x" "numbered (Suc (x_seq x))"]
    by (simp add: exchange_ok_def numbered_snoc)
  have ids: "ids_in_use x = map od_id (submitted (x_calls x)) @
      (map od_id (orders_of m) @ map od_id (submitted ms)) @ map od_id (resting_orders (x_book x))"
    using assms(2) by (simp add: ids_in_use_def)
  have dist: "distinct (ids_in_use x)" and used: "set (ids_in_use x) \<subseteq> order_id ` {..<x_nextOrder x}"
    using assms(1) by (simp_all add: exchange_ok_def)
  have "set (call_numbers x) = set (map Some [0..<x_nextCall x])"
    using assms(1) by (intro mset_eq_setD) (simp add: exchange_ok_def)
  then have "qm_promise m \<noteq> None" using assms(2) by (auto simp: call_numbers_def)
  then obtain k where k: "qm_promise m = Some k" by blast
  have "distinct (map od_id (submitted (x_calls x)) @ map od_id (submitted ms) @ map od_id (resting_orders b'))"
    by (rule distinct_served [OF dist [unfolded ids]]) (use run(2,3) in \<open>simp_all add: book_ok_def image_Un\<close>)
  moreover have "set (map od_id (resting_orders b')) \<subseteq> order_id ` {..<x_nextOrder x}"
  proof (rule order_trans [OF _ used])
    show "set (map od_id (resting_orders b')) \<subseteq> set (ids_in_use x)" using run(3) unfolding ids by auto
  qed
  moreover have "mset (call_numbers x) = mset (map qm_promise (x_calls x) @ map qm_promise ms @
      qm_promise m # map (\<lambda>r. Some (fst r)) (x_results x))"
    using assms(2) by (simp add: call_numbers_def)
  ultimately show ?thesis
    using assms run(1,2) tel k
    by (cases "hasSubscribers (x_telemetry x)")
       (simp_all add: process_def Let_def exchange_ok_def ids_in_use_def call_numbers_def)
qed

lemma resting_orders_empty [simp]: "resting_orders empty_book = []"
  by (simp add: resting_orders_def empty_book_def)

lemma enqueue_ok: "exchange_ok x \<Longrightarrow> exchange_ok (enqueue k x)"
proof (cases "k < length (x_calls x)")
  case True
  assume ok: "exchange_ok x"
  let ?rest = "take k (x_calls x) @ drop (Suc k) (x_calls x)" and ?m = "x_calls x ! k"
  have split: "x_calls x = take k (x_calls x) @ ?m # drop (Suc k) (x_calls x)"
    using True by (rule id_take_nth_drop)
  then have parts: "submitted (x_calls x) = submitted (take k (x_calls x)) @ orders_of ?m @ submitted (drop (Suc k) (x_calls x))"
    "map qm_promise (x_calls x) = map qm_promise (take k (x_calls x)) @ qm_promise ?m # map qm_promise (drop (Suc k) (x_calls x))"
    by (metis submitted_simps(2,3), metis list.simps(9) map_append)
  have perm: "mset (ids_in_use (enqueue k x)) = mset (ids_in_use x)"
    "mset (call_numbers (enqueue k x)) = mset (call_numbers x)"
    using True by (simp_all add: enqueue_def ids_in_use_def call_numbers_def parts)
  then show ?thesis
    using ok True mset_eq_setD [OF perm(1)] mset_eq_imp_distinct_iff [OF perm(1)]
    by (simp add: exchange_ok_def) (simp add: enqueue_def parts)
qed (simp add: enqueue_def)

lemma new_exchange_ok: "exchange_ok new_exchange"
  by (simp add: exchange_ok_def new_exchange_def empty_book_ok ids_in_use_def call_numbers_def
      subs.every_def received_def new_publisher_def)

lemma xexec_ok:
  assumes "valid_event e" and "exchange_ok x"
  shows "\<exists>x'. xexec e x = Some x' \<and> exchange_ok x'"
proof (cases e)
  case (Submit_call rq t t')
  have "order_id (x_nextOrder x) \<notin> set (ids_in_use x)" using assms(2) by (auto simp: exchange_ok_def)
  then show ?thesis
    using assms by (auto simp: Submit_call SubmitOrder_rpc_def exchange_ok_def ids_in_use_def
        call_numbers_def orders_of_def admissible_def protoToOrder_def Let_def less_Suc_eq
        simp del: mset_upt)
next
  case (Cancel_call i node t t')
  then show ?thesis
    using assms(2) by (auto simp: CancelOrder_rpc_def exchange_ok_def ids_in_use_def call_numbers_def orders_of_def
        simp del: mset_upt)
next
  case (Engine ck)
  then show ?thesis
    using assms(2) process_ok by (cases "x_queue x") (auto simp: engine_step_def)
qed (use assms(2) enqueue_ok in \<open>auto simp: exchange_ok_def ids_in_use_def call_numbers_def
      intro: subs.every_sub subs.every_unsub subs.every_flush\<close>)

interpretation server_ok: total_service xexec valid_event exchange_ok
  by unfold_locales (rule xexec_ok)

section \<open>What the server promises\<close>

abbreviation server_run :: "xevent list \<Rightarrow> exchange option" where
  "server_run es \<equiv> prun xexec es new_exchange"

lemma server_inv: "list_all valid_event es \<Longrightarrow> server_run es = Some x \<Longrightarrow> exchange_ok x"
  by (rule server_ok.prun_total_inv [OF _ new_exchange_ok])


definition ex_submit :: "string \<Rightarrow> int \<Rightarrow> int \<Rightarrow> int \<Rightarrow> int \<Rightarrow> xevent" where
  "ex_submit node sd ty p q = Submit_call \<lparr>rq_node = node, rq_side = sd, rq_type = ty,
     rq_price = js_int p, rq_qty = q\<rparr> 0 1"

definition ex_clock :: engine_clock where
  "ex_clock = \<lparr>ck_millis = 5, ck_dequeue = 2, ck_matchDone = 3, ck_promiseSet = 4, ck_publish = 6\<rparr>"

text \<open>Two handlers whose messages overtake each other, one cancellation, a subscriber.\<close>

definition ex_run :: "xevent list" where
  "ex_run = [Telemetry_subscribe, ex_submit ''mm-1'' 2 2 101 3, ex_submit ''mom-1'' 1 2 101 5,
     Enqueue 1, Enqueue 0, Engine ex_clock, Cancel_call ''ORD-1'' ''noise-1'' 7 8, Engine ex_clock,
     Enqueue 0, Telemetry_write 1]"

lemma ex_run_valid: "list_all valid_event ex_run"
  by (simp add: ex_run_def ex_submit_def)


text \<open>The engine and the handlers drain what waits.\<close>

lemma enqueue_all:
  "\<exists>x'. prun xexec (replicate (length (x_calls x)) (Enqueue 0)) x = Some x' \<and> x_calls x' = [] \<and>
    length (x_queue x') = length (x_calls x) + length (x_queue x) \<and> x_nextCall x' = x_nextCall x"
proof (induction "length (x_calls x)" arbitrary: x)
  case (Suc n)
  then have "length (x_calls (enqueue 0 x)) = n" "length (x_queue (enqueue 0 x)) = Suc (length (x_queue x))"
    "x_nextCall (enqueue 0 x) = x_nextCall x"
    by (auto simp: enqueue_def)
  moreover have "replicate (length (x_calls x)) (Enqueue 0) = Enqueue 0 # replicate n (Enqueue 0)"
    using Suc.hyps(2) by (metis replicate_Suc)
  ultimately show ?case using Suc.hyps(1) [of "enqueue 0 x"] Suc.hyps(2) by auto
qed simp

lemma engine_drains:
  assumes "exchange_ok x" and "length cks = length (x_queue x)"
  shows "\<exists>x'. prun xexec (map Engine cks) x = Some x' \<and> x_queue x' = [] \<and> x_calls x' = x_calls x \<and>
    x_nextCall x' = x_nextCall x \<and> exchange_ok x'"
  using assms
proof (induction cks arbitrary: x)
  case (Cons ck cks)
  then obtain m ms where q: "x_queue x = m # ms" by (cases "x_queue x") auto
  obtain x1 where p: "process ck m (x\<lparr>x_queue := ms\<rparr>) = Some x1" "exchange_ok x1"
    using process_ok [OF Cons.prems(1) q] by blast
  then have "x_queue x1 = ms" "x_calls x1 = x_calls x" "x_nextCall x1 = x_nextCall x"
    by (auto simp: process_def Let_def split: prod.splits)
  then show ?case using Cons.IH [OF p(2)] Cons.prems(2) q p(1) by (auto simp: engine_step_def)
qed simp

text \<open>
  C11. Every call is answered exactly once. At any time each call is still in its handler, waits in
  the queue, or has its result, and only one of these; and once the handlers have enqueued and the
  engine has served as many messages as there are, every call has its result.
\<close>

theorem calls_answered_once:
  assumes "list_all valid_event es" and "server_run es = Some x"
    and "length cks = length (x_calls x) + length (x_queue x)"
  shows "distinct (call_numbers x) \<and> set (call_numbers x) = Some ` {..<x_nextCall x} \<and>
    (\<exists>x'. prun xexec (replicate (length (x_calls x)) (Enqueue 0) @ map Engine cks) x = Some x' \<and>
      distinct (map fst (x_results x')) \<and> set (map fst (x_results x')) = {..<x_nextCall x})"
proof -
  have calls: "distinct (call_numbers y) \<and> set (call_numbers y) = Some ` {..<x_nextCall y}" if "exchange_ok y" for y
  proof -
    have m: "mset (call_numbers y) = mset (map Some [0..<x_nextCall y])"
      using that by (simp add: exchange_ok_def)
    have "distinct (map Some [0..<x_nextCall y])" by (simp add: distinct_map)
    then show ?thesis
      using mset_eq_imp_distinct_iff [OF m] mset_eq_setD [OF m] by (simp add: lessThan_atLeast0)
  qed
  have ok: "exchange_ok x" by (rule server_inv [OF assms(1,2)])
  obtain x1 where x1: "prun xexec (replicate (length (x_calls x)) (Enqueue 0)) x = Some x1"
    "x_calls x1 = []" "length (x_queue x1) = length cks" "x_nextCall x1 = x_nextCall x"
    using enqueue_all [of x] assms(3) by auto
  have "list_all valid_event (replicate (length (x_calls x)) (Enqueue 0))" by (simp add: list_all_iff)
  then have "exchange_ok x1" using server_ok.prun_total_inv ok x1(1) by blast
  then obtain x2 where x2: "prun xexec (map Engine cks) x1 = Some x2" "x_queue x2 = []" "x_calls x2 = []"
    "x_nextCall x2 = x_nextCall x" "exchange_ok x2"
    using engine_drains [of x1 cks] x1 by auto
  have n: "call_numbers x2 = map Some (map fst (x_results x2))"
    using x2(2,3) by (simp add: call_numbers_def)
  have "distinct (map fst (x_results x2))" "Some ` set (map fst (x_results x2)) = Some ` {..<x_nextCall x}"
    using calls [OF x2(5)] x2(4) unfolding n by (blast dest: distinct_map [THEN iffD1], metis set_map)
  then have "distinct (map fst (x_results x2)) \<and> set (map fst (x_results x2)) = {..<x_nextCall x}"
    using inj_image_eq_iff [OF inj_Some] by blast
  then show ?thesis using calls [OF ok] x1(1) x2(1) by (auto simp: prun_append)
qed

text \<open>
  C39. Telemetry has no gaps: what a subscriber has been sent or still has in its queue are the
  records of all messages served since it subscribed, numbered consecutively up to the last one.
\<close>

theorem telemetry_without_gaps:
  assumes "list_all valid_event es" and "server_run es = Some x"
    and "received (x_telemetry x) i = Some rs"
  shows "length rs \<le> x_seq x \<and> map tl_seq rs = [Suc (x_seq x) - length rs..<Suc (x_seq x)]"
  using server_inv [OF assms(1,2)] assms(3)
  by (auto simp: exchange_ok_def subs.every_def numbered_def)


text \<open>The state the example reaches.\<close>

lemma ex_run_state:
  obtains x where "server_run ex_run = Some x"
    and "length (x_calls x) = 0" and "length (x_queue x) = 1" and "x_nextCall x = 3" and "x_seq x = 2"
    and "map_option (map tl_orderId) (received (x_telemetry x) 1) = Some [''ORD-1'', ''ORD-0'']"
proof -
  let ?P = "\<lambda>x. length (x_calls x) = 0 \<and> length (x_queue x) = 1 \<and> x_nextCall x = 3 \<and> x_seq x = 2 \<and>
    map_option (map tl_orderId) (received (x_telemetry x) 1) = Some [''ORD-1'', ''ORD-0'']"
  have c: "char_of (48 :: nat) = CHR ''0''" "char_of (49 :: nat) = CHR ''1''" by code_simp+
  have "case server_run ex_run of None \<Rightarrow> False | Some x \<Rightarrow> ?P x"
    by (simp add: ex_run_def ex_submit_def ex_clock_def new_exchange_def new_publisher_def empty_book_def
        SubmitOrder_rpc_def CancelOrder_rpc_def enqueue_def engine_step_def process_def Let_def subscribe_def
        hasSubscribers_def publish_def write_next_def received_def submit_order_def submitBid_def submitAsk_def
        settle_order_def protoToOrder_def protoToOrderSide_def protoToOrderType_def matching_start_def
        restBid_def restAsk_def reduceQuantity_def fill_order_def order_id_def digits.simps digit_def
        telemetry_def js_lt_def cancel_def submit_result_def submit_status_def c)
  then show thesis using that by (auto split: option.splits)
qed

theorem calls_answered_once_witness:
  "\<exists>x x'. server_run ex_run = Some x \<and> prun xexec [Engine ex_clock] x = Some x' \<and>
    set (map fst (x_results x')) = {..<3}"
proof (rule ex_run_state)
  fix x assume x: "server_run ex_run = Some x" "length (x_calls x) = 0" "length (x_queue x) = 1" "x_nextCall x = 3"
  then show ?thesis
    using calls_answered_once [OF ex_run_valid x(1), of "[ex_clock]"] by auto
qed

theorem telemetry_without_gaps_witness:
  "\<exists>x rs. server_run ex_run = Some x \<and> received (x_telemetry x) 1 = Some rs \<and> map tl_seq rs = [1, 2]"
proof (rule ex_run_state)
  fix x assume x: "server_run ex_run = Some x" "x_seq x = 2"
    "map_option (map tl_orderId) (received (x_telemetry x) 1) = Some [''ORD-1'', ''ORD-0'']"
  then obtain rs where rs: "received (x_telemetry x) 1 = Some rs" "length rs = 2"
    by (auto dest: arg_cong [where f = length])
  have "[1..<3] = [1, 2 :: nat]" by (simp add: upt_rec)
  then show ?thesis
    using telemetry_without_gaps [OF ex_run_valid x(1) rs(1)] x(1,2) rs by (auto simp: numeral_eq_Suc)
qed

end
