(* ===== verification/Exchange_Stream.thy ===== *)
theory Exchange_Stream
  imports Exchange Normalizer
begin

text \<open>
  The exchange and the gateway together: the telemetry the exchange streams
  (\<^verbatim>\<open>toProto\<close> of \<^verbatim>\<open>service/exchangeService.cpp\<close>), what the gRPC loader of the gateway makes of a
  message (a parameter, bound by \<open>decodes\<close>), and what the normalizer makes of the stream. The
  table of resting orders the normalizer keeps mirrors the book of the exchange, so that every
  fill is attributed to the node that placed the resting order (\<open>recorded_owners\<close>), and the
  books the browsers see are those of the exchange (\<open>wire_books_in_order\<close>).
\<close>

section \<open>The telemetry message\<close>

datatype telemetry_op = TELEMETRY_OP_UNSPECIFIED | OP_SUBMIT | OP_CANCEL

record proto_order =
  po_op :: telemetry_op
  po_order_id :: string
  po_node_id :: string
  po_side :: order_side
  po_type :: order_type
  po_price :: jsnum
  po_quantity :: int
  po_status :: order_status
  po_filled_quantity :: int
  po_avg_price :: jsnum
  po_rejection_reason :: string
  po_cancel_successful :: bool

record proto_trace =
  pt_seq :: nat
  pt_rpc_in :: int
  pt_enqueue :: int
  pt_dequeue :: int
  pt_match_done :: int
  pt_promise_set :: int
  pt_publish :: int

record proto_batch =
  px_timestamp :: int
  px_order :: proto_order
  px_trace :: proto_trace
  px_trades :: "trade list"
  px_top :: "top_of_book option"
  px_book :: book_depth

fun add_event :: "market_event \<Rightarrow> proto_batch \<Rightarrow> proto_batch" where
  "add_event (Trade t) b = b\<lparr>px_trades := px_trades b @ [t]\<rparr>"
| "add_event (Top p) b = b\<lparr>px_top := Some p\<rparr>"
| "add_event Monostate b = b"

definition toProto :: "telemetry_record \<Rightarrow> proto_batch" where
  "toProto r = fold add_event (tl_events r)
     \<lparr>px_timestamp = tl_time r,
      px_order = \<lparr>po_op = (if tl_isCancel r then OP_CANCEL else OP_SUBMIT),
        po_order_id = tl_orderId r, po_node_id = tl_nodeId r, po_side = tl_side r,
        po_type = tl_type r, po_price = tl_price r, po_quantity = tl_qty r,
        po_status = er_status (tl_result r), po_filled_quantity = er_filled (tl_result r),
        po_avg_price = er_avg (tl_result r), po_rejection_reason = er_reason (tl_result r),
        po_cancel_successful = er_cancelOk (tl_result r)\<rparr>,
      px_trace = \<lparr>pt_seq = tl_seq r, pt_rpc_in = tl_tRpcIn r, pt_enqueue = tl_tEnqueue r,
        pt_dequeue = tl_tDequeue r, pt_match_done = tl_tMatchDone r,
        pt_promise_set = tl_tPromiseSet r, pt_publish = tl_tPublish r\<rparr>,
      px_trades = [], px_top = None, px_book = tl_depth r\<rparr>"

section \<open>What the gRPC loader makes of it\<close>

text \<open>
  The message crosses the wire in proto3 encoding and is decoded with \<^verbatim>\<open>keepCase, longs: Number,
  enums: String, defaults: false\<close>: a field that holds its default value is absent, any other has
  its value; 64-bit integers become numbers; an enumeration is its name; a sub-message is present
  when the server touched it, and an empty repeated field may be absent.
\<close>

definition carries :: "'a \<Rightarrow> 'a \<Rightarrow> 'a field \<Rightarrow> bool" where
  "carries d v f \<longleftrightarrow> f = Val v \<or> v = d \<and> f = Undefined"

definition carries_name :: "string list \<Rightarrow> string option \<Rightarrow> string field \<Rightarrow> bool" where
  "carries_name known nm f \<longleftrightarrow>
     (case nm of Some s \<Rightarrow> f = Val s | None \<Rightarrow> list_all (\<lambda>s. f \<noteq> Val s) known)"

definition carries_option :: "'a option \<Rightarrow> 'a field \<Rightarrow> bool" where
  "carries_option v f \<longleftrightarrow> f = (case v of None \<Rightarrow> Undefined | Some a \<Rightarrow> Val a)"

fun side_name :: "order_side \<Rightarrow> string option" where
  "side_name BID = Some ''BID''"
| "side_name ASK = Some ''ASK''"
| "side_name _ = None"

fun type_name :: "order_type \<Rightarrow> string option" where
  "type_name MARKET = Some ''MARKET''"
| "type_name LIMIT = Some ''LIMIT''"
| "type_name _ = None"

fun status_name :: "order_status \<Rightarrow> string option" where
  "status_name FILLED = Some ''FILLED''"
| "status_name PARTIAL = Some ''PARTIAL''"
| "status_name QUEUED = Some ''QUEUED''"
| "status_name REJECTED = Some ''REJECTED''"
| "status_name _ = None"

fun op_name :: "telemetry_op \<Rightarrow> string option" where
  "op_name OP_SUBMIT = Some ''OP_SUBMIT''"
| "op_name OP_CANCEL = Some ''OP_CANCEL''"
| "op_name _ = None"

definition decodes_order :: "proto_order \<Rightarrow> raw_order \<Rightarrow> bool" where
  "decodes_order p r \<longleftrightarrow>
     carries_name [''OP_SUBMIT'', ''OP_CANCEL''] (op_name (po_op p)) (ro_op r) \<and>
     carries [] (po_order_id p) (ro_order_id r) \<and> carries [] (po_node_id p) (ro_node_id r) \<and>
     carries_name [''BID'', ''ASK''] (side_name (po_side p)) (ro_side r) \<and>
     carries_name [''MARKET'', ''LIMIT''] (type_name (po_type p)) (ro_type r) \<and>
     carries (Fin 0) (po_price p) (ro_price r) \<and>
     carries (Fin 0) (dbl (po_quantity p)) (ro_quantity r) \<and>
     carries_name [''FILLED'', ''PARTIAL'', ''QUEUED'', ''REJECTED''] (status_name (po_status p)) (ro_status r) \<and>
     carries (Fin 0) (dbl (po_filled_quantity p)) (ro_filled_quantity r) \<and>
     carries (Fin 0) (po_avg_price p) (ro_avg_price r) \<and>
     carries [] (po_rejection_reason p) (ro_rejection_reason r) \<and>
     carries False (po_cancel_successful p) (ro_cancel_successful r)"

definition decodes_trace :: "proto_trace \<Rightarrow> raw_trace \<Rightarrow> bool" where
  "decodes_trace p r \<longleftrightarrow>
     carries (Fin 0) (dbl (int (pt_seq p))) (rt_seq r) \<and>
     carries (Fin 0) (dbl (pt_rpc_in p)) (rt_rpc_in r) \<and>
     carries (Fin 0) (dbl (pt_enqueue p)) (rt_enqueue r) \<and>
     carries (Fin 0) (dbl (pt_dequeue p)) (rt_dequeue r) \<and>
     carries (Fin 0) (dbl (pt_match_done p)) (rt_match_done r) \<and>
     carries (Fin 0) (dbl (pt_promise_set p)) (rt_promise_set r) \<and>
     carries (Fin 0) (dbl (pt_publish p)) (rt_publish r)"

definition decodes_trade :: "trade \<Rightarrow> raw_trade \<Rightarrow> bool" where
  "decodes_trade t r \<longleftrightarrow>
     carries [] (td_id t) (rd_trade_id r) \<and> carries (Fin 0) (td_price t) (rd_price r) \<and>
     carries (Fin 0) (dbl (td_qty t)) (rd_quantity r) \<and>
     carries_name [''BID'', ''ASK''] (side_name (td_side t)) (rd_aggressor_side r) \<and>
     carries [] (td_aggressor t) (rd_aggressor_order_id r) \<and>
     carries [] (td_resting t) (rd_resting_order_id r)"

definition decodes_top :: "top_of_book \<Rightarrow> raw_tob \<Rightarrow> bool" where
  "decodes_top p r \<longleftrightarrow>
     carries_option (tp_bid p) (rb_bid_price r) \<and>
     carries_option (map_option dbl (tp_bidQty p)) (rb_bid_quantity r) \<and>
     carries_option (tp_ask p) (rb_ask_price r) \<and>
     carries_option (map_option dbl (tp_askQty p)) (rb_ask_quantity r)"

definition decodes_level :: "depth_level \<Rightarrow> raw_level \<Rightarrow> bool" where
  "decodes_level l r \<longleftrightarrow>
     carries (Fin 0) (dl_price l) (rl_price r) \<and> carries (Fin 0) (dbl (dl_qty l)) (rl_quantity r) \<and>
     carries (Fin 0) (dbl (int (dl_orders l))) (rl_orders r)"

definition decodes_book :: "book_depth \<Rightarrow> raw_book \<Rightarrow> bool" where
  "decodes_book d r \<longleftrightarrow> list_all2 decodes_level (dp_bids d) (nullish (rk_bids r) []) \<and>
     list_all2 decodes_level (dp_asks d) (nullish (rk_asks r) [])"

definition decodes :: "proto_batch \<Rightarrow> raw_batch \<Rightarrow> bool" where
  "decodes b r \<longleftrightarrow>
     carries (Fin 0) (dbl (px_timestamp b)) (r_timestamp r) \<and>
     (case r_order r of Val ord \<Rightarrow> decodes_order (px_order b) ord | _ \<Rightarrow> False) \<and>
     (case r_trace r of Val t \<Rightarrow> decodes_trace (px_trace b) t | _ \<Rightarrow> False) \<and>
     list_all2 decodes_trade (px_trades b) (nullish (r_trades r) []) \<and>
     (case px_top b of None \<Rightarrow> r_top_of_book r = Undefined
      | Some p \<Rightarrow> (case r_top_of_book r of Val t \<Rightarrow> decodes_top p t | _ \<Rightarrow> False)) \<and>
     (case r_book r of Val k \<Rightarrow> decodes_book (px_book b) k | _ \<Rightarrow> False)"

lemma carries_nullish: "carries d v f \<Longrightarrow> nullish f d = v"
  by (auto simp: carries_def)

lemma carries_num: "carries (Fin 0) v f \<Longrightarrow> num f = v"
  by (auto simp: carries_def wire_simps)

lemma toProto_simps [simp]:
  "px_order (toProto r) = \<lparr>po_op = (if tl_isCancel r then OP_CANCEL else OP_SUBMIT),
     po_order_id = tl_orderId r, po_node_id = tl_nodeId r, po_side = tl_side r,
     po_type = tl_type r, po_price = tl_price r, po_quantity = tl_qty r,
     po_status = er_status (tl_result r), po_filled_quantity = er_filled (tl_result r),
     po_avg_price = er_avg (tl_result r), po_rejection_reason = er_reason (tl_result r),
     po_cancel_successful = er_cancelOk (tl_result r)\<rparr>"
  "px_book (toProto r) = tl_depth r"
  "px_trades (toProto r) = trade_events (tl_events r)"
proof -
  have *: "px_order (fold add_event es b) = px_order b \<and> px_book (fold add_event es b) = px_book b \<and>
      px_trades (fold add_event es b) = px_trades b @ trade_events es" for es b
  proof (induction es arbitrary: b)
    case (Cons e es)
    then show ?case by (cases e) simp_all
  qed simp
  show "px_order (toProto r) = \<lparr>po_op = (if tl_isCancel r then OP_CANCEL else OP_SUBMIT),
     po_order_id = tl_orderId r, po_node_id = tl_nodeId r, po_side = tl_side r,
     po_type = tl_type r, po_price = tl_price r, po_quantity = tl_qty r,
     po_status = er_status (tl_result r), po_filled_quantity = er_filled (tl_result r),
     po_avg_price = er_avg (tl_result r), po_rejection_reason = er_reason (tl_result r),
     po_cancel_successful = er_cancelOk (tl_result r)\<rparr>"
    "px_book (toProto r) = tl_depth r" "px_trades (toProto r) = trade_events (tl_events r)"
    by (simp_all add: toProto_def *)
qed


section \<open>The table of the gateway mirrors the book\<close>

definition owner :: "xorder \<Rightarrow> resting" where
  "owner r = \<lparr>rs_node = od_node r, rs_remaining = js_int (od_qty r)\<rparr>"

definition mirrors_book :: "resting_map \<Rightarrow> xorder list \<Rightarrow> bool" where
  "mirrors_book m xs \<longleftrightarrow> map_of m = map_of (by_id owner xs)"

definition small :: "xorder list \<Rightarrow> bool" where
  "small xs \<longleftrightarrow> list_all (\<lambda>r. 0 < od_qty r \<and> od_qty r < 2 ^ 53) xs"

lemma small_simps [simp]:
  "small []" "small (r # rs) \<longleftrightarrow> 0 < od_qty r \<and> od_qty r < 2 ^ 53 \<and> small rs"
  "small (xs @ ys) \<longleftrightarrow> small xs \<and> small ys"
  by (auto simp: small_def)

lemma small_live: "small xs \<Longrightarrow> live xs \<Longrightarrow> take_fills stop n xs = (fs, ys) \<Longrightarrow> small ys"
  by (induction stop n xs arbitrary: fs ys rule: take_fills.induct) (auto split: if_splits prod.splits)

lemma map_of_middle:
  assumes "k \<notin> fst ` set ws"
  shows "(map_of (ws @ (k, v) # zs))(k \<mapsto> v') = map_of (ws @ (k, v') # zs)"
    and "map_of (ws @ (k, v) # zs) k = Some v"
proof -
  have k: "map_of ws k = None" using assms by (simp add: map_of_eq_None_iff)
  show "(map_of (ws @ (k, v) # zs))(k \<mapsto> v') = map_of (ws @ (k, v') # zs)"
    using k by (auto simp: fun_eq_iff map_add_def split: option.split)
  show "map_of (ws @ (k, v) # zs) k = Some v" using k by (simp add: map_add_def)
qed

lemma decoded_trade:
  assumes "decodes_trade t r" and "0 < td_qty t" and "td_qty t < 2 ^ 53"
  shows "num (rd_quantity r) = js_int (td_qty t)" and "nullish (rd_resting_order_id r) [] = td_resting t"
proof -
  have "dbl (td_qty t) = js_int (td_qty t)"
    using assms(2,3) fl_int [of "td_qty t"] by (simp add: dbl_def safe_int_def)
  then show "num (rd_quantity r) = js_int (td_qty t)"
    using assms(1) carries_num by (simp add: decodes_trade_def)
  show "nullish (rd_resting_order_id r) [] = td_resting t"
    using assms(1) carries_nullish [of "[]" "td_resting t"] by (simp add: decodes_trade_def)
qed

text \<open>The fills of a message, seen by the gateway: every trade names the owner of its resting order.\<close>

lemma mirrored_fills:
  assumes "take_fills stop n xs = (fs, ys)" and "0 \<le> n" and "live xs" and "small xs" and "distinct (map od_id xs)"
    and "od_id ` set xs \<inter> fst ` set ws = {}" and "od_id ` set xs \<inter> fst ` set zs = {}"
    and "map_of m = map_of (ws @ by_id owner xs @ zs)"
    and "list_all2 decodes_trade (fill_trades ord ts k fs) raws"
  shows "map_of (snd (normalize_trades agg m raws)) = map_of (ws @ by_id owner ys @ zs)"
    and "map (\<lambda>w. (t_resting w, t_restingNode w)) (fst (normalize_trades agg m raws)) =
      map (\<lambda>f. (od_id (fst f), od_node (fst f))) fs"
proof -
  have "map_of (snd (normalize_trades agg m raws)) = map_of (ws @ by_id owner ys @ zs) \<and>
    map (\<lambda>w. (t_resting w, t_restingNode w)) (fst (normalize_trades agg m raws)) =
      map (\<lambda>f. (od_id (fst f), od_node (fst f))) fs"
    using assms
  proof (induction stop n xs arbitrary: fs ys m raws k rule: take_fills.induct)
    case (2 stop n r rs)
    consider (none) "n \<le> 0 \<or> stop (od_price r)" | (part) "0 < n" "\<not> stop (od_price r)" "n < od_qty r"
      | (full) "0 < n" "\<not> stop (od_price r)" "od_qty r \<le> n" by linarith
    then show ?case
    proof cases
      case none
      then show ?thesis using 2 by auto
    next
      case part
      then obtain raw where raws: "raws = [raw]" and t: "decodes_trade (hd (fill_trades ord ts k [(r, n)])) raw"
        and o: "fs = [(r, n)]" "ys = reduceQuantity n r # rs"
        using 2(2,10) by (auto simp: list_all2_Cons1)
      note d = decoded_trade [OF t]
      have q: "num (rd_quantity raw) = js_int n" "nullish (rd_resting_order_id raw) [] = od_id r"
        using d part 2(5) by simp_all
      have "js_sub (js_int (od_qty r)) (js_int n) = js_int (od_qty r - n)"
        using part 2(5) by (intro js_sub_int) (auto simp: safe_int_def)
      moreover have "omap_get m (od_id r) = Some (owner r)"
        using 2(7,9) map_of_middle(2) [of "od_id r" ws] by (simp del: map_of_append)
      ultimately have "fill_resting (od_id r) (js_int n) m = omap_set (od_id r) (owner (reduceQuantity n r)) m"
        using part by (simp add: fill_resting_def owner_def js_le_def reduceQuantity_def)
      then show ?thesis
        using 2(7,9) map_of_middle(1) [of "od_id r" ws] \<open>omap_get m (od_id r) = _\<close>
        by (simp add: raws o norm_simps normalize_trade_def q Let_def update_conv' owner_def del: map_of_append)
    next
      case full
      obtain fs' where fs: "fs = (r, od_qty r) # fs'"
        and rec: "take_fills stop (n - od_qty r) rs = (fs', ys)"
        using 2(2) full by (auto split: prod.splits)
      obtain raw raws' where raws: "raws = raw # raws'" and t: "decodes_trade (hd (fill_trades ord ts k [(r, od_qty r)])) raw"
        and rest: "list_all2 decodes_trade (fill_trades ord ts (Suc k) fs') raws'"
        using 2(10) by (auto simp: fs list_all2_Cons1)
      note d = decoded_trade [OF t]
      have q: "num (rd_quantity raw) = js_int (od_qty r)" "nullish (rd_resting_order_id raw) [] = od_id r"
        using d full 2(5) by simp_all
      have "js_sub (js_int (od_qty r)) (js_int (od_qty r)) = js_int 0"
        using js_sub_int [of "od_qty r" "od_qty r"] by (simp add: safe_int_def)
      moreover have get: "omap_get m (od_id r) = Some (owner r)"
        using 2(7,9) map_of_middle(2) [of "od_id r" ws] by (simp del: map_of_append)
      ultimately have f: "fill_resting (od_id r) (js_int (od_qty r)) m = omap_del (od_id r) m"
        by (simp add: fill_resting_def owner_def js_le_def)
      have m': "map_of (omap_del (od_id r) m) = map_of (ws @ by_id owner rs @ zs)"
        using 2(6-9) by (subst delete_conv') (simp add: map_of_remove image_Un del: map_of_append)
      show ?thesis
        using 2(1) [OF _ _ rec _ _ _ _ _ _ m' rest] 2(3-8) full get
        by (simp add: raws fs norm_simps normalize_trade_def q f Let_def owner_def del: map_of_append)
    qed
  qed auto
  then show "map_of (snd (normalize_trades agg m raws)) = map_of (ws @ by_id owner ys @ zs)"
    and "map (\<lambda>w. (t_resting w, t_restingNode w)) (fst (normalize_trades agg m raws)) =
      map (\<lambda>f. (od_id (fst f), od_node (fst f))) fs" by blast+
qed

text \<open>What a submission does to the list of all resting orders.\<close>

lemma submit_resting:
  assumes "book_ok b" and "0 \<le> od_qty ord" and "od_price ord \<noteq> NaN"
    and "submit_order ord ts b n = (res, events, b', n')"
  obtains stop ws xs zs fs ys where "resting_orders b = ws @ xs @ zs"
    and "take_fills stop (od_qty ord) xs = (fs, ys)" and "live xs"
    and "trade_events events = fill_trades ord ts n fs" and "er_filled res = fills_qty fs"
    and "if er_status res = QUEUED \<or> er_status res = PARTIAL
      then \<exists>as cs. ws @ ys @ zs = as @ cs \<and> resting_orders b' = as @ reduceQuantity (fills_qty fs) ord # cs
      else resting_orders b' = ws @ ys @ zs"
proof -
  have sides: "side_ok (\<lambda>p q. js_gt p q) (ob_bids b)" "side_ok js_lt (ob_asks b)"
    using assms(1) by (simp_all add: book_ok_def)
  show thesis
    using assms(1,2,4)
  proof (cases rule: submit_shape)
    case (bid ls s fs)
    let ?r = "reduceQuantity (fills_qty fs) ord"
    obtain xs1 xs2 where "flat (ob_bids b) = xs1 @ xs2"
      "flat (level_push (\<lambda>p q. js_gt p q) ?r (ob_bids b)) = xs1 @ ?r # xs2"
      using price_time_insert_split bids.push_flat [OF sides(1), of ?r] assms(3) by (metis reduceQuantity_simps(3))
    then have "\<exists>as cs. flat (ob_bids b) @ flat ls = as @ cs \<and>
        flat (level_push (\<lambda>p q. js_gt p q) ?r (ob_bids b)) @ flat ls = as @ ?r # cs"
      by (intro exI [of _ xs1] exI [of _ "xs2 @ flat ls"]) simp
    then show thesis
      using bid(4,5) by (intro that [OF _ bid(2) side_ok_live [OF sides(2)], of "flat (ob_bids b)" "[]"])
        (auto simp: resting_orders_def settle_order_def Let_def submit_result_def submit_status_def split: if_splits)
  next
    case (ask ls s fs)
    let ?r = "reduceQuantity (fills_qty fs) ord"
    obtain xs1 xs2 where "flat (ob_asks b) = xs1 @ xs2"
      "flat (level_push js_lt ?r (ob_asks b)) = xs1 @ ?r # xs2"
      using price_time_insert_split asks.push_flat [OF sides(2), of ?r] assms(3) by (metis reduceQuantity_simps(3))
    then have "\<exists>as cs. flat ls @ flat (ob_asks b) = as @ cs \<and>
        flat ls @ flat (level_push js_lt ?r (ob_asks b)) = as @ ?r # cs"
      by (intro exI [of _ "flat ls @ xs1"] exI [of _ xs2]) simp
    then show thesis
      using ask(4,5) by (intro that [OF _ ask(2) side_ok_live [OF sides(1)], of "[]" "flat (ob_asks b)"])
        (auto simp: resting_orders_def settle_order_def Let_def submit_result_def submit_status_def split: if_splits)
  qed
qed

lemma mirrors_length:
  assumes "mirrors_book m xs" and "omap_wf m" and "distinct (map od_id xs)"
  shows "length m = length xs"
proof -
  have "set (omap_keys m) = set (map od_id xs)"
    using assms(1) dom_map_of_conv_image_fst [of m] dom_map_of_conv_image_fst [of "by_id owner xs"]
    by (simp add: mirrors_book_def)
  then show ?thesis
    using distinct_card [of "omap_keys m"] distinct_card [OF assms(3)] assms(2) by (simp add: omap_wf_def)
qed

text \<open>The fields of a decoded record that the normalizer reads.\<close>

lemma decoded_record:
  assumes "decodes (toProto r) raw" and "0 \<le> tl_qty r" "tl_qty r < 2 ^ 53"
    and "0 \<le> er_filled (tl_result r)" "er_filled (tl_result r) < 2 ^ 53"
  shows "order_id_of raw = tl_orderId r"
    and "nullish (ro_node_id (nullish (r_order raw) no_order)) [] = tl_nodeId r"
    and "(ro_op (nullish (r_order raw) no_order) = Val ''OP_CANCEL'') = tl_isCancel r"
    and "(STATUS (ro_status (nullish (r_order raw) no_order)) = Some Queued \<or>
          STATUS (ro_status (nullish (r_order raw) no_order)) = Some Partial) =
         (er_status (tl_result r) = QUEUED \<or> er_status (tl_result r) = PARTIAL)"
    and "num (ro_quantity (nullish (r_order raw) no_order)) = js_int (tl_qty r)"
    and "num (ro_filled_quantity (nullish (r_order raw) no_order)) = js_int (er_filled (tl_result r))"
    and "(ro_cancel_successful (nullish (r_order raw) no_order) = Val True) = er_cancelOk (tl_result r)"
    and "list_all2 decodes_trade (trade_events (tl_events r)) (trades_of raw)"
proof -
  obtain ord where ord: "r_order raw = Val ord" "decodes_order (px_order (toProto r)) ord"
    using assms(1) by (auto simp: decodes_def split: field.splits)
  have exact: "dbl q = js_int q" if "0 \<le> q" "q < 2 ^ 53" for q
    using that fl_int [of q] by (simp add: dbl_def safe_int_def)
  have parts: "carries [] (tl_orderId r) (ro_order_id ord)" "carries [] (tl_nodeId r) (ro_node_id ord)"
    "carries_name [''OP_SUBMIT'', ''OP_CANCEL''] (op_name (if tl_isCancel r then OP_CANCEL else OP_SUBMIT)) (ro_op ord)"
    "carries_name [''FILLED'', ''PARTIAL'', ''QUEUED'', ''REJECTED''] (status_name (er_status (tl_result r))) (ro_status ord)"
    "carries (Fin 0) (dbl (tl_qty r)) (ro_quantity ord)"
    "carries (Fin 0) (dbl (er_filled (tl_result r))) (ro_filled_quantity ord)"
    "carries False (er_cancelOk (tl_result r)) (ro_cancel_successful ord)"
    using ord(2) by (simp_all add: decodes_order_def)
  show "order_id_of raw = tl_orderId r"
    using carries_nullish [OF parts(1)] ord(1) by (simp add: order_id_of_def)
  show "nullish (ro_node_id (nullish (r_order raw) no_order)) [] = tl_nodeId r"
    using carries_nullish [OF parts(2)] ord(1) by simp
  show "(ro_op (nullish (r_order raw) no_order) = Val ''OP_CANCEL'') = tl_isCancel r"
    using parts(3) ord(1) by (auto simp: carries_name_def split: if_splits)
  show "(STATUS (ro_status (nullish (r_order raw) no_order)) = Some Queued \<or>
          STATUS (ro_status (nullish (r_order raw) no_order)) = Some Partial) =
         (er_status (tl_result r) = QUEUED \<or> er_status (tl_result r) = PARTIAL)"
    using parts(4) ord(1) by (cases "er_status (tl_result r)") (simp_all add: carries_name_def STATUS_def)
  show "num (ro_quantity (nullish (r_order raw) no_order)) = js_int (tl_qty r)"
    using carries_num [OF parts(5)] ord(1) exact [OF assms(2,3)] by simp
  show "num (ro_filled_quantity (nullish (r_order raw) no_order)) = js_int (er_filled (tl_result r))"
    using carries_num [OF parts(6)] ord(1) exact [OF assms(4,5)] by simp
  show "(ro_cancel_successful (nullish (r_order raw) no_order) = Val True) = er_cancelOk (tl_result r)"
    using parts(7) ord(1) by (auto simp: carries_def)
  show "list_all2 decodes_trade (trade_events (tl_events r)) (trades_of raw)"
    using assms(1) by (simp add: decodes_def trades_of_def)
qed

lemma normalize_trades_wf: "omap_wf m \<Longrightarrow> omap_wf (snd (normalize_trades node m ts))"
proof (induction ts arbitrary: m)
  case (Cons t ts)
  have "omap_wf (fill_resting i q m)" for i q
    using Cons.prems omap.wf_put [of m] omap.wf_del [of m]
    by (auto simp: fill_resting_def Let_def split: option.split)
  then show ?case using Cons.IH by (simp add: norm_simps normalize_trade_def Let_def)
qed simp

definition submit_record :: "xorder \<Rightarrow> engine_result \<Rightarrow> market_event list \<Rightarrow> telemetry_record \<Rightarrow> bool" where
  "submit_record ord res events r \<longleftrightarrow> \<not> tl_isCancel r \<and> tl_orderId r = od_id ord \<and>
     tl_nodeId r = od_node ord \<and> tl_qty r = od_qty ord \<and> tl_result r = res \<and> tl_events r = events"

lemma mirrored_submit:
  assumes "book_ok b" and "od_id ord \<notin> od_id ` set (resting_orders b)" and "0 \<le> od_qty ord" "od_qty ord < 2 ^ 53"
    and "od_price ord \<noteq> NaN" and "small (resting_orders b)" and "mirrors_book m (resting_orders b)" and "omap_wf m"
    and "submit_order ord ts b n = (res, events, b', n')" and "submit_record ord res events r"
    and "decodes (toProto r) raw" and "length (resting_orders b') \<le> RESTING_MAX"
  shows "mirrors_book (next_resting raw m) (resting_orders b')" and "omap_wf (next_resting raw m)"
    and "small (resting_orders b')"
    and "set (map (\<lambda>w. (t_resting w, t_restingNode w)) (fst (normalize_trades agg m (trades_of raw)))) \<subseteq>
      (\<lambda>x. (od_id x, od_node x)) ` set (resting_orders b)"
proof -
  obtain stop ws xs zs fs ys where sub: "resting_orders b = ws @ xs @ zs"
    "take_fills stop (od_qty ord) xs = (fs, ys)" "live xs"
    "trade_events events = fill_trades ord ts n fs" "er_filled res = fills_qty fs"
    "if er_status res = QUEUED \<or> er_status res = PARTIAL
      then \<exists>as cs. ws @ ys @ zs = as @ cs \<and> resting_orders b' = as @ reduceQuantity (fills_qty fs) ord # cs
      else resting_orders b' = ws @ ys @ zs"
    by (rule submit_resting [OF assms(1,3,5,9)])
  have ok': "book_ok b'" by (rule submit_ok [OF assms(1,2,3,5,9)])
  have filled: "0 \<le> fills_qty fs" "fills_qty fs \<le> od_qty ord"
    "er_status res = QUEUED \<or> er_status res = PARTIAL \<Longrightarrow> fills_qty fs < od_qty ord"
    using submission_conserves_quantity [OF assms(1,3,9)] sub(5) by auto
  have dist: "distinct (map od_id (ws @ xs @ zs))" using assms(1) sub(1) by (simp add: book_ok_def)
  have rec: "0 \<le> tl_qty r" "tl_qty r < 2 ^ 53" "0 \<le> er_filled (tl_result r)" "er_filled (tl_result r) < 2 ^ 53"
    using assms(3,4,10) filled sub(5) by (auto simp: submit_record_def)
  note d = decoded_record [OF assms(11) rec]
  have raws: "list_all2 decodes_trade (fill_trades ord ts n fs) (trades_of raw)"
    using d assms(10) sub(4) by (simp add: submit_record_def)
  have m: "map_of m = map_of (by_id owner ws @ by_id owner xs @ by_id owner zs)"
    using assms(7) sub(1) by (simp add: mirrors_book_def)
  have small_all: "small ws" "small xs" "small zs" using assms(6) sub(1) by simp_all
  have apart: "distinct (map od_id xs)" "od_id ` set xs \<inter> fst ` set (by_id owner ws) = {}"
    "od_id ` set xs \<inter> fst ` set (by_id owner zs) = {}" using dist by auto
  note fills = mirrored_fills [OF sub(2) assms(3) sub(3) small_all(2) apart m raws]
  let ?m = "\<lambda>agg. snd (normalize_trades agg m (trades_of raw))"
  have m1: "mirrors_book (?m agg) (ws @ ys @ zs)" for agg
    using fills(1) by (simp add: mirrors_book_def)
  show "set (map (\<lambda>w. (t_resting w, t_restingNode w)) (fst (normalize_trades agg m (trades_of raw)))) \<subseteq>
      (\<lambda>x. (od_id x, od_node x)) ` set (resting_orders b)"
  proof -
    have "set (map fst fs) \<subseteq> set xs"
      using take_fills_prefix(1) [OF sub(3,2)] set_take_subset [of "length fs" xs] by simp
    then show ?thesis using fills(2) sub(1) by fastforce
  qed
  have "next_resting raw m = (if er_status res = QUEUED \<or> er_status res = PARTIAL
      then remember (od_id ord) (owner (reduceQuantity (fills_qty fs) ord)) (?m (od_node ord))
      else ?m (od_node ord))"
  proof -
    have "safe_int (od_qty ord - fills_qty fs)" using filled assms(4) by (simp add: safe_int_def)
    then have "js_sub (js_int (od_qty ord)) (js_int (fills_qty fs)) = js_int (od_qty ord - fills_qty fs)"
      by (rule js_sub_int)
    then show ?thesis
      using d assms(10) sub(5) by (simp add: next_resting_def track_order_def submit_record_def owner_def Let_def)
  qed
  note table = this
  have ys: "small ys" by (rule small_live [OF small_all(2) sub(3,2)])
  show "small (resting_orders b')"
  proof (cases "er_status res = QUEUED \<or> er_status res = PARTIAL")
    case True
    then obtain as cs where split: "ws @ ys @ zs = as @ cs"
      "resting_orders b' = as @ reduceQuantity (fills_qty fs) ord # cs" using sub(6) by auto
    have "small (as @ cs)" unfolding split(1) [symmetric] using small_all ys by simp
    then show ?thesis using split(2) filled(1) filled(3) [OF True] assms(4) by simp
  next
    case False
    then show ?thesis using sub(6) small_all ys by simp
  qed
  have wf1: "omap_wf (?m agg)" for agg by (rule normalize_trades_wf [OF assms(8)])
  have "mirrors_book (next_resting raw m) (resting_orders b') \<and> omap_wf (next_resting raw m)"
  proof (cases "er_status res = QUEUED \<or> er_status res = PARTIAL")
    case True
    let ?r = "reduceQuantity (fills_qty fs) ord" and ?m1 = "?m (od_node ord)"
    obtain as cs where split: "ws @ ys @ zs = as @ cs" "resting_orders b' = as @ ?r # cs"
      using sub(6) True by auto
    have "od_id ord \<notin> od_id ` set (as @ cs)"
      using assms(2) sub(1) take_fills_ids(2) [OF sub(3,2) apart(1)] unfolding split(1) [symmetric] by auto
    then have set: "mirrors_book (omap_set (od_id ord) (owner ?r) ?m1) (resting_orders b')"
      using m1 [of "od_node ord"] map_of_insert [of "od_id ord" "by_id owner as" "by_id owner cs"]
      by (simp add: mirrors_book_def split update_conv' image_Un del: map_of_append)
    have wf: "omap_wf (omap_set (od_id ord) (owner ?r) ?m1)" by (rule omap.wf_put [OF wf1])
    have "distinct (map od_id (resting_orders b'))" using ok' by (simp add: book_ok_def)
    then have "length (omap_set (od_id ord) (owner ?r) ?m1) \<le> RESTING_MAX"
      using mirrors_length [OF set wf] assms(12) by simp
    then have "next_resting raw m = omap_set (od_id ord) (owner ?r) ?m1"
      using table True by (simp add: remember_def)
    then show ?thesis using set wf by simp
  next
    case False
    then show ?thesis using table m1 [of "od_node ord"] wf1 sub(6) by simp
  qed
  then show "mirrors_book (next_resting raw m) (resting_orders b')" and "omap_wf (next_resting raw m)" by blast+
qed

lemma mirrored_cancel:
  assumes "mirrors_book m xs" and "omap_wf m" and "small xs"
    and "tl_isCancel r" "tl_orderId r = i" "er_cancelOk (tl_result r) = (i \<in> od_id ` set xs)"
    and "er_status (tl_result r) = ORDER_STATUS_UNSPECIFIED" "er_filled (tl_result r) = 0" "tl_qty r = 0"
    and "trade_events (tl_events r) = []" and "decodes (toProto r) raw"
  shows "mirrors_book (next_resting raw m) (filter (\<lambda>x. od_id x \<noteq> i) xs)" and "omap_wf (next_resting raw m)"
    and "trades_of raw = []"
proof -
  have n: "0 \<le> tl_qty r" "tl_qty r < 2 ^ 53" "0 \<le> er_filled (tl_result r)" "er_filled (tl_result r) < 2 ^ 53"
    using assms(8,9) by simp_all
  note d = decoded_record [OF assms(11) n]
  show t: "trades_of raw = []" using d assms(10) by simp
  have table: "next_resting raw m = (if i \<in> od_id ` set xs then omap_del i m else m)"
    using d assms(4-7) t by (simp add: next_resting_def track_order_def Let_def)
  have by_id_filter: "filter (\<lambda>x. fst x \<noteq> i) (by_id owner xs) = by_id owner (filter (\<lambda>r. od_id r \<noteq> i) xs)"
    for xs by (induction xs) auto
  have del: "mirrors_book (omap_del i m) (filter (\<lambda>x. od_id x \<noteq> i) xs)"
    using assms(1) by (simp add: mirrors_book_def delete_conv' map_of_filter_key by_id_filter)
  have "filter (\<lambda>x. od_id x \<noteq> i) xs = xs" if "i \<notin> od_id ` set xs" using that by (intro filter_True) auto
  then show "mirrors_book (next_resting raw m) (filter (\<lambda>x. od_id x \<noteq> i) xs)"
    using del assms(1) table by simp
  show "omap_wf (next_resting raw m)" using table assms(2) omap.wf_del [OF assms(2)] by simp
qed

section \<open>The whole stream\<close>

abbreviation batch_node :: "raw_batch \<Rightarrow> string" where
  "batch_node raw \<equiv> nullish (ro_node_id (nullish (r_order raw) no_order)) []"

text \<open>The trades the normalizer sends for a list of messages, and its table afterwards.\<close>

fun wire_trades :: "raw_batch list \<Rightarrow> resting_map \<Rightarrow> wire_trade list" where
  "wire_trades [] m = []"
| "wire_trades (raw # raws) m =
     fst (normalize_trades (batch_node raw) m (trades_of raw)) @ wire_trades raws (next_resting raw m)"

lemma wire_trades_snoc:
  "wire_trades (raws @ [raw]) m = wire_trades raws m @
     fst (normalize_trades (batch_node raw) (fold next_resting raws m) (trades_of raw))"
  by (induction raws arbitrary: m) simp_all

lemma norm_run_tables:
  "n_resting (run norm_step n es) = fold next_resting (messages es) (n_resting n)"
  "concat (map b_trades (norm_batches n es)) = wire_trades (messages es) (n_resting n)"
proof (induction es arbitrary: n)
  case (Cons e es)
  {
    case 1
    then show ?case by (cases e) (simp_all add: Cons.IH norm_simps flushBook_def)
  next
    case 2
    then show ?case by (cases e) (simp_all add: Cons.IH norm_simps flushBook_def)
  }
qed simp_all

definition submit_names :: "telemetry_record list \<Rightarrow> (string \<times> string) list" where
  "submit_names rs = map (\<lambda>r. (tl_orderId r, tl_nodeId r)) (filter (\<lambda>r. \<not> tl_isCancel r) rs)"

lemma submit_names_simps [simp]:
  "submit_names [] = []"
  "submit_names (rs @ [r]) = submit_names rs @ (if tl_isCancel r then [] else [(tl_orderId r, tl_nodeId r)])"
  by (simp_all add: submit_names_def)

definition waiting_orders :: "exchange \<Rightarrow> xorder list" where
  "waiting_orders x = submitted (x_calls x) @ submitted (x_queue x)"

abbreviation name_of :: "xorder \<Rightarrow> string \<times> string" where
  "name_of r \<equiv> (od_id r, od_node r)"

text \<open>
  What relates an exchange to a subscriber that has received \<open>rs\<close> since the book was empty: the
  normalizer's table mirrors the book, each order in it was announced by a record, and so was the
  resting order of every trade sent; no id was announced twice.
\<close>

definition stream_ok :: "(proto_batch \<Rightarrow> raw_batch) \<Rightarrow> exchange \<Rightarrow> telemetry_record list \<Rightarrow> bool" where
  "stream_ok dec x rs \<longleftrightarrow>
     (let raws = map (dec \<circ> toProto) rs; m = fold next_resting raws [] in
      mirrors_book m (resting_orders (x_book x)) \<and> omap_wf m \<and> small (resting_orders (x_book x)) \<and>
      name_of ` set (resting_orders (x_book x)) \<subseteq> set (submit_names rs) \<and>
      (\<lambda>w. (t_resting w, t_restingNode w)) ` set (wire_trades raws []) \<subseteq> set (submit_names rs) \<and>
      list_all (\<lambda>r. od_qty r < 2 ^ 53) (waiting_orders x) \<and>
      list_all (\<lambda>m. qm_payload m \<noteq> No_payload) (x_calls x @ x_queue x) \<and>
      distinct (map od_id (waiting_orders x) @ map fst (submit_names rs)) \<and>
      set (map fst (submit_names rs)) \<subseteq> order_id ` {..<x_nextOrder x})"

definition synced :: "(proto_batch \<Rightarrow> raw_batch) \<Rightarrow> exchange \<Rightarrow> bool" where
  "synced dec x \<longleftrightarrow> 1 < pb_nextId (x_telemetry x) \<and>
     (\<exists>rs. received (x_telemetry x) 1 = Some rs \<and> stream_ok dec x rs)"

fun valid_stream_event :: "xevent \<Rightarrow> bool" where
  "valid_stream_event (Submit_call rq t t') \<longleftrightarrow> 0 \<le> rq_qty rq \<and> rq_qty rq < 2 ^ 53 \<and> rq_price rq \<noteq> NaN"
| "valid_stream_event (Telemetry_unsubscribe i) \<longleftrightarrow> i \<noteq> 1"
| "valid_stream_event _ \<longleftrightarrow> True"

lemma valid_stream_valid: "valid_stream_event e \<Longrightarrow> valid_event e"
  by (cases e) simp_all

text \<open>One served message.\<close>

lemma stream_served:
  assumes "exchange_ok x" and "stream_ok dec x rs" and "x_queue x = m # ms"
    and "run_payload (qm_payload m) (ck_millis ck) (x_book x) (x_nextTrade x) = Some (res, events, b', n')"
    and "r = telemetry seq ck m res events b'" and "length (resting_orders b') \<le> RESTING_MAX"
    and "\<And>b. decodes b (dec b)"
    and "x_calls x' = x_calls x" "x_queue x' = ms" "x_book x' = b'" "x_nextOrder x' = x_nextOrder x"
  shows "stream_ok dec x' (rs @ [r])"
proof -
  let ?raws = "map (dec \<circ> toProto) rs" and ?raw = "dec (toProto r)"
  let ?m = "fold next_resting ?raws []"
  have dec: "decodes (toProto r) ?raw" by (rule assms(7))
  have ok: "book_ok (x_book x)" using assms(1) by (simp add: exchange_ok_def)
  have s: "mirrors_book ?m (resting_orders (x_book x))" "omap_wf ?m" "small (resting_orders (x_book x))"
    "name_of ` set (resting_orders (x_book x)) \<subseteq> set (submit_names rs)"
    "(\<lambda>w. (t_resting w, t_restingNode w)) ` set (wire_trades ?raws []) \<subseteq> set (submit_names rs)"
    using assms(2) by (simp_all add: stream_ok_def Let_def)
  have w: "waiting_orders x = submitted (x_calls x) @ orders_of m @ submitted ms"
    "waiting_orders x' = submitted (x_calls x) @ submitted ms"
    using assms(3,8,9) by (simp_all add: waiting_orders_def)
  show ?thesis
  proof (cases "qm_payload m")
    case (SubmitPayload ord)
    have om: "orders_of m = [ord]" using SubmitPayload by (simp add: orders_of_def)
    have sub: "submit_order ord (ck_millis ck) (x_book x) (x_nextTrade x) = (res, events, b', n')"
      using assms(4) SubmitPayload by simp
    have ord: "0 \<le> od_qty ord" "od_qty ord < 2 ^ 53" "od_price ord \<noteq> NaN" "od_id ord \<notin> od_id ` set (resting_orders (x_book x))"
      using assms(1,2,3) om w(1) by (auto simp: exchange_ok_def ids_in_use_def stream_ok_def Let_def admissible_def)
    have r: "submit_record ord res events r"
      using assms(5) SubmitPayload by (simp add: submit_record_def telemetry_def)
    note mir = mirrored_submit [OF ok ord(4,1,2,3) s(3,1,2) sub r dec assms(6)]
    have names: "name_of ` set (resting_orders b') \<subseteq> insert (name_of ord) (name_of ` set (resting_orders (x_book x)))"
      by (rule submit_origin [OF ok ord(1) sub]) simp
    have new: "submit_names (rs @ [r]) = submit_names rs @ [name_of ord]"
      using r by (simp add: submit_record_def)
    have ids: "od_id ord \<in> order_id ` {..<x_nextOrder x}"
      using assms(1,3) om by (simp add: exchange_ok_def ids_in_use_def)
    have "(\<lambda>w. (t_resting w, t_restingNode w)) ` set (wire_trades (?raws @ [?raw]) []) \<subseteq> set (submit_names rs)"
      using mir(4) [of "batch_node ?raw"] s(4,5) unfolding wire_trades_snoc
      by (simp add: image_Un)
    moreover have "name_of ` set (resting_orders b') \<subseteq> set (submit_names rs @ [name_of ord])"
      by (rule order_trans [OF names]) (use s(4) in auto)
    ultimately show ?thesis
      using assms(2,3,8-11) mir(1-3) ids w om
      unfolding stream_ok_def Let_def new by auto
  next
    case (CancelPayload i node)
    obtain c: "er_cancelOk res = (i \<in> od_id ` set (resting_orders (x_book x)))"
      "resting_orders b' = filter (\<lambda>r. od_id r \<noteq> i) (resting_orders (x_book x))" "trade_events events = []"
      "er_status res = ORDER_STATUS_UNSPECIFIED" "er_filled res = 0"
    proof -
      obtain res' events' b'' where c: "cancel i (ck_millis ck) (x_book x) = Some (res', events', b'')"
        "er_cancelOk res' = (i \<in> od_id ` set (resting_orders (x_book x)))"
        "flat (ob_bids b'') = filter (\<lambda>r. od_id r \<noteq> i) (flat (ob_bids (x_book x)))"
        "flat (ob_asks b'') = filter (\<lambda>r. od_id r \<noteq> i) (flat (ob_asks (x_book x)))"
        "events' = (if er_cancelOk res' then [Top (currentTopOfBook (ck_millis ck) b'')] else [])"
        by (rule cancel_cases [OF ok])
      moreover have "er_status res' = ORDER_STATUS_UNSPECIFIED" "er_filled res' = 0"
        using c(1) by (auto simp: cancel_def cancel_result_def split: option.splits)
      ultimately show thesis using that assms(4) CancelPayload by (auto simp: resting_orders_def)
    qed
    have r: "tl_isCancel r" "tl_orderId r = i" "tl_result r = res" "tl_events r = events" "tl_qty r = 0"
      using assms(5) CancelPayload by (simp_all add: telemetry_def)
    note mir = mirrored_cancel [OF s(1-3) r(1,2) _ _ _ r(5) _ dec, unfolded r(3,4), OF c(1,4,5,3)]
    have "wire_trades (?raws @ [?raw]) [] = wire_trades ?raws []"
      using mir(3) by (simp add: wire_trades_snoc)
    moreover have "small (resting_orders b')" using s(3) c(2) by (simp add: small_def list_all_iff)
    moreover have "submit_names (rs @ [r]) = submit_names rs" using r(1) by simp
    moreover have "orders_of m = []" using CancelPayload by (simp add: orders_of_def)
    ultimately show ?thesis
      using assms(2,3,8-11) mir(1,2) s(4) w c(2)
      unfolding stream_ok_def Let_def by auto
  next
    case No_payload
    then show ?thesis using assms(2,3) by (simp add: stream_ok_def Let_def)
  qed
qed


lemma stream_ok_cong:
  assumes "stream_ok dec x rs" and "x_book x' = x_book x" and "x_nextOrder x \<le> x_nextOrder x'"
    and "list_all (\<lambda>r. od_qty r < 2 ^ 53) (waiting_orders x')"
    and "list_all (\<lambda>m. qm_payload m \<noteq> No_payload) (x_calls x' @ x_queue x')"
    and "distinct (map od_id (waiting_orders x') @ map fst (submit_names rs))"
  shows "stream_ok dec x' rs"
proof -
  have "set (map fst (submit_names rs)) \<subseteq> order_id ` {..<x_nextOrder x'}"
    using assms(1,3) by (force simp: stream_ok_def Let_def)
  then show ?thesis using assms unfolding stream_ok_def Let_def by simp
qed

lemma enqueue_waiting:
  "mset (waiting_orders (enqueue k x)) = mset (waiting_orders x)"
  "mset (x_calls (enqueue k x) @ x_queue (enqueue k x)) = mset (x_calls x @ x_queue x)"
proof -
  have "mset (x_calls (enqueue k x) @ x_queue (enqueue k x)) = mset (x_calls x @ x_queue x) \<and>
      mset (waiting_orders (enqueue k x)) = mset (waiting_orders x)"
  proof (cases "k < length (x_calls x)")
    case True
    let ?m = "x_calls x ! k" and ?as = "take k (x_calls x)" and ?bs = "drop (Suc k) (x_calls x)"
    have split: "x_calls x = ?as @ ?m # ?bs" using True by (rule id_take_nth_drop)
    have "mset (x_calls x) = mset (?as @ ?m # ?bs)" "submitted (x_calls x) = submitted (?as @ ?m # ?bs)"
      using split by simp_all
    then show ?thesis using True by (simp add: enqueue_def waiting_orders_def)
  qed (simp add: enqueue_def)
  then show "mset (waiting_orders (enqueue k x)) = mset (waiting_orders x)"
    "mset (x_calls (enqueue k x) @ x_queue (enqueue k x)) = mset (x_calls x @ x_queue x)" by blast+
qed

lemma list_all_mset: "mset xs = mset ys \<Longrightarrow> list_all P xs = list_all P ys"
  unfolding list_all_iff by (metis mset_eq_setD)

lemma next_ids:
  "pb_nextId (subscribe p) = Suc (pb_nextId p)"
  "pb_nextId (unsubscribe i p) = pb_nextId p"
  "pb_nextId (write_next i p) = pb_nextId p"
  by (auto simp: subscribe_def unsubscribe_def write_next_def split: option.split list.split)

lemma synced_telemetry:
  assumes "synced dec x" and "Some x' = Some (x\<lparr>x_telemetry := p\<rparr>)"
    and "received p 1 = received (x_telemetry x) 1" and "pb_nextId (x_telemetry x) \<le> pb_nextId p"
  shows "synced dec x'"
  using assms by (auto simp: synced_def stream_ok_def waiting_orders_def Let_def)

lemma stream_step:
  assumes "exchange_ok x" and "synced dec x" and "valid_stream_event e" and "xexec e x = Some x'"
    and "length (resting_orders (x_book x')) \<le> RESTING_MAX" and "\<And>b. decodes b (dec b)"
  shows "synced dec x'"
proof -
  obtain rs where rs: "1 < pb_nextId (x_telemetry x)" "received (x_telemetry x) 1 = Some rs" "stream_ok dec x rs"
    using assms(2) by (auto simp: synced_def)
  show ?thesis
  proof (cases e)
    case (Submit_call rq t t')
    then have x': "x' = SubmitOrder_rpc rq t t' x" using assms(4) by simp
    have "order_id (x_nextOrder x) \<notin> set (map od_id (waiting_orders x) @ map fst (submit_names rs))"
    proof -
      have "set (map od_id (waiting_orders x)) \<subseteq> order_id ` {..<x_nextOrder x}"
        using assms(1) by (auto simp: exchange_ok_def ids_in_use_def waiting_orders_def)
      then show ?thesis using rs(3) by (auto simp: stream_ok_def Let_def)
    qed
    then have "stream_ok dec x' rs"
      using rs(3) assms(3) Submit_call unfolding x'
      by (intro stream_ok_cong [OF rs(3)])
        (auto simp: SubmitOrder_rpc_def Let_def waiting_orders_def orders_of_def stream_ok_def protoToOrder_def)
    moreover have "x_telemetry x' = x_telemetry x" unfolding x' by (simp add: SubmitOrder_rpc_def Let_def)
    ultimately show ?thesis using rs by (simp add: synced_def)
  next
    case (Cancel_call i node t t')
    then have x': "x' = CancelOrder_rpc i node t t' x" using assms(4) by simp
    have "stream_ok dec x' rs"
      using rs(3) unfolding x'
      by (intro stream_ok_cong [OF rs(3)])
        (auto simp: CancelOrder_rpc_def waiting_orders_def orders_of_def stream_ok_def Let_def)
    moreover have "x_telemetry x' = x_telemetry x" unfolding x' by (simp add: CancelOrder_rpc_def)
    ultimately show ?thesis using rs by (simp add: synced_def)
  next
    case (Enqueue k)
    then have x': "x' = enqueue k x" using assms(4) by simp
    have wait: "mset (map od_id (waiting_orders x') @ map fst (submit_names rs)) = mset (map od_id (waiting_orders x) @ map fst (submit_names rs))"
      using arg_cong [OF enqueue_waiting(1) [of k x], of "image_mset od_id"] unfolding x' by simp
    have same: "x_book x' = x_book x" "x_nextOrder x' = x_nextOrder x" "x_telemetry x' = x_telemetry x"
      unfolding x' by (simp_all add: enqueue_def)
    have "stream_ok dec x' rs"
      using rs(3) list_all_mset [OF enqueue_waiting(1) [of k x]] list_all_mset [OF enqueue_waiting(2) [of k x]]
        mset_eq_imp_distinct_iff [OF wait] same unfolding x'
      by (intro stream_ok_cong [OF rs(3)]) (simp_all add: stream_ok_def Let_def)
    then show ?thesis using rs same by (simp add: synced_def)
  next
    case (Engine ck)
    show ?thesis
    proof (cases "x_queue x")
      case Nil
      then show ?thesis using assms(2,4) Engine by (simp add: engine_step_def)
    next
      case (Cons m ms)
      let ?x = "x\<lparr>x_queue := ms\<rparr>"
      have p: "process ck m ?x = Some x'" using assms(4) Engine Cons by (simp add: engine_step_def)
      then obtain res events b' n' where run: "run_payload (qm_payload m) (ck_millis ck) (x_book x) (x_nextTrade x)
          = Some (res, events, b', n')"
        by (auto simp: process_def)
      have on: "hasSubscribers (x_telemetry x)" using rs(2) by (auto simp: subs.listening_rcv)
      let ?r = "telemetry (Suc (x_seq x)) ck m res events b'"
      have x': "x_book x' = b'" "x_queue x' = ms" "x_calls x' = x_calls x" "x_nextOrder x' = x_nextOrder x"
        "x_telemetry x' = publish [?r] (x_telemetry x)"
        using p run on by (auto simp: process_def Let_def)
      have "stream_ok dec x' (rs @ [?r])"
        by (rule stream_served [OF assms(1) rs(3) Cons run refl _ assms(6)]) (use assms(5) x' in simp_all)
      moreover have "received (x_telemetry x') 1 = Some (rs @ [?r])"
        using rs(2) by (simp add: x'(5) subs.rcv_pub)
      moreover have "pb_nextId (x_telemetry x') = pb_nextId (x_telemetry x)" by (simp add: x'(5) publish_def)
      ultimately show ?thesis using rs(1) by (auto simp: synced_def)
    qed
  next
    case Telemetry_subscribe
    then show ?thesis
      using assms(4) rs(1) by (intro synced_telemetry [OF assms(2), where p = "subscribe (x_telemetry x)"]) (simp_all add: subs.rcv_sub next_ids)
  next
    case (Telemetry_write i)
    then show ?thesis
      using assms(4) by (intro synced_telemetry [OF assms(2), where p = "write_next i (x_telemetry x)"]) (simp_all add: subs.rcv_flush next_ids)
  next
    case (Telemetry_unsubscribe i)
    then show ?thesis
      using assms(3,4) by (intro synced_telemetry [OF assms(2), where p = "unsubscribe i (x_telemetry x)"]) (simp_all add: subs.rcv_unsub next_ids)
  qed (use assms(4) rs in \<open>auto simp: synced_def stream_ok_def waiting_orders_def Let_def\<close>)
qed

text \<open>
  A run of the exchange whose first event is the subscription of the gateway, which then stays
  subscribed, with at most 50000 orders resting at any time.
\<close>

definition within_capacity :: "xevent list \<Rightarrow> bool" where
  "within_capacity es \<longleftrightarrow> (\<forall>k x. server_run (take k es) = Some x \<longrightarrow> length (resting_orders (x_book x)) \<le> 50000)"

lemma subscribed_start:
  "xexec Telemetry_subscribe new_exchange = Some x \<Longrightarrow> synced dec x \<and> exchange_ok x"
proof -
  assume x: "xexec Telemetry_subscribe new_exchange = Some x"
  then have "exchange_ok x" using xexec_ok [of Telemetry_subscribe new_exchange] new_exchange_ok by simp
  moreover have "synced dec x"
    using x by (auto simp: synced_def stream_ok_def new_exchange_def new_publisher_def subscribe_def
        received_def Let_def mirrors_book_def omap_wf_def waiting_orders_def)
  ultimately show ?thesis by simp
qed

lemma prun_snoc:
  "prun exec (es @ [e]) s = Some s' \<Longrightarrow> \<exists>y. prun exec es s = Some y \<and> exec e y = Some s'"
  by (auto simp: prun_append bind_eq_Some_conv split: option.splits)

lemma stream_run:
  assumes "\<And>b. decodes b (dec b)" and "list_all valid_stream_event es"
    and "server_run (Telemetry_subscribe # es) = Some x" and "within_capacity (Telemetry_subscribe # es)"
  shows "synced dec x \<and> exchange_ok x"
  using assms(2-4)
proof (induction es arbitrary: x rule: rev_induct)
  case Nil
  then show ?case using subscribed_start [of x dec] by simp
next
  case (snoc e es)
  obtain y where y: "server_run (Telemetry_subscribe # es) = Some y" "xexec e y = Some x"
    using prun_snoc [of xexec "Telemetry_subscribe # es" e] snoc.prems(2) by auto
  have "within_capacity (Telemetry_subscribe # es)"
    unfolding within_capacity_def
  proof (intro allI impI)
    fix k z
    assume z: "server_run (take k (Telemetry_subscribe # es)) = Some z"
    have "take (min k (Suc (length es))) (Telemetry_subscribe # es @ [e]) = take k (Telemetry_subscribe # es)"
      by (cases "k \<le> Suc (length es)") (simp_all add: take_Cons' min_def)
    then show "length (resting_orders (x_book z)) \<le> 50000"
      using snoc.prems(3) z unfolding within_capacity_def by metis
  qed
  then have IH: "synced dec y" "exchange_ok y" using snoc.IH [OF _ y(1)] snoc.prems(1) by simp_all
  have "server_run (take (length (Telemetry_subscribe # es @ [e])) (Telemetry_subscribe # es @ [e])) = Some x"
    using snoc.prems(2) by simp
  then have "length (resting_orders (x_book x)) \<le> RESTING_MAX"
    using snoc.prems(3) unfolding within_capacity_def RESTING_MAX_def by blast
  then have "synced dec x"
    using stream_step [OF IH(2,1) _ y(2) _ assms(1)] snoc.prems(1) by simp
  moreover have "exchange_ok x"
    using xexec_ok [OF valid_stream_valid IH(2), of e] snoc.prems(1) y(2) by auto
  ultimately show ?case by simp
qed

text \<open>
  C1. The gateway's table of resting orders is the book of the exchange. A gateway that subscribed
  before the first order, and has received every record since, remembers exactly the orders that
  rest in the book, each with its node and its exact remaining quantity, in every interleaving of
  the threads of the exchange and of messages and flushes at the gateway: for quantities below
  2^53, at most 50000 resting orders, and a loader that decodes messages faithfully.
\<close>

theorem table_mirrors_book:
  assumes "\<And>b. decodes b (dec b)" and "list_all valid_stream_event es"
    and "server_run (Telemetry_subscribe # es) = Some x" and "within_capacity (Telemetry_subscribe # es)"
    and "received (x_telemetry x) 1 = Some rs" and "messages ns = map (dec \<circ> toProto) rs"
  shows "map_of (n_resting (run norm_step new_normalizer ns)) =
    map_of (map (\<lambda>r. (od_id r, \<lparr>rs_node = od_node r, rs_remaining = js_int (od_qty r)\<rparr>)) (resting_orders (x_book x)))"
proof -
  have "stream_ok dec x rs"
    using stream_run [OF assms(1-4)] assms(5) by (auto simp: synced_def)
  then show ?thesis
    by (simp add: stream_ok_def Let_def mirrors_book_def by_id_def owner_def norm_run_tables(1) assms(6)
        new_normalizer_def comp_def)
qed

text \<open>
  The node in a trade is the one that a submission of that very order id was recorded with, and no
  order id was submitted twice.
\<close>

lemma recorded_owners:
  assumes "\<And>b. decodes b (dec b)" and "list_all valid_stream_event es"
    and "server_run (Telemetry_subscribe # es) = Some x" and "within_capacity (Telemetry_subscribe # es)"
    and "received (x_telemetry x) 1 = Some rs" and "messages ns = map (dec \<circ> toProto) rs"
  shows "set (map (\<lambda>w. (t_resting w, t_restingNode w)) (concat (map b_trades (norm_batches new_normalizer ns))))
      \<subseteq> set (map (\<lambda>r. (tl_orderId r, tl_nodeId r)) (filter (\<lambda>r. \<not> tl_isCancel r) rs)) \<and>
    distinct (map tl_orderId (filter (\<lambda>r. \<not> tl_isCancel r) rs))"
proof -
  have s: "stream_ok dec x rs"
    using stream_run [OF assms(1-4)] assms(5) by (auto simp: synced_def)
  have "map fst (submit_names rs) = map tl_orderId (filter (\<lambda>r. \<not> tl_isCancel r) rs)"
    by (simp add: submit_names_def)
  then have "distinct (map tl_orderId (filter (\<lambda>r. \<not> tl_isCancel r) rs))"
    using s by (simp add: stream_ok_def Let_def)
  moreover have "(\<lambda>w. (t_resting w, t_restingNode w)) ` set (wire_trades (map (dec \<circ> toProto) rs) [])
      \<subseteq> set (submit_names rs)"
    using s by (simp add: stream_ok_def Let_def)
  moreover have "concat (map b_trades (norm_batches new_normalizer ns)) = wire_trades (map (dec \<circ> toProto) rs) []"
    using norm_run_tables(2) [of new_normalizer ns] assms(6) by (simp add: new_normalizer_def)
  ultimately show ?thesis unfolding submit_names_def by simp
qed

section \<open>The books on the wire\<close>

definition depth_ok :: "book_depth \<Rightarrow> bool" where
  "depth_ok d \<longleftrightarrow> sorted_wrt (\<lambda>p q. js_gt p q) (map dl_price (dp_bids d)) \<and>
     sorted_wrt js_lt (map dl_price (dp_asks d)) \<and>
     length (dp_bids d) \<le> 10 \<and> length (dp_asks d) \<le> 10 \<and>
     list_all (\<lambda>b. list_all (\<lambda>a. js_lt (dl_price b) (dl_price a)) (dp_asks d)) (dp_bids d)"

lemma depth_depth_ok:
  assumes "book_ok b"
  shows "depth_ok (depth 10 b)"
proof -
  have prices: "map dl_price (collect n ls) = take n (map fst ls)" for n ls
    by (simp add: collect_levels take_map comp_def split_def)
  have reach: "\<exists>x \<in> set (flat ls). od_price x = dl_price l"
    if l: "l \<in> set (collect n ls)" and ok: "list_all level_ok ls" for n ls l
  proof -
    obtain p rs where p: "(p, rs) \<in> set ls" "dl_price l = p"
      using l by (auto simp: collect_levels dest!: in_set_takeD)
    then have "rs \<noteq> []" "list_all (\<lambda>r. od_price r = p) rs"
      using ok by (auto simp: list_all_iff level_ok_def)
    then have "hd rs \<in> set (flat ls)" "od_price (hd rs) = p"
      using p(1) by (force simp: flat_def list_all_iff)+
    then show ?thesis using p(2) by auto
  qed
  have "js_lt (dl_price x) (dl_price y)" if "x \<in> set (collect 10 (ob_bids b))" "y \<in> set (collect 10 (ob_asks b))" for x y
    using reach [OF that(1)] reach [OF that(2)] assms
    by (fastforce simp: book_ok_def side_ok_def uncrossed_def list_all_iff)
  moreover have "length (collect n ls) \<le> n" for n ls by (simp add: collect_levels)
  ultimately show ?thesis
    using assms by (auto simp: depth_ok_def depth_def prices book_ok_def side_ok_def list_all_iff
        intro: sorted_wrt_take)
qed

abbreviation depths_ok :: "exchange \<Rightarrow> bool" where
  "depths_ok x \<equiv> exchange_ok x \<and> subs.every (list_all (\<lambda>r. depth_ok (tl_depth r))) (x_telemetry x)"

lemma telemetry_depth [simp]: "tl_depth (telemetry seq ck m res events b) = depth 10 b"
  by (cases "qm_payload m") (simp_all add: telemetry_def)

lemma depths_step:
  assumes "valid_event e" and "depths_ok x"
  shows "\<exists>x'. xexec e x = Some x' \<and> depths_ok x'"
proof -
  obtain x' where x': "xexec e x = Some x'" "exchange_ok x'" using xexec_ok assms by blast
  have "subs.every (list_all (\<lambda>r. depth_ok (tl_depth r))) (x_telemetry x')"
  proof (cases e)
    case (Engine ck)
    have "depth_ok (depth 10 (x_book x'))" using x'(2) depth_depth_ok by (simp add: exchange_ok_def)
    then show ?thesis
      using x'(1) assms(2) Engine subs.every_pub [of "list_all (\<lambda>r. depth_ok (tl_depth r))" "x_telemetry x"
          "list_all (\<lambda>r. depth_ok (tl_depth r))"]
      by (auto simp: engine_step_def process_def Let_def split: list.splits)
  next
    case Telemetry_subscribe
    have "subs.every (list_all (\<lambda>r. depth_ok (tl_depth r))) (subscribe (x_telemetry x))"
      by (rule subs.every_sub) (use assms(2) in simp_all)
    then show ?thesis using x'(1) Telemetry_subscribe by auto
  qed (use x'(1) assms(2) in \<open>auto simp: SubmitOrder_rpc_def CancelOrder_rpc_def enqueue_def Let_def
      intro: subs.every_unsub subs.every_flush\<close>)
  then show ?thesis using x' by blast
qed

interpretation depths: total_service xexec valid_event depths_ok
  by unfold_locales (rule depths_step)


definition wire_book_ok :: "wire_book \<Rightarrow> bool" where
  "wire_book_ok k \<longleftrightarrow> sorted_wrt (\<lambda>p q. js_gt p q) (map fst (bk_bids k)) \<and>
     sorted_wrt js_lt (map fst (bk_asks k)) \<and>
     length (bk_bids k) \<le> 10 \<and> length (bk_asks k) \<le> 10 \<and>
     list_all (\<lambda>b. list_all (\<lambda>a. js_lt (fst b) (fst a)) (bk_asks k)) (bk_bids k)"

lemma decoded_levels:
  assumes "list_all2 decodes_level ds rs"
  shows "map fst (map lv rs) = map dl_price ds" and "length (map lv rs) = length ds"
  using assms by (induction rule: list_all2_induct) (auto simp: lv_def decodes_level_def carries_num)

lemma decoded_book_ok:
  assumes "depth_ok d" and "decodes_book d k"
  shows "wire_book_ok (normalize_book k)"
proof -
  note bids = decoded_levels [of "dp_bids d" "nullish (rk_bids k) []"]
    and asks = decoded_levels [of "dp_asks d" "nullish (rk_asks k) []"]
  have b: "map fst (bk_bids (normalize_book k)) = map dl_price (dp_bids d)"
    "length (bk_bids (normalize_book k)) = length (dp_bids d)"
    and a: "map fst (bk_asks (normalize_book k)) = map dl_price (dp_asks d)"
    "length (bk_asks (normalize_book k)) = length (dp_asks d)"
    using assms(2) bids asks by (simp_all add: normalize_book_def decodes_book_def)
  have all: "list_all (\<lambda>x. list_all (\<lambda>y. R (f x) (g y)) ys) xs = list_all (\<lambda>p. list_all (R p) (map g ys)) (map f xs)"
    for R and f :: "'a \<Rightarrow> 'c" and g :: "'b \<Rightarrow> 'd" and xs ys
    by (auto simp: list_all_iff)
  show ?thesis
    using assms(1) unfolding wire_book_ok_def depth_ok_def all a b by simp
qed

lemma subseq_set: "subseq xs ys \<Longrightarrow> set xs \<subseteq> set ys"
  by (auto elim!: list_emb_set)

lemma books_in_messages:
  "books_in es = List.map_filter (\<lambda>raw. map_option normalize_book (field_option (r_book raw))) (messages es)"
  by (induction es rule: books_in.induct) (auto simp: List.map_filter_simps split: field.split)

text \<open>
  C19. The books the browsers see are the engine's: every snapshot the gateway passes on, whatever
  it withholds or merges, lists at most ten levels a side, bids strictly falling, asks strictly
  rising, and no bid at or above an ask, in every interleaving of the exchange and for as long as
  clients send quantities that are not negative and prices that are numbers.
\<close>

theorem wire_books_in_order:
  assumes "\<And>b. decodes b (dec b)" and "list_all valid_event es" and "server_run es = Some x"
    and "received (x_telemetry x) i = Some rs" and "messages ns = map (dec \<circ> toProto) rs"
  shows "list_all wire_book_ok (books_out new_normalizer ns @ pending_list (run norm_step new_normalizer ns))"
proof -
  have "depths_ok new_exchange"
    using new_exchange_ok by (simp add: subs.every_def received_def new_exchange_def new_publisher_def)
  then have "depths_ok x" by (rule depths.prun_total_inv [OF assms(2) _ assms(3)])
  then have rs: "list_all (\<lambda>r. depth_ok (tl_depth r)) rs"
    using assms(4) by (simp add: subs.every_def)
  have "wire_book_ok k" if k: "k \<in> set (books_in ns)" for k
  proof -
    obtain r b where r: "r \<in> set rs" "r_book (dec (toProto r)) = Val b" "k = normalize_book b"
      using k unfolding books_in_messages assms(5)
      by (auto simp: List.map_filter_def split: option.splits elim!: field_option.elims)
    have "decodes_book (tl_depth r) b"
      using assms(1) [of "toProto r"] r(2) by (simp add: decodes_def)
    moreover have "depth_ok (tl_depth r)" using rs r(1) by (simp add: list_all_iff)
    ultimately show ?thesis unfolding r(3) by (intro decoded_book_ok)
  qed
  moreover have "subseq (books_out new_normalizer ns @ pending_list (run norm_step new_normalizer ns)) (books_in ns)"
    using books_delivered [of new_normalizer ns] by (simp add: new_normalizer_def pending_list_def)
  then have "set (books_out new_normalizer ns @ pending_list (run norm_step new_normalizer ns)) \<subseteq> set (books_in ns)"
    by (rule subseq_set)
  ultimately show ?thesis unfolding list_all_iff by blast
qed


section \<open>A loader and a session\<close>

text \<open>The hypotheses can hold: a loader that leaves out every default, on a short session.\<close>

definition ex_field :: "'a \<Rightarrow> 'a \<Rightarrow> 'a field" where
  "ex_field d v = (if v = d then Undefined else Val v)"

definition ex_name :: "string option \<Rightarrow> string field" where
  "ex_name nm = (case nm of None \<Rightarrow> Undefined | Some s \<Rightarrow> Val s)"

definition ex_option :: "'a option \<Rightarrow> 'a field" where
  "ex_option v = (case v of None \<Rightarrow> Undefined | Some a \<Rightarrow> Val a)"

definition ex_num :: "int \<Rightarrow> jsnum field" where
  "ex_num q = ex_field (Fin 0) (dbl q)"

definition ex_load_order :: "proto_order \<Rightarrow> raw_order" where
  "ex_load_order p = \<lparr>ro_op = ex_name (op_name (po_op p)), ro_order_id = ex_field [] (po_order_id p),
     ro_node_id = ex_field [] (po_node_id p), ro_side = ex_name (side_name (po_side p)),
     ro_type = ex_name (type_name (po_type p)), ro_price = ex_field (Fin 0) (po_price p),
     ro_quantity = ex_num (po_quantity p), ro_status = ex_name (status_name (po_status p)),
     ro_filled_quantity = ex_num (po_filled_quantity p), ro_avg_price = ex_field (Fin 0) (po_avg_price p),
     ro_rejection_reason = ex_field [] (po_rejection_reason p),
     ro_cancel_successful = ex_field False (po_cancel_successful p)\<rparr>"

definition ex_load_trace :: "proto_trace \<Rightarrow> raw_trace" where
  "ex_load_trace p = \<lparr>rt_seq = ex_num (int (pt_seq p)), rt_rpc_in = ex_num (pt_rpc_in p),
     rt_enqueue = ex_num (pt_enqueue p), rt_dequeue = ex_num (pt_dequeue p),
     rt_match_done = ex_num (pt_match_done p), rt_promise_set = ex_num (pt_promise_set p),
     rt_publish = ex_num (pt_publish p)\<rparr>"

definition ex_load_trade :: "trade \<Rightarrow> raw_trade" where
  "ex_load_trade t = \<lparr>rd_trade_id = ex_field [] (td_id t), rd_price = ex_field (Fin 0) (td_price t),
     rd_quantity = ex_num (td_qty t), rd_aggressor_side = ex_name (side_name (td_side t)),
     rd_aggressor_order_id = ex_field [] (td_aggressor t), rd_resting_order_id = ex_field [] (td_resting t)\<rparr>"

definition ex_load_level :: "depth_level \<Rightarrow> raw_level" where
  "ex_load_level l = \<lparr>rl_price = ex_field (Fin 0) (dl_price l), rl_quantity = ex_num (dl_qty l),
     rl_orders = ex_num (int (dl_orders l))\<rparr>"

definition ex_load :: "proto_batch \<Rightarrow> raw_batch" where
  "ex_load b = \<lparr>r_timestamp = ex_num (px_timestamp b), r_order = Val (ex_load_order (px_order b)),
     r_trace = Val (ex_load_trace (px_trace b)), r_trades = ex_field [] (map ex_load_trade (px_trades b)),
     r_top_of_book = (case px_top b of None \<Rightarrow> Undefined | Some p \<Rightarrow> Val
       \<lparr>rb_bid_price = ex_option (tp_bid p), rb_bid_quantity = ex_option (map_option dbl (tp_bidQty p)),
        rb_ask_price = ex_option (tp_ask p), rb_ask_quantity = ex_option (map_option dbl (tp_askQty p))\<rparr>),
     r_book = Val \<lparr>rk_bids = ex_field [] (map ex_load_level (dp_bids (px_book b))),
       rk_asks = ex_field [] (map ex_load_level (dp_asks (px_book b)))\<rparr>\<rparr>"

lemma ex_loads:
  "carries d v (ex_field d v)"
  "carries (Fin 0) (dbl q) (ex_num q)"
  "nullish (ex_field [] xs) [] = xs"
  "carries_option w (ex_option w)"
  by (simp_all add: carries_def ex_field_def ex_num_def carries_option_def ex_option_def split: option.split)

lemma ex_load_decodes: "decodes b (ex_load b)"
proof -
  have sides: "carries_name [''BID'', ''ASK''] (side_name sd) (ex_name (side_name sd))" for sd
    by (cases sd) (simp_all add: carries_name_def ex_name_def)
  moreover have "carries_name [''MARKET'', ''LIMIT''] (type_name ty) (ex_name (type_name ty))" for ty
    by (cases ty) (simp_all add: carries_name_def ex_name_def)
  moreover have "carries_name [''FILLED'', ''PARTIAL'', ''QUEUED'', ''REJECTED''] (status_name st)
      (ex_name (status_name st))" for st
    by (cases st) (simp_all add: carries_name_def ex_name_def)
  moreover have "carries_name [''OP_SUBMIT'', ''OP_CANCEL''] (op_name p) (ex_name (op_name p))" for p
    by (cases p) (simp_all add: carries_name_def ex_name_def)
  ultimately have names: "carries_name [''BID'', ''ASK''] (side_name sd) (ex_name (side_name sd)) \<and>
      carries_name [''MARKET'', ''LIMIT''] (type_name ty) (ex_name (type_name ty)) \<and>
      carries_name [''FILLED'', ''PARTIAL'', ''QUEUED'', ''REJECTED''] (status_name st) (ex_name (status_name st)) \<and>
      carries_name [''OP_SUBMIT'', ''OP_CANCEL''] (op_name p) (ex_name (op_name p))" for sd ty st p by blast
  have trade: "decodes_trade t (ex_load_trade t)" for t
    by (simp add: decodes_trade_def ex_load_trade_def ex_loads names)
  have level: "decodes_level l (ex_load_level l)" for l
    by (simp add: decodes_level_def ex_load_level_def ex_loads)
  show ?thesis
    unfolding decodes_def ex_load_def decodes_order_def ex_load_order_def decodes_trace_def ex_load_trace_def
      decodes_book_def decodes_top_def
    by (simp add: ex_loads trade level names list_all2_map2 list_all2_same list_all_iff split: option.split)
qed

text \<open>Capacity is no issue below 50000 submissions.\<close>

fun is_submit :: "xevent \<Rightarrow> bool" where
  "is_submit (Submit_call rq t t') = True"
| "is_submit _ = False"

lemma step_nextOrder:
  "xexec e x = Some x' \<Longrightarrow> x_nextOrder x' = (if is_submit e then Suc (x_nextOrder x) else x_nextOrder x)"
  by (cases e) (auto simp: SubmitOrder_rpc_def CancelOrder_rpc_def enqueue_def engine_step_def process_def Let_def
      split: list.splits)

lemma run_nextOrder:
  "prun xexec es x = Some x' \<Longrightarrow> x_nextOrder x' = x_nextOrder x + length (filter is_submit es)"
proof (induction es arbitrary: x)
  case (Cons e es)
  obtain y where "xexec e x = Some y" "prun xexec es y = Some x'"
    using Cons.prems by (auto split: option.splits)
  then show ?case using Cons.IH step_nextOrder by auto
qed simp

lemma few_submissions:
  assumes "list_all valid_event es" and "length (filter is_submit es) \<le> 50000"
  shows "within_capacity es"
  unfolding within_capacity_def
proof (intro allI impI)
  fix k x
  assume x: "server_run (take k es) = Some x"
  have "list_all valid_event (take k es)" using assms(1) by (auto simp: list_all_iff dest: in_set_takeD)
  then have ok: "exchange_ok x" using server_inv x by blast
  have "length (resting_orders (x_book x)) = card (set (map od_id (resting_orders (x_book x))))"
    using ok distinct_card [of "map od_id (resting_orders (x_book x))"] by (simp add: exchange_ok_def book_ok_def)
  also have "\<dots> \<le> card (order_id ` {..<x_nextOrder x})"
    using ok by (intro card_mono) (auto simp: exchange_ok_def ids_in_use_def)
  also have "\<dots> \<le> x_nextOrder x" using card_image_le [of "{..<x_nextOrder x}" order_id] by simp
  also have "\<dots> = length (filter is_submit (take k es))"
    using run_nextOrder [OF x] by (simp add: new_exchange_def)
  also have "\<dots> \<le> length (filter is_submit es)"
    by (metis append_take_drop_id filter_append le_add1 length_append)
  finally show "length (resting_orders (x_book x)) \<le> 50000" using assms(2) by simp
qed

definition ex_trading_day :: "xevent list" where
  "ex_trading_day = [ex_submit ''mm-1'' 2 2 101 3, ex_submit ''mom-1'' 1 2 101 2,
     Enqueue 0, Enqueue 0, Engine ex_clock, Engine ex_clock]"

lemma ex_trading_day_valid:
  "list_all valid_stream_event ex_trading_day" "within_capacity (Telemetry_subscribe # ex_trading_day)"
  by (simp_all add: ex_trading_day_def ex_submit_def few_submissions)

lemma ex_trading_day_state:
  obtains x rs where "server_run (Telemetry_subscribe # ex_trading_day) = Some x"
    and "received (x_telemetry x) 1 = Some rs" and "length rs = 2"
    and "resting_orders (x_book x) = [\<lparr>od_side = ASK, od_type = LIMIT, od_price = js_int 101, od_qty = 1,
      od_id = ''ORD-0'', od_node = ''mm-1''\<rparr>]"
proof -
  have c: "char_of (48 :: nat) = CHR ''0''" "char_of (49 :: nat) = CHR ''1''" by code_simp+
  let ?P = "\<lambda>x. resting_orders (x_book x) = [\<lparr>od_side = ASK, od_type = LIMIT, od_price = js_int 101, od_qty = 1,
      od_id = ''ORD-0'', od_node = ''mm-1''\<rparr>] \<and>
    (case received (x_telemetry x) 1 of None \<Rightarrow> False | Some rs \<Rightarrow> length rs = 2)"
  have "case server_run (Telemetry_subscribe # ex_trading_day) of None \<Rightarrow> False | Some x \<Rightarrow> ?P x"
    by (simp add: ex_trading_day_def ex_submit_def ex_clock_def new_exchange_def new_publisher_def empty_book_def
        SubmitOrder_rpc_def CancelOrder_rpc_def enqueue_def engine_step_def process_def Let_def subscribe_def
        hasSubscribers_def publish_def write_next_def received_def submit_order_def submitBid_def submitAsk_def
        settle_order_def protoToOrder_def protoToOrderSide_def protoToOrderType_def matching_start_def
        restBid_def restAsk_def reduceQuantity_def fill_order_def order_id_def digits.simps digit_def
        telemetry_def js_lt_def cancel_def submit_result_def submit_status_def resting_orders_def c)
  then show thesis using that by (auto split: option.splits)
qed

lemma map_of_single:
  assumes "map_of m = map_of [(k, v)]" and "omap_wf m"
  shows "m = [(k, v)]"
proof -
  have d: "distinct (map fst m)" using assms(2) by (simp add: omap_wf_def)
  then have s: "set m = {(k, v)}"
    using map_of_inject_set [of m "[(k, v)]"] assms(1) by simp
  have "distinct m" using d by (simp add: distinct_map)
  then have "length m = 1" using s distinct_card [of m] by simp
  then show ?thesis using s by (cases m) auto
qed

theorem table_mirrors_book_witness:
  "\<exists>rs. n_resting (run norm_step new_normalizer (map (\<lambda>r. Message (ex_load (toProto r)) (Fin 0)) rs)) =
    [(''ORD-0'', \<lparr>rs_node = ''mm-1'', rs_remaining = js_int 1\<rparr>)]"
proof (rule ex_trading_day_state)
  fix x rs
  assume x: "server_run (Telemetry_subscribe # ex_trading_day) = Some x" "received (x_telemetry x) 1 = Some rs"
    "resting_orders (x_book x) = [\<lparr>od_side = ASK, od_type = LIMIT, od_price = js_int 101, od_qty = 1,
      od_id = ''ORD-0'', od_node = ''mm-1''\<rparr>]"
  let ?ns = "map (\<lambda>r. Message (ex_load (toProto r)) (Fin 0)) rs"
  have ns: "messages ?ns = map (ex_load \<circ> toProto) rs" by (induction rs) simp_all
  have "map_of (n_resting (run norm_step new_normalizer ?ns)) =
      map_of [(''ORD-0'', \<lparr>rs_node = ''mm-1'', rs_remaining = js_int 1\<rparr>)]"
    using table_mirrors_book [OF ex_load_decodes ex_trading_day_valid(1) x(1) ex_trading_day_valid(2) x(2) ns]
    by (simp add: x(3))
  moreover have "omap_wf (n_resting (run norm_step new_normalizer ?ns))"
    using norm.run_inv [OF new_normalizer_inv, of ?ns] by (simp add: resting_ok_def)
  ultimately have "n_resting (run norm_step new_normalizer ?ns) =
      [(''ORD-0'', \<lparr>rs_node = ''mm-1'', rs_remaining = js_int 1\<rparr>)]"
    by (intro map_of_single)
  then show ?thesis by blast
qed

theorem wire_books_in_order_witness:
  "\<exists>rs. length rs = 2 \<and>
    (let ns = map (\<lambda>r. Message (ex_load (toProto r)) (Fin 0)) rs in
     list_all wire_book_ok (books_out new_normalizer ns @ pending_list (run norm_step new_normalizer ns)))"
proof (rule ex_trading_day_state)
  fix x rs
  assume x: "server_run (Telemetry_subscribe # ex_trading_day) = Some x" "received (x_telemetry x) 1 = Some rs"
    "length rs = 2"
  have ns: "messages (map (\<lambda>r. Message (ex_load (toProto r)) (Fin 0)) rs) = map (ex_load \<circ> toProto) rs"
    by (induction rs) simp_all
  have "list_all valid_event (Telemetry_subscribe # ex_trading_day)"
    by (simp add: ex_trading_day_def ex_submit_def)
  then show ?thesis
    using wire_books_in_order [OF ex_load_decodes _ x(1,2) ns] x(3) unfolding Let_def by blast
qed

end
