(* ===== verification/Provenance.thy ===== *)
theory Provenance
  imports Exchange_Stream
begin

text \<open>
  Where the figures of the browsers come from: everything the gateway sends about an order or a
  cancellation is traced back, through the loader, the telemetry message, the engine and its
  queue, to the call of the client that caused it. Two facts rest on that: the trades name the
  nodes that submitted the resting orders (\<open>trades_name_their_owners\<close>), and the relative times of a
  batch are the exact distances of the clock readings of that call and of the engine
  (\<open>traces_are_timelines\<close>).

  Both are invariants of the messages on their way: a predicate for those in their handlers,
  one for those in the queue, one for the telemetry records (\<open>flow_step\<close>).
\<close>

section \<open>Messages on their way\<close>

definition submit_message :: "submit_request \<Rightarrow> nat \<Rightarrow> nat \<Rightarrow> int \<Rightarrow> int \<Rightarrow> queue_message" where
  "submit_message rq k c t t' =
     \<lparr>qm_payload = SubmitPayload ((protoToOrder rq)\<lparr>od_id := order_id k, od_node := rq_node rq\<rparr>),
      qm_promise = Some c, qm_tRpcIn = t, qm_tEnqueue = t'\<rparr>"

definition cancel_message :: "string \<Rightarrow> string \<Rightarrow> nat \<Rightarrow> int \<Rightarrow> int \<Rightarrow> queue_message" where
  "cancel_message i node c t t' =
     \<lparr>qm_payload = CancelPayload i node, qm_promise = Some c, qm_tRpcIn = t, qm_tEnqueue = t'\<rparr>"

definition flows :: "(queue_message \<Rightarrow> bool) \<Rightarrow> (queue_message \<Rightarrow> bool) \<Rightarrow> (telemetry_record \<Rightarrow> bool) \<Rightarrow>
  exchange \<Rightarrow> bool" where
  "flows W Q R x \<longleftrightarrow> list_all W (x_calls x) \<and> list_all Q (x_queue x) \<and>
     subs.every (list_all R) (x_telemetry x)"

lemma new_exchange_flows: "flows W Q R new_exchange"
  by (simp add: flows_def new_exchange_def new_publisher_def subs.every_def received_def)

lemma flows_mono:
  assumes "flows W Q R x" and "\<And>m. W m \<Longrightarrow> W' m" and "\<And>m. Q m \<Longrightarrow> Q' m" and "\<And>r. R r \<Longrightarrow> R' r"
  shows "flows W' Q' R' x"
  using assms by (auto simp: flows_def subs.every_def list_all_iff)

text \<open>One step of the server, the predicates growing with it.\<close>

lemma flow_step:
  assumes "flows W Q R x" and "xexec e x = Some x'"
    and mono: "\<And>m. W m \<Longrightarrow> W' m" "\<And>m. Q m \<Longrightarrow> Q' m" "\<And>r. R r \<Longrightarrow> R' r"
    and sub: "\<And>rq t t'. e = Submit_call rq t t' \<Longrightarrow> W' (submit_message rq (x_nextOrder x) (x_nextCall x) t t')"
    and can: "\<And>i node t t'. e = Cancel_call i node t t' \<Longrightarrow> W' (cancel_message i node (x_nextCall x) t t')"
    and enq: "\<And>k. e = Enqueue k \<Longrightarrow> k < length (x_calls x) \<Longrightarrow> W (x_calls x ! k) \<Longrightarrow> Q' (x_calls x ! k)"
    and serve: "\<And>ck m seq res events b. e = Engine ck \<Longrightarrow> m \<in> set (x_queue x) \<Longrightarrow> Q m \<Longrightarrow>
      R' (telemetry seq ck m res events b)"
  shows "flows W' Q' R' x'"
proof -
  have f: "flows W' Q' R' x" by (rule flows_mono [OF assms(1) mono])
  then have every: "subs.every (list_all R') (x_telemetry x)" by (simp add: flows_def)
  show ?thesis
  proof (cases e)
    case (Submit_call rq t t')
    then show ?thesis using f sub [OF Submit_call] assms(2)
      by (auto simp: flows_def SubmitOrder_rpc_def submit_message_def Let_def)
  next
    case (Cancel_call i node t t')
    then show ?thesis using f can [OF Cancel_call] assms(2)
      by (auto simp: flows_def CancelOrder_rpc_def cancel_message_def)
  next
    case (Enqueue k)
    then have x': "x' = enqueue k x" using assms(2) by simp
    show ?thesis
    proof (cases "k < length (x_calls x)")
      case True
      then have "Q' (x_calls x ! k)" using assms(1) enq [OF Enqueue] by (simp add: flows_def list_all_length)
      then show ?thesis using f True unfolding x'
        by (auto simp: flows_def enqueue_def list_all_iff dest: in_set_takeD in_set_dropD)
    qed (use f x' in \<open>simp add: enqueue_def\<close>)
  next
    case (Engine ck)
    show ?thesis
    proof (cases "x_queue x")
      case Nil
      then show ?thesis using f assms(2) Engine by (simp add: engine_step_def)
    next
      case (Cons m ms)
      obtain res events b' n' where run: "run_payload (qm_payload m) (ck_millis ck) (x_book x) (x_nextTrade x)
          = Some (res, events, b', n')"
        using assms(2) Engine Cons by (auto simp: engine_step_def process_def)
      have "R' (telemetry seq ck m res events b')" for seq
        using serve [OF Engine] assms(1) Cons by (simp add: flows_def)
      then have "subs.every (list_all R') (publish [telemetry seq ck m res events b'] (x_telemetry x))" for seq
        by (intro subs.every_pub [OF every]) simp
      then show ?thesis using f assms(2) Engine Cons run
        by (auto simp: engine_step_def process_def Let_def flows_def)
    qed
  next
    case Telemetry_subscribe
    then show ?thesis using f subs.every_sub [OF every] assms(2) by (auto simp: flows_def)
  qed (use f assms(2) in \<open>auto simp: flows_def intro: subs.every_unsub subs.every_flush\<close>)
qed

section \<open>Back to the calls\<close>

text \<open>The submissions of a run in the order in which their handlers took an order id.\<close>

fun submits :: "xevent list \<Rightarrow> (submit_request \<times> int \<times> int) list" where
  "submits [] = []"
| "submits (Submit_call rq t t' # es) = (rq, t, t') # submits es"
| "submits (_ # es) = submits es"

lemma submits_append: "submits (es @ es') = submits es @ submits es'"
  by (induction es rule: submits.induct) simp_all

lemma submits_length: "length (submits es) = length (filter is_submit es)"
  by (induction es rule: submits.induct) simp_all

definition from_call :: "xevent list \<Rightarrow> queue_message \<Rightarrow> bool" where
  "from_call es m \<longleftrightarrow>
     (\<exists>k c rq t t'. k < length (submits es) \<and> submits es ! k = (rq, t, t') \<and> m = submit_message rq k c t t') \<or>
     (\<exists>i node c t t'. Cancel_call i node t t' \<in> set es \<and> m = cancel_message i node c t t')"

definition from_engine :: "xevent list \<Rightarrow> telemetry_record \<Rightarrow> bool" where
  "from_engine es r \<longleftrightarrow>
     (\<exists>seq ck m res events b. from_call es m \<and> Engine ck \<in> set es \<and> r = telemetry seq ck m res events b)"

lemma from_call_later: "from_call es m \<Longrightarrow> from_call (es @ es') m"
  by (auto simp: from_call_def submits_append nth_append) blast+

lemma from_engine_later: "from_engine es r \<Longrightarrow> from_engine (es @ es') r"
  using from_call_later unfolding from_engine_def by (metis UnCI set_append)

lemma run_from_calls:
  assumes "server_run es = Some x"
  shows "flows (from_call es) (from_call es) (from_engine es) x"
  using assms
proof (induction es arbitrary: x rule: rev_induct)
  case Nil
  then show ?case using new_exchange_flows by simp
next
  case (snoc e es)
  obtain y where y: "server_run es = Some y" "xexec e y = Some x"
    using prun_snoc [OF snoc.prems] by blast
  have n: "x_nextOrder y = length (submits es)"
    using run_nextOrder [OF y(1)] by (simp add: submits_length new_exchange_def)
  show ?case
  proof (rule flow_step [OF snoc.IH [OF y(1)] y(2)])
    fix rq t t' assume "e = Submit_call rq t t'"
    then have "submits (es @ [e]) ! x_nextOrder y = (rq, t, t')" "x_nextOrder y < length (submits (es @ [e]))"
      by (simp_all add: submits_append n)
    then show "from_call (es @ [e]) (submit_message rq (x_nextOrder y) (x_nextCall y) t t')"
      unfolding from_call_def by blast
  next
    fix i node t t' assume "e = Cancel_call i node t t'"
    then show "from_call (es @ [e]) (cancel_message i node (x_nextCall y) t t')"
      unfolding from_call_def by fastforce
  next
    fix ck m seq res events b assume "e = Engine ck" "from_call es m"
    then show "from_engine (es @ [e]) (telemetry seq ck m res events b)"
      using from_call_later [of es m "[e]"] unfolding from_engine_def by fastforce
  qed (simp_all add: from_call_later from_engine_later)
qed

lemma received_from_engine:
  assumes "server_run es = Some x" and "received (x_telemetry x) i = Some rs" and "r \<in> set rs"
  shows "from_engine es r"
  using run_from_calls [OF assms(1)] assms(2,3) by (auto simp: flows_def subs.every_def list_all_iff)

text \<open>What a record says about its call.\<close>

lemma record_fields:
  "tl_orderId (telemetry seq ck (submit_message rq k c t t') res events b) = order_id k"
  "tl_nodeId (telemetry seq ck (submit_message rq k c t t') res events b) = rq_node rq"
  "tl_isCancel (telemetry seq ck (submit_message rq k c t t') res events b) = False"
  "tl_orderId (telemetry seq ck (cancel_message i node c t t') res events b) = i"
  "tl_nodeId (telemetry seq ck (cancel_message i node c t t') res events b) = node"
  "tl_isCancel (telemetry seq ck (cancel_message i node c t t') res events b) = True"
  by (simp_all add: telemetry_def submit_message_def cancel_message_def)

lemma record_times:
  "tl_tRpcIn (telemetry seq ck m res events b) = qm_tRpcIn m"
  "tl_tEnqueue (telemetry seq ck m res events b) = qm_tEnqueue m"
  "tl_tDequeue (telemetry seq ck m res events b) = ck_dequeue ck"
  "tl_tMatchDone (telemetry seq ck m res events b) = ck_matchDone ck"
  "tl_tPromiseSet (telemetry seq ck m res events b) = ck_promiseSet ck"
  "tl_tPublish (telemetry seq ck m res events b) = ck_publish ck"
  by (cases "qm_payload m"; simp add: telemetry_def)+

lemma message_times:
  "qm_tRpcIn (submit_message rq k c t t') = t" "qm_tEnqueue (submit_message rq k c t t') = t'"
  "qm_tRpcIn (cancel_message i node c t t') = t" "qm_tEnqueue (cancel_message i node c t t') = t'"
  by (simp_all add: submit_message_def cancel_message_def)

section \<open>Trades\<close>

text \<open>
  C10. Every trade the browsers are told names the node that submitted the resting order. The
  resting order of the trade is the order that some submission of a client created, and the node
  in the trade is the node of that very request. The gateway subscribed before the first
  submission and stays subscribed; quantities are below 2^53 and at most 50000 orders rest.
\<close>

theorem trades_name_their_owners:
  assumes "\<And>b. decodes b (dec b)" and "list_all valid_stream_event es"
    and "server_run (Telemetry_subscribe # es) = Some x" and "within_capacity (Telemetry_subscribe # es)"
    and "received (x_telemetry x) 1 = Some rs" and "messages ns = map (dec \<circ> toProto) rs"
    and "w \<in> set (concat (map b_trades (norm_batches new_normalizer ns)))"
  shows "\<exists>k < length (submits es). t_resting w = order_id k \<and>
    t_restingNode w = rq_node (fst (submits es ! k))"
proof -
  have "(t_resting w, t_restingNode w) \<in> set (map (\<lambda>r. (tl_orderId r, tl_nodeId r)) (filter (\<lambda>r. \<not> tl_isCancel r) rs))"
    using recorded_owners [OF assms(1-6)] assms(7) by auto
  then obtain r where r: "r \<in> set rs" "\<not> tl_isCancel r" "t_resting w = tl_orderId r" "t_restingNode w = tl_nodeId r"
    by auto
  from received_from_engine [OF assms(3,5) r(1)] obtain k c rq t t' seq ck res events b where
    "k < length (submits es)" "submits es ! k = (rq, t, t')"
    "r = telemetry seq ck (submit_message rq k c t t') res events b"
    using r(2) by (auto simp: from_engine_def from_call_def record_fields)
  with r show ?thesis by (intro exI [of _ k]) (simp add: record_fields)
qed

section \<open>Times\<close>

text \<open>
  The clock of the server is one monotonic clock. A handler reads it when the call comes in and
  again before it enqueues its message; \<open>n\<close> is the latest reading of a message that has been
  enqueued. The engine reads it after it has dequeued a message, hence not before \<open>n\<close>, and then
  once after each stage. Readings are nanoseconds since the host was started, so they are below
  2^53 for a hundred days.
\<close>

fun clocked :: "int \<Rightarrow> exchange \<Rightarrow> xevent list \<Rightarrow> bool" where
  "clocked n x [] = True"
| "clocked n x (e # es) =
     (case xexec e x of
        None \<Rightarrow> True
      | Some x' \<Rightarrow>
          (case e of
             Submit_call rq t t' \<Rightarrow> 0 \<le> t \<and> t \<le> t' \<and> clocked n x' es
           | Cancel_call i node t t' \<Rightarrow> 0 \<le> t \<and> t \<le> t' \<and> clocked n x' es
           | Enqueue k \<Rightarrow>
               clocked (if k < length (x_calls x) then max n (qm_tEnqueue (x_calls x ! k)) else n) x' es
           | Engine ck \<Rightarrow> n \<le> ck_dequeue ck \<and> ck_dequeue ck \<le> ck_matchDone ck \<and>
               ck_matchDone ck \<le> ck_promiseSet ck \<and> ck_promiseSet ck \<le> ck_publish ck \<and>
               ck_publish ck < 2 ^ 53 \<and> clocked n x' es
           | _ \<Rightarrow> clocked n x' es))"

definition stamped :: "queue_message \<Rightarrow> bool" where
  "stamped m \<longleftrightarrow> 0 \<le> qm_tRpcIn m \<and> qm_tRpcIn m \<le> qm_tEnqueue m"

definition timed :: "telemetry_record \<Rightarrow> bool" where
  "timed r \<longleftrightarrow> 0 \<le> tl_tRpcIn r \<and> tl_tPublish r < 2 ^ 53 \<and>
     sorted [tl_tRpcIn r, tl_tEnqueue r, tl_tDequeue r, tl_tMatchDone r, tl_tPromiseSet r, tl_tPublish r]"

lemma clocked_step:
  assumes "flows stamped (\<lambda>m. stamped m \<and> qm_tEnqueue m \<le> n) timed x" and "clocked n x (e # es)"
    and "xexec e x = Some x'"
  obtains n' where "flows stamped (\<lambda>m. stamped m \<and> qm_tEnqueue m \<le> n') timed x'" and "clocked n' x' es"
proof -
  define n' where "n' = (case e of
      Enqueue k \<Rightarrow> (if k < length (x_calls x) then max n (qm_tEnqueue (x_calls x ! k)) else n) | _ \<Rightarrow> n)"
  have "n \<le> n'" by (simp add: n'_def split: xevent.split)
  have "flows stamped (\<lambda>m. stamped m \<and> qm_tEnqueue m \<le> n') timed x'"
  proof (rule flow_step [OF assms(1,3)])
    show "\<And>m. stamped m \<and> qm_tEnqueue m \<le> n \<Longrightarrow> stamped m \<and> qm_tEnqueue m \<le> n'" using \<open>n \<le> n'\<close> by auto
    show "stamped (submit_message rq (x_nextOrder x) (x_nextCall x) t t')" if "e = Submit_call rq t t'" for rq t t'
      using that assms(2) by (simp add: stamped_def message_times)
    show "stamped (cancel_message i node (x_nextCall x) t t')" if "e = Cancel_call i node t t'" for i node t t'
      using that assms(2) by (simp add: stamped_def message_times)
    show "stamped (x_calls x ! k) \<and> qm_tEnqueue (x_calls x ! k) \<le> n'"
      if "e = Enqueue k" "k < length (x_calls x)" "stamped (x_calls x ! k)" for k
      using that by (simp add: n'_def)
    show "timed (telemetry seq ck m res events b)"
      if "e = Engine ck" "m \<in> set (x_queue x)" "stamped m \<and> qm_tEnqueue m \<le> n" for ck m seq res events b
      using that assms(2,3) by (auto simp: timed_def stamped_def record_times)
  qed simp_all
  moreover have "clocked n' x' es" using assms(2,3) by (cases e) (simp_all add: n'_def)
  ultimately show thesis by (rule that)
qed

lemma run_timed:
  assumes "flows stamped (\<lambda>m. stamped m \<and> qm_tEnqueue m \<le> n) timed x" and "clocked n x es"
    and "prun xexec es x = Some x'"
  shows "subs.every (list_all timed) (x_telemetry x')"
  using assms
proof (induction es arbitrary: n x)
  case Nil
  then show ?case by (simp add: flows_def)
next
  case (Cons e es)
  obtain y where y: "xexec e x = Some y" "prun xexec es y = Some x'"
    using Cons.prems(3) by (auto split: option.splits)
  obtain n' where "flows stamped (\<lambda>m. stamped m \<and> qm_tEnqueue m \<le> n') timed y" "clocked n' y es"
    by (rule clocked_step [OF Cons.prems(1,2) y(1)])
  then show ?case using Cons.IH y(2) by blast
qed

text \<open>The times of a wire batch: exact differences, for the readings of a monotonic clock.\<close>

lemma dbl_exact: "0 \<le> t \<Longrightarrow> t < 2 ^ 53 \<Longrightarrow> dbl t = js_int t"
  using fl_int [of t] by (simp add: dbl_def safe_int_def)

lemma rel_exact:
  assumes "carries (Fin 0) (dbl s) f" and "0 \<le> t" and "t \<le> s" and "s < 2 ^ 53"
  shows "rel (js_int t) f = js_int (s - t)"
proof -
  have "num f = js_int s" using carries_num [OF assms(1)] dbl_exact [of s] assms(2-4) by simp
  then show ?thesis
    using js_sub_int [of s t] assms(2-4) by (simp add: rel_def safe_int_def js_max_def max_def)
qed

definition relative_trace :: "telemetry_record \<Rightarrow> wire_trace" where
  "relative_trace r =
     \<lparr>tr_enqueue = js_int (tl_tEnqueue r - tl_tRpcIn r), tr_dequeue = js_int (tl_tDequeue r - tl_tRpcIn r),
      tr_matchDone = js_int (tl_tMatchDone r - tl_tRpcIn r),
      tr_promiseSet = js_int (tl_tPromiseSet r - tl_tRpcIn r), tr_publish = js_int (tl_tPublish r - tl_tRpcIn r)\<rparr>"

lemma toProto_trace:
  "px_trace (toProto r) = \<lparr>pt_seq = tl_seq r, pt_rpc_in = tl_tRpcIn r, pt_enqueue = tl_tEnqueue r,
     pt_dequeue = tl_tDequeue r, pt_match_done = tl_tMatchDone r,
     pt_promise_set = tl_tPromiseSet r, pt_publish = tl_tPublish r\<rparr>"
proof -
  have "px_trace (fold add_event es b) = px_trace b" for es b
  proof (induction es arbitrary: b)
    case (Cons e es)
    then show ?case by (cases e) simp_all
  qed simp
  then show ?thesis by (simp add: toProto_def)
qed

lemma decoded_times:
  assumes "decodes (toProto r) raw" and "timed r"
  shows "b_trace (fst (normalize n raw now)) = relative_trace r"
    and "b_op (fst (normalize n raw now)) = (if tl_isCancel r then Cancel else Submit)"
    and "o_id (b_order (fst (normalize n raw now))) = tl_orderId r"
    and "o_node (b_order (fst (normalize n raw now))) = tl_nodeId r"
proof -
  obtain ord tr where raw: "r_order raw = Val ord" "r_trace raw = Val tr"
    and ord: "decodes_order (px_order (toProto r)) ord" and tr: "decodes_trace (px_trace (toProto r)) tr"
    using assms(1) by (auto simp: decodes_def split: field.splits)
  have t: "carries (Fin 0) (dbl (tl_tRpcIn r)) (rt_rpc_in tr)"
    "carries (Fin 0) (dbl (tl_tEnqueue r)) (rt_enqueue tr)" "carries (Fin 0) (dbl (tl_tDequeue r)) (rt_dequeue tr)"
    "carries (Fin 0) (dbl (tl_tMatchDone r)) (rt_match_done tr)"
    "carries (Fin 0) (dbl (tl_tPromiseSet r)) (rt_promise_set tr)"
    "carries (Fin 0) (dbl (tl_tPublish r)) (rt_publish tr)"
    using tr by (simp_all add: decodes_trace_def toProto_trace)
  have s: "0 \<le> tl_tRpcIn r" "tl_tRpcIn r \<le> tl_tEnqueue r" "tl_tEnqueue r \<le> tl_tDequeue r"
    "tl_tDequeue r \<le> tl_tMatchDone r" "tl_tMatchDone r \<le> tl_tPromiseSet r"
    "tl_tPromiseSet r \<le> tl_tPublish r" "tl_tPublish r < 2 ^ 53"
    using assms(2) by (simp_all add: timed_def)
  have "num (rt_rpc_in tr) = js_int (tl_tRpcIn r)"
    using carries_num [OF t(1)] dbl_exact [of "tl_tRpcIn r"] s by simp
  then show "b_trace (fst (normalize n raw now)) = relative_trace r"
    using rel_exact [OF t(2) s(1)] rel_exact [OF t(3) s(1)] rel_exact [OF t(4) s(1)] rel_exact [OF t(5) s(1)]
      rel_exact [OF t(6) s(1)] s
    by (simp add: normalize_def Let_def split_beta raw relative_trace_def)
  have "(ro_op ord = Val ''OP_CANCEL'') = tl_isCancel r"
    using ord by (cases "tl_isCancel r") (auto simp: decodes_order_def carries_name_def)
  moreover have "nullish (ro_order_id ord) [] = tl_orderId r" "nullish (ro_node_id ord) [] = tl_nodeId r"
    using ord carries_nullish by (force simp: decodes_order_def)+
  ultimately show "b_op (fst (normalize n raw now)) = (if tl_isCancel r then Cancel else Submit)"
    "o_id (b_order (fst (normalize n raw now))) = tl_orderId r"
    "o_node (b_order (fst (normalize n raw now))) = tl_nodeId r"
    by (simp_all add: normalize_def Let_def split_beta raw)
qed

lemma batches_of_messages:
  assumes "messages ns = map (dec \<circ> toProto) rs" and "\<And>b. decodes b (dec b)" and "w \<in> set (norm_batches n ns)"
  obtains r m now where "r \<in> set rs" and "w = fst (normalize m (dec (toProto r)) now)"
  using assms(1,3)
proof (induction ns arbitrary: n rs thesis)
  case (Cons e ns)
  show ?case
  proof (cases e)
    case (Message raw now)
    then obtain r rs' where rs: "rs = r # rs'" "raw = dec (toProto r)" "messages ns = map (dec \<circ> toProto) rs'"
      using Cons.prems(2) by (auto simp: Cons_eq_map_conv)
    consider "w = fst (normalize n raw now)" | "w \<in> set (norm_batches (snd (normalize n raw now)) ns)"
      using Cons.prems(3) Message by auto
    then show ?thesis
    proof cases
      case 1
      then show ?thesis using Cons.prems(1) [of r n now] rs by simp
    next
      case 2
      then show ?thesis using Cons.IH [OF _ rs(3) 2] Cons.prems(1) rs(1) by (metis list.set_intros(2))
    qed
  next
    case Flush
    show ?thesis
    proof (rule Cons.IH)
      show "messages ns = map (dec \<circ> toProto) rs" using Cons.prems(2) Flush by simp
      show "w \<in> set (norm_batches (snd (flushBook n)) ns)" using Cons.prems(3) Flush by simp
    qed (rule Cons.prems(1))
  qed
qed simp

text \<open>The call a batch of the browser is about.\<close>

definition call_of_batch :: "xevent list \<Rightarrow> wire_batch \<Rightarrow> int \<Rightarrow> int \<Rightarrow> bool" where
  "call_of_batch es w t t' \<longleftrightarrow>
     (case b_op w of
        Submit \<Rightarrow> \<exists>k rq. k < length (submits es) \<and> submits es ! k = (rq, t, t') \<and>
          o_id (b_order w) = order_id k \<and> o_node (b_order w) = rq_node rq
      | Cancel \<Rightarrow> Cancel_call (o_id (b_order w)) (o_node (b_order w)) t t' \<in> set es)"

text \<open>
  C28. The trace of every batch is the exact timeline of the call it is about. On a server whose
  clock is monotonic, the batch names a call of a client, and its five relative times are the
  exact distances, in nanoseconds, from the reading at which the handler of that call came in to
  its reading before it enqueued the message and to the four readings of one step of the engine;
  they are not negative and in this order. The clock readings are below 2^53, and the hypothesis
  on them speaks of each thread by itself, except that a message is stamped before it is served.
\<close>

theorem traces_are_timelines:
  assumes "\<And>b. decodes b (dec b)" and "clocked 0 new_exchange es" and "server_run es = Some x"
    and "received (x_telemetry x) i = Some rs" and "messages ns = map (dec \<circ> toProto) rs"
    and "w \<in> set (norm_batches n ns)"
  shows "\<exists>t t' ck. call_of_batch es w t t' \<and> Engine ck \<in> set es \<and>
    b_trace w = \<lparr>tr_enqueue = js_int (t' - t), tr_dequeue = js_int (ck_dequeue ck - t),
      tr_matchDone = js_int (ck_matchDone ck - t), tr_promiseSet = js_int (ck_promiseSet ck - t),
      tr_publish = js_int (ck_publish ck - t)\<rparr> \<and>
    sorted [0, t' - t, ck_dequeue ck - t, ck_matchDone ck - t, ck_promiseSet ck - t, ck_publish ck - t]"
proof -
  obtain r m now where r: "r \<in> set rs" "w = fst (normalize m (dec (toProto r)) now)"
    by (rule batches_of_messages [OF assms(5,1,6)])
  have timed: "timed r"
    using run_timed [OF new_exchange_flows assms(2,3)] assms(4) r(1) by (auto simp: subs.every_def list_all_iff)
  note w = decoded_times [OF assms(1) timed, of m now, folded r(2)]
  obtain seq ck msg res events b where o: "from_call es msg" "Engine ck \<in> set es"
    "r = telemetry seq ck msg res events b"
    using received_from_engine [OF assms(3,4) r(1)] unfolding from_engine_def by blast
  have "call_of_batch es w (qm_tRpcIn msg) (qm_tEnqueue msg)"
    using o(1) unfolding from_call_def call_of_batch_def w(2-4) o(3)
    by (auto simp: record_fields message_times)
  moreover have "b_trace w = relative_trace r" by (rule w(1))
  ultimately show ?thesis
    using o(2) timed
    by (intro exI [of _ "qm_tRpcIn msg"] exI [of _ "qm_tEnqueue msg"] exI [of _ ck])
       (simp add: o(3) relative_trace_def record_times timed_def)
qed

section \<open>Examples\<close>

text \<open>The day of \<open>ex_trading_day\<close>: two submissions, one trade; the day runs on a monotonic clock.\<close>

lemma ex_trading_day_clocked: "clocked 0 new_exchange (Telemetry_subscribe # ex_trading_day)"
proof -
  have c: "char_of (48 :: nat) = CHR ''0''" "char_of (49 :: nat) = CHR ''1''" by code_simp+
  show ?thesis
    by (simp add: ex_trading_day_def ex_submit_def ex_clock_def new_exchange_def new_publisher_def empty_book_def
        SubmitOrder_rpc_def CancelOrder_rpc_def enqueue_def engine_step_def process_def Let_def subscribe_def
        hasSubscribers_def publish_def write_next_def received_def submit_order_def submitBid_def submitAsk_def
        settle_order_def protoToOrder_def protoToOrderSide_def protoToOrderType_def matching_start_def
        restBid_def restAsk_def reduceQuantity_def fill_order_def order_id_def digits.simps digit_def
        telemetry_def js_lt_def cancel_def submit_result_def submit_status_def c)
qed

lemma ex_trading_day_trades:
  assumes "server_run (Telemetry_subscribe # ex_trading_day) = Some x" and "received (x_telemetry x) 1 = Some rs"
  shows "map (\<lambda>r. length (trade_events (tl_events r))) rs = [0, 1]"
proof -
  have c: "char_of (48 :: nat) = CHR ''0''" "char_of (49 :: nat) = CHR ''1''" by code_simp+
  let ?P = "\<lambda>x. case received (x_telemetry x) 1 of None \<Rightarrow> False
    | Some rs \<Rightarrow> map (\<lambda>r. length (trade_events (tl_events r))) rs = [0, 1]"
  have "case server_run (Telemetry_subscribe # ex_trading_day) of None \<Rightarrow> False | Some x \<Rightarrow> ?P x"
    by (simp add: ex_trading_day_def ex_submit_def ex_clock_def new_exchange_def new_publisher_def empty_book_def
        SubmitOrder_rpc_def CancelOrder_rpc_def enqueue_def engine_step_def process_def Let_def subscribe_def
        hasSubscribers_def publish_def write_next_def received_def submit_order_def submitBid_def submitAsk_def
        settle_order_def protoToOrder_def protoToOrderSide_def protoToOrderType_def matching_start_def
        restBid_def restAsk_def reduceQuantity_def fill_order_def order_id_def digits.simps digit_def
        telemetry_def js_lt_def cancel_def submit_result_def submit_status_def c)
  then show ?thesis using assms by simp
qed

lemma ex_trading_day_submits:
  "submits ex_trading_day =
    [(\<lparr>rq_node = ''mm-1'', rq_side = 2, rq_type = 2, rq_price = js_int 101, rq_qty = 3\<rparr>, 0, 1),
     (\<lparr>rq_node = ''mom-1'', rq_side = 1, rq_type = 2, rq_price = js_int 101, rq_qty = 2\<rparr>, 0, 1)]"
  by (simp add: ex_trading_day_def ex_submit_def)

abbreviation ex_stream :: "telemetry_record list \<Rightarrow> norm_event list" where
  "ex_stream rs \<equiv> map (\<lambda>r. Message (ex_load (toProto r)) (Fin 0)) rs"

lemma ex_stream_messages: "messages (ex_stream rs) = map (ex_load \<circ> toProto) rs"
  by (induction rs) simp_all

lemma normalize_trades_length: "length (fst (normalize_trades agg m ts)) = length ts"
  by (induction ts arbitrary: m) (simp_all add: norm_simps split_beta Let_def)

lemma wire_trades_length: "length (wire_trades raws m) = sum_list (map (\<lambda>raw. length (trades_of raw)) raws)"
  by (induction raws arbitrary: m) (simp_all add: normalize_trades_length)

lemma order_ids: "order_id 0 = ''ORD-0''" "order_id (Suc 0) = ''ORD-1''"
proof -
  have c: "char_of (48 :: nat) = CHR ''0''" "char_of (49 :: nat) = CHR ''1''" by code_simp+
  show "order_id 0 = ''ORD-0''" "order_id (Suc 0) = ''ORD-1''"
    by (simp_all add: order_id_def digits.simps digit_def c)
qed

theorem trades_name_their_owners_witness:
  "\<exists>rs w. length rs = 2 \<and> w \<in> set (concat (map b_trades (norm_batches new_normalizer (ex_stream rs)))) \<and>
    (t_resting w, t_restingNode w) \<in> {(''ORD-0'', ''mm-1''), (''ORD-1'', ''mom-1'')}"
proof (rule ex_trading_day_state)
  fix x rs
  assume x: "server_run (Telemetry_subscribe # ex_trading_day) = Some x" "received (x_telemetry x) 1 = Some rs"
    "length rs = 2"
  have "length (trades_of (ex_load (toProto r))) = length (trade_events (tl_events r))" for r
    by (simp add: trades_of_def ex_load_def ex_loads)
  moreover have "concat (map b_trades (norm_batches new_normalizer (ex_stream rs))) =
      wire_trades (map (ex_load \<circ> toProto) rs) []"
    using norm_run_tables(2) [of new_normalizer "ex_stream rs"] by (simp add: ex_stream_messages new_normalizer_def)
  ultimately have "length (concat (map b_trades (norm_batches new_normalizer (ex_stream rs)))) = 1"
    using ex_trading_day_trades [OF x(1,2)] by (simp only: wire_trades_length map_map comp_def) simp
  then obtain w where w: "w \<in> set (concat (map b_trades (norm_batches new_normalizer (ex_stream rs))))"
    by (metis One_nat_def length_pos_if_in_set list.set_sel(1) list.size(3) zero_neq_one)
  obtain k where "k < 2" "t_resting w = order_id k" "t_restingNode w = rq_node (fst (submits ex_trading_day ! k))"
    using trades_name_their_owners [OF ex_load_decodes ex_trading_day_valid(1) x(1) ex_trading_day_valid(2) x(2)
        ex_stream_messages w]
    by (auto simp: ex_trading_day_submits)
  then have "(t_resting w, t_restingNode w) \<in> {(''ORD-0'', ''mm-1''), (''ORD-1'', ''mom-1'')}"
    by (auto simp: ex_trading_day_submits order_ids less_2_cases_iff)
  then show ?thesis using x(3) w by blast
qed

theorem traces_are_timelines_witness:
  "\<exists>rs w. length rs = 2 \<and> w \<in> set (norm_batches new_normalizer (ex_stream rs)) \<and>
    b_trace w = \<lparr>tr_enqueue = js_int 1, tr_dequeue = js_int 2, tr_matchDone = js_int 3,
      tr_promiseSet = js_int 4, tr_publish = js_int 6\<rparr>"
proof (rule ex_trading_day_state)
  fix x rs
  assume x: "server_run (Telemetry_subscribe # ex_trading_day) = Some x" "received (x_telemetry x) 1 = Some rs"
    "length rs = 2"
  obtain r rs' where "rs = r # rs'" using x(3) by (cases rs) auto
  then have "norm_batches new_normalizer (ex_stream rs) \<noteq> []" by simp
  then obtain w where w: "w \<in> set (norm_batches new_normalizer (ex_stream rs))" using hd_in_set by blast
  obtain t t' ck where t: "call_of_batch (Telemetry_subscribe # ex_trading_day) w t t'"
    "Engine ck \<in> set (Telemetry_subscribe # ex_trading_day)"
    "b_trace w = \<lparr>tr_enqueue = js_int (t' - t), tr_dequeue = js_int (ck_dequeue ck - t),
      tr_matchDone = js_int (ck_matchDone ck - t), tr_promiseSet = js_int (ck_promiseSet ck - t),
      tr_publish = js_int (ck_publish ck - t)\<rparr>"
    using traces_are_timelines [OF ex_load_decodes ex_trading_day_clocked x(1,2) ex_stream_messages w] by blast
  have "ck = ex_clock" using t(2) by (auto simp: ex_trading_day_def ex_submit_def)
  moreover have "t = 0 \<and> t' = 1"
    using t(1) by (auto simp: call_of_batch_def ex_trading_day_submits less_2_cases_iff nth_Cons'
        split: wop.splits if_splits) (auto simp: ex_trading_day_def ex_submit_def)
  ultimately have "b_trace w = \<lparr>tr_enqueue = js_int 1, tr_dequeue = js_int 2, tr_matchDone = js_int 3,
      tr_promiseSet = js_int 4, tr_publish = js_int 6\<rparr>"
    using t(3) by (simp add: ex_clock_def)
  then show ?thesis using x(3) w by blast
qed

end
