(* ===== verification/Spec2Isabelle.thy ===== *)
theory Spec2Isabelle
  imports System Freshness Scenery Launch Exchange_Stream Provenance
begin

text \<open>
  Market Sandbox: a matching engine in C++ behind gRPC services, and a web page that shows what it
  does and trades against it. This development models the engine with its services, the gateway
  between the exchange and the browsers, and the page.

  \<^bold>\<open>The parts and how they interact.\<close> The exchange (\<^verbatim>\<open>exchange/OrderProcessor\<close>) takes orders over gRPC, matches
  them on one engine thread and streams a telemetry record of every message it served to its
  subscribers. The gateway (\<^verbatim>\<open>web/gateway/server.ts\<close>) turns each record into a wire batch
  (\<^verbatim>\<open>gateway/normalize.ts\<close>), keeps the last 600 of them, sends them to every browser and into a
  recording. In the browser the feed (\<^verbatim>\<open>web/src/feed.ts\<close>) buffers the frames, runs the playback
  clock over them and keeps the requests to the gateway; the views (\<^verbatim>\<open>derive.ts\<close> and
  \<^verbatim>\<open>components\<close>) compute what is shown at the playback position. An order takes the
  opposite way: ladder, ticket, feed, gateway, exchange, and its answer comes back.

  \<^bold>\<open>Which theory models what.\<close>
  \<^item> \<open>Js_Number\<close>, \<open>Rounding\<close>, \<open>Format\<close>: the numbers of the languages, binary64 with rounding to
    nearest even over exact rationals (\<open>fl\<close>), infinities and \<^verbatim>\<open>NaN\<close>; error bounds for
    computations; \<^verbatim>\<open>toFixed\<close>, \<^verbatim>\<open>Number\<close> on text and the display formats. The two zeros are one value.
  \<^item> \<open>Prelude\<close>: optional fields, the memos of React (\<open>useMemo\<close>), the insertion ordered \<^verbatim>\<open>Map\<close> as a locale (\<open>js_map\<close>) with its
    implementation by association lists, and the locales for what is proved by running events:
    \<open>machine\<close> (a step function with an invariant), \<open>service\<close> (steps that may fail) and
    \<open>total_service\<close> (steps that never do under a condition on the events).
  \<^item> \<open>Order_Book\<close>: \<^verbatim>\<open>engine/orderBook.{h,cpp}\<close> of the exchange; submission, cancellation and depth on
    the record \<open>book\<close>, two lists of price levels and the index of resting orders.
  \<^item> \<open>Price_Time\<close>, \<open>Book_Laws\<close>: the reference for matching, one list of orders per side
    (\<open>take_fills\<close>, locale \<open>price_order\<close> for the two directions), and what a book promises.
  \<^item> \<open>Exchange\<close>: \<^verbatim>\<open>service/exchangeService.cpp\<close>, \<^verbatim>\<open>engine/matchingEngine.{h,cpp}\<close> and the two publishers
    as the record \<open>exchange\<close>; \<open>xexec\<close> is one event (a call arriving, its message entering the
    queue, the engine serving a message, a subscriber coming, reading or going). The promise of a
    publisher is the locale \<open>publishing\<close>.
  \<^item> \<open>Exchange_Stream\<close>: the protocol message of a record (\<open>toProto\<close>) and the exchange and the
    normalizer run together.
  \<^item> \<open>Provenance\<close>: what the gateway sends, traced back through loader, telemetry, engine and queue
    to the call of the client that caused it.
  \<^item> \<open>Wire\<close>, \<open>Normalizer\<close>: the message types and the class \<^verbatim>\<open>Normalizer\<close>. Its operations are
    \<open>normalize\<close> and \<open>flushBook\<close> on the record \<open>normalizer\<close>.
  \<^item> \<open>Frames\<close>, \<open>Derive\<close>, \<open>Accounts\<close>: the frame type and the functions of \<^verbatim>\<open>derive.ts\<close>
    (\<open>bookAt\<close>, \<open>recentTrades\<close>, \<open>priceSeries\<close>, \<open>percentile\<close>, \<open>computeStats\<close>).
  \<^item> \<open>Feed\<close>, \<open>Feed_Safety\<close>: the class \<^verbatim>\<open>Feed\<close> as the record \<open>feed\<close>, one definition per method
    and per callback; \<open>feed_exec\<close> is one event (a method call, a socket callback, a timer, the end
    of the fetch). What leaves the feed is a log of effects.
  \<^item> \<open>Gateway\<close>: \<^verbatim>\<open>server.ts\<close> as the record \<open>gateway\<close>, one definition per function and callback;
    \<open>gw_exec\<close> is one event, \<open>gw_reach\<close> the reachable states, and the bots' roster of
    \<^verbatim>\<open>roster.ts\<close>.
  \<^item> \<open>Launch\<close>: the command line, the child processes of the demo mode and the shutdown of
    \<^verbatim>\<open>server.ts\<close>, and the address the page connects to.
  \<^item> \<open>Ticket\<close>, \<open>Workspace\<close>, \<open>Scope\<close> with \<open>Canvas\<close> and \<open>Scenery\<close>, \<open>Inspector\<close>, \<open>Panels\<close>: the
    components \<^verbatim>\<open>Terminal.tsx\<close>, \<^verbatim>\<open>Workspace.tsx\<close>, \<^verbatim>\<open>Scope.tsx\<close> (its state, the packets it paints and
    what it paints around them), \<^verbatim>\<open>Inspector.tsx\<close>, and \<^verbatim>\<open>Transport.tsx\<close>, \<^verbatim>\<open>Performance.tsx\<close>,
    \<^verbatim>\<open>Bots.tsx\<close>. A component is the values it computes from the feed and its state, and the
    handlers that change the state.
  \<^item> \<open>Page\<close>, \<open>Freshness\<close>: \<^verbatim>\<open>App.tsx\<close>, the page composed of its panels, and \<^verbatim>\<open>useFeed\<close>, which renders it
    again when the feed announces a change. The five memos of the page are the record \<open>page_memo\<close>;
    a render takes it and returns the one for the next render.
  \<^item> \<open>System\<close> and this theory: browser and gateway together, and an order on its way through both
    into the exchange.

  \<^bold>\<open>What the lemmas show.\<close> Of the book: submissions implement price-time priority, lose no
  quantity and respect limits, a cancellation removes exactly its order, the depth is what
  rests. Of the exchange: in every interleaving it runs into no undefined behaviour, its book is never
  crossed, every call is answered once, and telemetry has no gaps. Of the normalizer: fills are
  attributed to the owner of the resting order, its table is bounded, and thinning book snapshots never
  loses the latest one. Behind the exchange its table is exactly what rests in the book, every trade
  names the node whose call submitted the resting order, and the times of a batch are the exact
  distances of the clock readings of its call and of the engine. Of the views: each backward scan agrees with a plain
  definition, and the accounts are double entry bookkeeping that balances exactly (locale
  \<open>ledger\<close> in \<open>Accounts\<close>, interpreted for positions, volume and cash) in spite of floating point.
  Of the feed: in every reachable state each request is settled exactly once or waits with its
  timeout armed, no event makes it throw, frames are delivered once and in order, the buffer
  is bounded, bisection agrees with a linear scan, and playback does not run backwards, but for a
  recording that ended and starts again. Of the
  gateway: always one subscription or one armed retry, browsers know the status, the ring and
  the recording hold the normalized stream. Of the page: it always renders, the panels that depend
  on the position show one moment, and what changes is announced, except the roster when a fetch
  ends late and the state of the socket; the performance panel is computed from the whole buffer,
  every 20 versions; the ladder, the chart, the animation and the figures show what they claim within their
  frames. Of the whole: a browser mirrors the exchange, and an order of the visitor reaches the
  exchange as entered, also from a click on the ladder, and its answer comes back.
  Some theorems state what the code does where that is probably not intended: a negative
  quantity, which nothing on the way rejects, rests without a trade in the book of the exchange and crosses it; a
  failing fetch takes a live page back to the recording; a message \<^verbatim>\<open>null\<close> ends the gateway; a row of
  the inspector never lights; a dot ends its way opaque instead of faded out; an
  infinite quantity is submitted as zero.

  \<^bold>\<open>The environment.\<close> The wall clocks, the interleaving of the threads of the exchange, the order of
  callbacks, the text typed by the user, the files that exist, the identity of objects (\<^verbatim>\<open>===\<close> on batches)
  and \<^verbatim>\<open>Math.hypot\<close> (\<open>hypot_ok\<close>) are arguments of the definitions or choices of the
  event sequence. A remote call, a fetch and a timer are an effect when they start and an event
  when they end; \<^verbatim>\<open>await\<close> splits a handler in two definitions. Sockets deliver in order. What the gRPC
  loader makes of a message of the exchange is a parameter \<open>dec\<close>, of which \<open>decodes\<close> is
  assumed: every field carries its value, a default may be left out, and an absent sub-message is
  absent. A browser receives the JSON objects its gateway sends; on any other
  text its handler throws before it changes anything, and no event stands for that. The clock of the exchange is monotonic where times are compared (\<open>clocked\<close>), with
  readings below \<open>2 ^ 53\<close> nanoseconds. The C++ side has binary64 for prices, a list for what is in the lock-free queue, and the
  messages served in one step each.

  \<^bold>\<open>Bounds.\<close> Nothing runs on fuel. Every loop is structural but the bisection, a partial function
  that is proved to return for up to \<open>2 ^ 30\<close> frames, where \<^verbatim>\<open>>>\<close> is still exact.
  Statements about sums ask for totals below \<open>2 ^ 53\<close>, where integers are exact; drawing asks for
  values below about \<open>2 ^ 37\<close>, far above any price or time stamp difference, so that a
  rounding error stays below \<open>2 ^ -12\<close>. Statements about the book ask for quantities that are not negative and
  prices that are not \<^verbatim>\<open>NaN\<close>; those about exchange and normalizer together also for quantities below \<open>2 ^ 53\<close> and at
  most 50000 resting orders, the capacity of the normalizer's table (\<open>within_capacity\<close>; at most
  50000 submissions are enough, \<open>few_submissions\<close>).

  \<^bold>\<open>Not modelled.\<close> The bots, which are other clients of the same services; the algorithm of the
  lock-free queue, whose atomics and memory order need a memory model (it is taken for the first-in-first-out list it
  implements); the Cap'n Proto feed; signed overflow of quantities and the
  wrap-around of 64-bit counters (sums of quantities are unbounded integers here, and
  \<open>submission_conserves_quantity\<close> bounds what matching computes); prose, fonts, markup and styles of the page, which have no state; the log output of
  the gateway; the generated gRPC stubs and React itself, whose effects are taken to run once after
  the state change they depend on.
\<close>

section \<open>The path of a frame\<close>

text \<open>
  C2. A browser shows what the exchange did. Take any reachable gateway whose exchange is up, let
  a browser connect, and let anything happen while its socket stays open: after the browser has
  handled what it was sent, it is live, its buffer is the end of the gateway's recent batches
  followed by everything the telemetry brought since (all of it, up to 22000 frames), and it
  reports the state of the exchange and of the recorder as they are.
\<close>

theorem browser_mirrors_exchange:
  assumes "gw_reach g" and "g_exchangeUp g" and "ws = g_nextSock g"
    and "gw_run es (on_connection g) = Some g'" and "stays ws es" and "f_source f \<noteq> Live"
  shows "let f' = receive pn (sent ws g') f;
             tot = map FBatch (g_history g) @ recording_frames (gw_stream (g_norm g) es)
         in f_source f' = Live \<and> suffix (f_frames f') tot \<and>
            (if length tot \<le> MAX_FRAMES + TRIM then f_frames f' = tot else MAX_FRAMES \<le> length (f_frames f')) \<and>
            f_exchangeUp f' = g_exchangeUp g' \<and> f_recording f' = map_option rec_file (g_recorder g')"
proof -
  let ?c = "on_connection g"
  have sil: "silent g" "length (g_history g) \<le> HISTORY_MAX" "informed g"
    using gw_reach_silent gw_reach_inv assms(1) by auto
  have j: "joined ws ?c"
    using exec_clients_ok [of GConnection g ?c] sil(3) assms(3)
    by (simp add: joined_def informed_def) (simp add: on_connection_def Let_def)
  have s0: "sent ws ?c = [hello, status g, SHistory (g_history g)]"
    using sil(1) assms(3) by (simp add: on_connection_def Let_def sent_send silent_def)
  have n0: "g_norm ?c = g_norm g" using core_simps(11) [of g] by (simp add: core_def)
  obtain ms where ms: "sent ws g' = sent ws ?c @ ms" "filter is_frame ms = gw_stream (g_norm g) es"
    "\<forall>m \<in> set ms. is_frame m \<or> is_note m"
    using run_sent [OF assms(4) j assms(5)] n0 by auto
  have "mirrors (map FBatch (g_history g)) (receive pn (sent ws ?c) f)"
    unfolding s0 status_def using assms(2,6) sil(2)
    by (simp only: if_True) (rule join_mirrors, simp_all add: HISTORY_MAX_def MAX_FRAMES_def)
  from receive_mirrors [OF this ms(3), of pn]
  have m: "mirrors (map FBatch (g_history g) @ recording_frames (gw_stream (g_norm g) es)) (receive pn (sent ws g') f)"
    using ms(1,2) recording_frames_filter [of ms] by simp
  have "informed g'" using known.prun_inv [OF assms(4)] exec_informed [of GConnection g ?c] sil(3) by simp
  then have "last_status ws g' = Some (status g')"
    using run_joined [OF assms(4) j assms(5)] by (simp add: informed_def joined_def)
  then have "f_exchangeUp (receive pn (sent ws g') f) = g_exchangeUp g' \<and>
      f_recording (receive pn (sent ws g') f) = map_option rec_file (g_recorder g')"
    using receive_told [of "sent ws g'" "map_option rec_file (g_recorder g')"] by (simp add: last_status_def status_def)
  with m show ?thesis by (simp add: mirrors_def Let_def)
qed


theorem browser_mirrors_exchange_witness:
  "\<exists>g'. gw_run [GData 0 (ex_raw 1) (Fin 100), GEnded 0] (on_connection (on_metadata 0 (gw_start None))) = Some g' \<and>
     f_source (receive (\<lambda>_. Fin 0) (sent 0 g') new_feed) = Live \<and>
     map fr_at (f_frames (receive (\<lambda>_. Fin 0) (sent 0 g') new_feed)) = [Fin 1]"
proof -
  let ?es = "[GData 0 (ex_raw 1) (Fin 100), GEnded 0]" and ?g = "on_metadata 0 (gw_start None)"
  have g: "g_exchangeUp ?g" "0 = g_nextSock ?g" "g_history ?g = []" "stays 0 ?es"
    by (code_simp, code_simp, code_simp, simp add: stays_def)
  have "gw_reach ?g"
  proof (rule gw_reach.step [OF gw_reach.start, of "GMetadata 0" None])
    show "enabled (GMetadata 0) (gw_start None)" by code_simp
  qed simp
  moreover obtain g' where g': "gw_run ?es (on_connection ?g) = Some g'" by simp
  ultimately have "let f' = receive (\<lambda>_. Fin 0) (sent 0 g') new_feed;
             tot = map FBatch (g_history ?g) @ recording_frames (gw_stream (g_norm ?g) ?es)
         in f_source f' = Live \<and> suffix (f_frames f') tot \<and>
            (if length tot \<le> MAX_FRAMES + TRIM then f_frames f' = tot else MAX_FRAMES \<le> length (f_frames f')) \<and>
            f_exchangeUp f' = g_exchangeUp g' \<and> f_recording f' = map_option rec_file (g_recorder g')"
    by (rule browser_mirrors_exchange [OF _ g(1,2) _ g(4)]) (simp add: new_feed_def)
  with g' g(3) show ?thesis by (simp add: Let_def MAX_FRAMES_def norm_simps ex_raw_simps wire_simps)
qed

section \<open>The path of an order\<close>

text \<open>
  C5. An order of the user goes to the exchange as it was entered and its answer comes back to
  the request that waits for it. When trading is possible the feed sends one message under a
  fresh number; the gateway turns it into one submission for the node \<^verbatim>\<open>human\<close> with the side, type
  and price given and the quantity rounded down; the exchange's answer is sent to that browser
  under that number, and settles exactly that promise with the exchange's order id, fill and
  average price.
\<close>

theorem order_reaches_exchange_and_back:
  assumes "canTrade f" and "ws \<in> set (g_open g)"
  shows "let r = Suc (f_reqId f); m = MOrder sd ty (Fin p) (Fin q) r;
             f1 = placeOrder sd ty (Fin p) (Fin q) f;
             i = g_nextCall g
         in f_out f1 = f_out f @ [SendMsg m] \<and> omap_get (f_pending f1) r \<noteq> None \<and>
            (\<exists>g1. on_message ws fn (InMsg (over_socket m)) g = Some g1 \<and>
               g_log g1 = g_log g @ [GUnary i (SubmitOrder ''human'' (if sd = Bid then ''BID'' else ''ASK'')
                  (if ty = Market then ''MARKET'' else ''LIMIT'') (Fin p) (Fin (of_int \<lfloor>q\<rfloor>)))] \<and>
               sent ws (order_done i (Inr rep) g1) = sent ws g1 @ [SResult r (order_answer rep)]) \<and>
            f_out (onMessage pn (SResult r (order_answer rep)) f1) = f_out f1 @ [Settle r (order_answer rep)] \<and>
            omap_get (f_pending (onMessage pn (SResult r (order_answer rep)) f1)) r = None"
proof -
  define f1 where "f1 = placeOrder sd ty (Fin p) (Fin q) f"
  let ?r = "Suc (f_reqId f)"
  have f1: "f_out f1 = f_out f @ [SendMsg (MOrder sd ty (Fin p) (Fin q) ?r)]"
    "omap_get (f_pending f1) ?r = Some (f_nextTimer f)"
    using assms(1) by (simp_all add: f1_def placeOrder_def request_def set_timer_def emit_def omap.get_put)
  have ret: "f_out (onMessage pn (SResult ?r res) f1) = f_out f1 @ [Settle ?r res]"
    "omap_get (f_pending (onMessage pn (SResult ?r res) f1)) ?r = None" for res
    using f1(2) by (simp_all add: onMessage_def settle_drop drop_request_def omap.get_del)
  define g1 where "g1 = the (on_message ws fn (InMsg (over_socket (MOrder sd ty (Fin p) (Fin q) ?r))) g)"
  have om: "on_message ws fn (InMsg (over_socket (MOrder sd ty (Fin p) (Fin q) ?r))) g = Some g1"
    "g_log g1 = g_log g @ [GUnary (g_nextCall g) (SubmitOrder ''human'' (if sd = Bid then ''BID'' else ''ASK'')
                  (if ty = Market then ''MARKET'' else ''LIMIT'') (Fin p) (Fin (of_int \<lfloor>q\<rfloor>)))]"
    "omap_get (g_calls g1) (g_nextCall g) = Some (COrder ws ?r)" "g_open g1 = g_open g"
    by (simp_all add: g1_def on_message_def blank_def grpcUnary_def gw_placeOrder_def gw_emit_def omap.get_put
        or_zero_def js_eq_def)
  then have "sent ws (order_done (g_nextCall g) (Inr rep) g1) = sent ws g1 @ [SResult ?r (order_answer rep)]"
    using assms(2) by (simp add: order_done_def sent_send)
  with f1 ret om show ?thesis by (simp add: Let_def flip: f1_def)
qed


theorem order_reaches_exchange_and_back_witness:
  "\<exists>g1. on_message 0 (Inr []) (InMsg (over_socket (MOrder Bid Limit (Fin 100) (Fin 5) 1))) ex_gateway = Some g1 \<and>
     last (g_log g1) = GUnary 0 (SubmitOrder ''human'' ''BID'' ''LIMIT'' (Fin 100) (Fin 5))"
proof -
  let ?f = "new_feed\<lparr>f_source := Live, f_exchangeUp := True, f_ws := Some 0, f_openSocks := [0]\<rparr>"
  have "canTrade ?f" "0 \<in> set (g_open ex_gateway)" "f_reqId ?f = 0" "g_nextCall ex_gateway = 0" by code_simp+
  then show ?thesis
    using order_reaches_exchange_and_back [of ?f 0 ex_gateway Bid Limit 100 5 "Inr []"
        "\<lparr>sr_order_status = Val ''QUEUED'', sr_order_id = Val ''7'', sr_quantity = Undefined,
          sr_avg_price = Undefined, sr_rejection_reason = Undefined\<rparr>" "\<lambda>_. Fin 0"]
    by (auto simp: Let_def)
qed

section \<open>From a click to the exchange\<close>

lemma ticket_at_gateway:
  "\<exists>g1. on_message ws fn (InMsg (over_socket (MOrder sd ty p q r))) g = Some g1 \<and>
     g_log g1 = g_log g @ [GUnary (g_nextCall g) (SubmitOrder ''human'' (if sd = Bid then ''BID'' else ''ASK'')
       (if ty = Market then ''MARKET'' else ''LIMIT'') (json_num p) (js_floor (json_num q)))]"
  by (cases p; cases q) (simp_all add: on_message_def blank_def grpcUnary_def gw_placeOrder_def gw_emit_def or_zero_def js_eq_def)

text \<open>
  C6. A click on the ladder trades at that level. For every level whose price is a positive whole
  number of cents, clicking its row and sending the ticket makes the gateway submit one limit
  order of the visitor, on the opposite side, at exactly the level's price and for the quantity
  in the ticket: the price survives printing, parsing and the two messages.
\<close>

theorem ladder_click_reaches_exchange:
  assumes "canTrade f" and "\<not> tk_busy t" and "0 < k" and "k < 2 ^ 50"
    and "tk_q t = js_int n" and "0 < n"
  shows "let price = fl (of_nat k / 100);
             a1 = onPick now (pf_side (lr_pick (lad_row_of orders mx sd (price, lvq, lvn))))
                    (pf_price (lr_pick (lad_row_of orders mx sd (price, lvq, lvn)))) a;
             f1 = snd (submit (apply_prefill (map_option fst (ap_prefill a1)) t) f)
         in \<exists>m g1. f_out f1 = f_out f @ [SendMsg m] \<and> on_message ws fn (InMsg (over_socket m)) g = Some g1 \<and>
              g_log g1 = g_log g @ [GUnary (g_nextCall g) (SubmitOrder ''human'' (if sd = Bid then ''ASK'' else ''BID'')
                ''LIMIT'' price (js_int n))]"
proof -
  let ?price = "fl (of_nat k / 100)" and ?opp = "if sd = Bid then Ask else Bid"
  have "js_gt (tk_q t) (Fin 0)" using assms(5,6) by (simp add: js_lt_def)
  from picked_level_is_sent [OF assms(1-4) this, of ?opp]
  have m: "f_out (snd (submit (apply_prefill (Some \<lparr>pf_side = ?opp, pf_price = ?price\<rparr>) t) f)) =
      f_out f @ [SendMsg (MOrder ?opp Limit ?price (js_int n) (Suc (f_reqId f)))]"
    using assms(5) by (simp add: Let_def)
  have "(of_nat k :: rat) < 2 ^ 50" using assms(4) by (metis of_nat_less_iff of_nat_numeral of_nat_power)
  then have "0 \<le> (of_nat k / 100 :: rat)" "of_nat k / 100 < (2 ^ 44 :: rat)" by simp_all
  then obtain x where x: "?price = Fin x" by (rule fl_near)
  obtain g1 where "on_message ws fn (InMsg (over_socket (MOrder ?opp Limit ?price (js_int n) (Suc (f_reqId f))))) g = Some g1"
    "g_log g1 = g_log g @ [GUnary (g_nextCall g) (SubmitOrder ''human'' (if ?opp = Bid then ''BID'' else ''ASK'')
       ''LIMIT'' (json_num ?price) (js_floor (json_num (js_int n))))]"
    using ticket_at_gateway [of ws fn ?opp Limit ?price "js_int n" "Suc (f_reqId f)" g] by auto
  then show ?thesis using m x by (auto simp: Let_def onPick_def lad_row_of_def)
qed

theorem ladder_click_reaches_exchange_witness:
  "\<exists>m g1. f_out (snd (submit (apply_prefill (Some \<lparr>pf_side = Ask, pf_price = fl (10005 / 100)\<rparr>) new_ticket) ex_trading)) =
       [SendMsg m] \<and> on_message 0 (Inr []) (InMsg (over_socket m)) ex_gateway = Some g1 \<and>
     last (g_log g1) = GUnary 0 (SubmitOrder ''human'' ''ASK'' ''LIMIT'' (fl (10005 / 100)) (Fin 5))"
proof -
  have "tk_q new_ticket = js_int 5" by (simp add: tk_q_def new_ticket_def five)
  moreover have "\<not> tk_busy new_ticket" "f_out ex_trading = []" "g_nextCall ex_gateway = 0" by code_simp+
  ultimately show ?thesis
    using ladder_click_reaches_exchange [OF ex_trading_can, of new_ticket 10005 5 "Fin 0" "[]" "Fin 10" Bid "Fin 10"
        "Fin 1" new_app 0 "Inr []" ex_gateway]
    by (auto simp: Let_def onPick_def lad_row_of_def)
qed

text \<open>
  C36. A quantity that overflows passes the ticket and arrives as zero. Text such as
  \<^verbatim>\<open>Infinity\<close> or \<^verbatim>\<open>1e999\<close> reads as an infinite quantity, which the ticket takes for valid and sends;
  JSON has no infinity and writes \<^verbatim>\<open>null\<close>, and the gateway submits an order for the
  quantity 0 to the exchange.
\<close>

theorem infinite_quantity_becomes_zero:
  assumes "canTrade f" and "\<not> tk_busy t" and "to_number (tk_qty t) = PosInf" and "tk_type t = Market \<or> js_gt (tk_p t) (Fin 0)"
  shows "\<exists>m g1. f_out (snd (submit t f)) = f_out f @ [SendMsg m] \<and>
    on_message ws fn (InMsg (over_socket m)) g = Some g1 \<and>
    (\<exists>p. g_log g1 = g_log g @ [GUnary (g_nextCall g) (SubmitOrder ''human'' (if tk_side t = Bid then ''BID'' else ''ASK'')
       (if tk_type t = Market then ''MARKET'' else ''LIMIT'') p (Fin 0))])"
proof -
  have q: "tk_q t = PosInf" using assms(3) by (simp add: tk_q_def)
  then have "tk_valid t" using assms(4) by (auto simp: tk_valid_def js_lt_def)
  from submit_sends [OF assms(1) this assms(2)] show ?thesis
    using ticket_at_gateway [of ws fn "tk_side t" "tk_type t" _ PosInf] unfolding q by fastforce
qed

theorem infinite_quantity_becomes_zero_witness:
  "\<exists>m g1 p. f_out (snd (submit (new_ticket\<lparr>tk_type := Market, tk_qty := ''Infinity''\<rparr>) ex_trading)) = [SendMsg m] \<and>
     on_message 0 (Inr []) (InMsg (over_socket m)) ex_gateway = Some g1 \<and>
     last (g_log g1) = GUnary 0 (SubmitOrder ''human'' ''BID'' ''MARKET'' p (Fin 0))"
proof -
  let ?t = "new_ticket\<lparr>tk_type := Market, tk_qty := ''Infinity''\<rparr>"
  have "\<not> tk_busy ?t" "to_number (tk_qty ?t) = PosInf" "tk_type ?t = Market" "tk_side ?t = Bid"
    "f_out ex_trading = []" "g_nextCall ex_gateway = 0" by code_simp+
  then show ?thesis using infinite_quantity_becomes_zero [OF ex_trading_can, of ?t 0 "Inr []" ex_gateway] by fastforce
qed

section \<open>A negative quantity\<close>

text \<open>
  C40. Nothing between a browser and the book checks the sign of a quantity. A client that sends a
  limit order to buy with a whole negative quantity gets it submitted as it is by the gateway.
  An exchange that serves that request, with an ask at the price or below, answers that the
  order is queued with nothing filled; no trade happens and no order to sell changes; the order
  rests among the bids with its negative quantity, and the book is crossed from then on.
\<close>

theorem negative_order_crosses_book:
  assumes "q < 0" and "safe_int q" and "x_calls x = []" and "x_queue x = []"
    and "a \<in> set (flat (ob_asks (x_book x)))" and "\<not> js_lt (Fin p) (od_price a)"
  shows "\<exists>g1 x1 res events. on_message ws fn (InMsg (over_socket (MOrder Bid Limit (Fin p) (js_int q) r))) g = Some g1 \<and>
    g_log g1 = g_log g @ [GUnary (g_nextCall g) (SubmitOrder ''human'' ''BID'' ''LIMIT'' (Fin p) (js_int q))] \<and>
    prun xexec [Submit_call \<lparr>rq_node = ''human'', rq_side = 1, rq_type = 2, rq_price = Fin p, rq_qty = q\<rparr> t t',
      Enqueue 0, Engine ck] x = Some x1 \<and>
    x_results x1 = x_results x @ [(x_nextCall x, res)] \<and> er_status res = QUEUED \<and> er_filled res = 0 \<and>
    x_market x1 = (if events = [] then x_market x else publish events (x_market x)) \<and> trade_events events = [] \<and>
    x_nextTrade x1 = x_nextTrade x \<and> flat (ob_asks (x_book x1)) = flat (ob_asks (x_book x)) \<and>
    \<lparr>od_side = BID, od_type = LIMIT, od_price = Fin p, od_qty = q, od_id = order_id (x_nextOrder x),
      od_node = ''human''\<rparr> \<in> set (flat (ob_bids (x_book x1))) \<and>
    \<not> uncrossed (flat (ob_bids (x_book x1))) (flat (ob_asks (x_book x1)))"
proof -
  let ?ord = "\<lparr>od_side = BID, od_type = LIMIT, od_price = Fin p, od_qty = q,
      od_id = order_id (x_nextOrder x), od_node = ''human''\<rparr>"
  obtain res events b' n' where s: "submit_order ?ord (ck_millis ck) (x_book x) (x_nextTrade x) = (res, events, b', n')"
    by (metis prod_cases4)
  have "er_status res = QUEUED \<and> er_filled res = 0 \<and> trade_events events = [] \<and> n' = x_nextTrade x \<and>
    ?ord \<in> set (flat (ob_bids b')) \<and> flat (ob_asks b') = flat (ob_asks (x_book x)) \<and>
    \<not> uncrossed (flat (ob_bids b')) (flat (ob_asks b'))"
    by (rule negative_quantity_crosses [OF _ _ _ assms(5) _ s]) (use assms(1,6) in simp_all)
  then have neg: "er_status res = QUEUED" "er_filled res = 0" "trade_events events = []" "n' = x_nextTrade x"
    "?ord \<in> set (flat (ob_bids b'))" "flat (ob_asks b') = flat (ob_asks (x_book x))"
    "\<not> uncrossed (flat (ob_bids b')) (flat (ob_asks b'))"
    by - (elim conjE, assumption)+
  obtain x1 where x1: "prun xexec [Submit_call \<lparr>rq_node = ''human'', rq_side = 1, rq_type = 2, rq_price = Fin p,
        rq_qty = q\<rparr> t t', Enqueue 0, Engine ck] x = Some x1"
    "x_results x1 = x_results x @ [(x_nextCall x, res)]" "x_book x1 = b'" "x_nextTrade x1 = n'"
    "x_market x1 = (if events = [] then x_market x else publish events (x_market x))"
    using s assms(3,4)
    by (auto simp: SubmitOrder_rpc_def protoToOrder_def protoToOrderSide_def protoToOrderType_def enqueue_def
        engine_step_def process_def Let_def)
  obtain g1 where g1: "on_message ws fn (InMsg (over_socket (MOrder Bid Limit (Fin p) (js_int q) r))) g = Some g1"
    "g_log g1 = g_log g @ [GUnary (g_nextCall g) (SubmitOrder ''human'' ''BID'' ''LIMIT'' (Fin p) (js_int q))]"
    using ticket_at_gateway [of ws fn Bid Limit "Fin p" "js_int q" r g] by auto
  show ?thesis
    by (rule exI [of _ g1], rule exI [of _ x1], rule exI [of _ res], rule exI [of _ events])
       (intro conjI, (simp only: g1 x1 neg(1-6))+, use x1(3) neg(5-7) in simp_all)
qed

theorem negative_order_crosses_book_witness:
  "\<exists>g1 x1. on_message 0 (Inr []) (InMsg (over_socket (MOrder Bid Limit (Fin 200) (js_int (- 5)) 1))) ex_gateway = Some g1 \<and>
    prun xexec [Submit_call \<lparr>rq_node = ''human'', rq_side = 1, rq_type = 2, rq_price = Fin 200, rq_qty = - 5\<rparr> 0 1,
      Enqueue 0, Engine ex_clock] (new_exchange\<lparr>x_book := ex_obook\<rparr>) = Some x1 \<and>
    map (er_status \<circ> snd) (x_results x1) = [QUEUED] \<and> - 5 \<in> od_qty ` set (flat (ob_bids (x_book x1))) \<and>
    \<not> uncrossed (flat (ob_bids (x_book x1))) (flat (ob_asks (x_book x1)))"
proof -
  let ?x = "new_exchange\<lparr>x_book := ex_obook\<rparr>"
  have "ex_order ''A1'' ASK LIMIT 101 3 \<in> set (flat (ob_asks (x_book ?x)))"
    by (simp add: ex_obook_def ex_order_def restBid_def restAsk_def empty_book_def js_lt_def)
  moreover have "\<not> js_lt (Fin 200) (od_price (ex_order ''A1'' ASK LIMIT 101 3))" by (simp add: ex_order_def js_lt_def)
  ultimately have "\<exists>g1 x1 res events. on_message 0 (Inr []) (InMsg (over_socket (MOrder Bid Limit (Fin 200) (js_int (- 5)) 1))) ex_gateway = Some g1 \<and>
    g_log g1 = g_log ex_gateway @ [GUnary (g_nextCall ex_gateway) (SubmitOrder ''human'' ''BID'' ''LIMIT'' (Fin 200) (js_int (- 5)))] \<and>
    prun xexec [Submit_call \<lparr>rq_node = ''human'', rq_side = 1, rq_type = 2, rq_price = Fin 200, rq_qty = - 5\<rparr> 0 1,
      Enqueue 0, Engine ex_clock] ?x = Some x1 \<and>
    x_results x1 = x_results ?x @ [(x_nextCall ?x, res)] \<and> er_status res = QUEUED \<and> er_filled res = 0 \<and>
    x_market x1 = (if events = [] then x_market ?x else publish events (x_market ?x)) \<and> trade_events events = [] \<and>
    x_nextTrade x1 = x_nextTrade ?x \<and> flat (ob_asks (x_book x1)) = flat (ob_asks (x_book ?x)) \<and>
    \<lparr>od_side = BID, od_type = LIMIT, od_price = Fin 200, od_qty = - 5, od_id = order_id (x_nextOrder ?x),
      od_node = ''human''\<rparr> \<in> set (flat (ob_bids (x_book x1))) \<and>
    \<not> uncrossed (flat (ob_bids (x_book x1))) (flat (ob_asks (x_book x1)))"
    by (intro negative_order_crosses_book) (simp_all add: new_exchange_def safe_int_def)
  moreover have "x_results ?x = []" by (simp add: new_exchange_def)
  ultimately show ?thesis by (elim exE conjE) (intro exI conjI, assumption+, simp, force, assumption)
qed

end
